(* ===== verification/Mixsim_Prelude.thy ===== *)
theory Mixsim_Prelude
  imports Main "HOL-Library.Word" "HOL-Library.Monad_Syntax"
begin

text \<open>
  The vocabulary every theory of the development shares: the C integer and pointer types at the
  widths the program is built for (LP64: 16/32/64-bit words, a pointer is a 64-bit word), the
  reading of undefined behaviour, checked array accesses, and the generic list lemmas the
  component proofs use.

  Undefined behaviour (a NULL or dangling pointer, an access outside an array, a free of memory
  that is not allocated) is the value \<open>None\<close> of an \<open>option\<close>; so is a loop that never returns
  (\<open>partial_function (option)\<close>).  A theorem that an operation returns \<open>Some\<close> therefore says that
  it terminates and is memory safe.
\<close>

section \<open>C types\<close>

type_synonym u8 = "8 word"
type_synonym u16 = "16 word"
type_synonym u32 = "32 word"
type_synonym u64 = "64 word"
type_synonym addr = "64 word"

abbreviation NULL :: addr where "NULL \<equiv> 0"

text \<open>\<open>(void *)-1\<close>: the poison written to freed nodes and the "too many threads" result.\<close>

abbreviation MINUS_ONE :: addr where "MINUS_ONE \<equiv> -1"

text \<open>The value \<open>calloc\<close> and \<open>malloc\<close> leave in \<open>errno\<close> when they fail.\<close>

abbreviation ENOMEM :: int where "ENOMEM \<equiv> 12"

abbreviation EINVAL :: int where "EINVAL \<equiv> 22"

section \<open>Checked array accesses\<close>

text \<open>\<open>a[i]\<close> and \<open>a[i] = v\<close> on an array of \<open>length a\<close> elements; outside it the access is undefined.\<close>

definition aread :: "'a list \<Rightarrow> int \<Rightarrow> 'a option" where
  "aread a i = (if 0 \<le> i \<and> i < int (length a) then Some (a ! nat i) else None)"

definition awrite :: "'a list \<Rightarrow> int \<Rightarrow> 'a \<Rightarrow> 'a list option" where
  "awrite a i v = (if 0 \<le> i \<and> i < int (length a) then Some (a[nat i := v]) else None)"

text \<open>
  \<open>memcpy(dst + off, src, n)\<close> for \<open>n\<close> converted to \<open>size_t\<close>: a negative \<open>n\<close> becomes huge, so
  it is undefined like every copy that leaves one of the two arrays.
\<close>

definition amemcpy :: "'a list \<Rightarrow> int \<Rightarrow> 'a list \<Rightarrow> int \<Rightarrow> 'a list option" where
  "amemcpy dst off src n =
     (if 0 \<le> n \<and> n \<le> int (length src) \<and> 0 \<le> off \<and> off + n \<le> int (length dst)
      then Some (take (nat off) dst @ take (nat n) src @ drop (nat (off + n)) dst)
      else None)"

named_theorems array_simps \<open>defining equations of the checked array accesses\<close>

declare aread_def [array_simps] awrite_def [array_simps] amemcpy_def [array_simps]

lemma aread_in [simp]: "i < length a \<Longrightarrow> aread a (int i) = Some (a ! i)"
  by (simp add: aread_def)

lemma aread_Some_iff: "aread a i = Some x \<longleftrightarrow> 0 \<le> i \<and> nat i < length a \<and> x = a ! nat i"
  by (auto simp: aread_def)

lemma aread_None_iff: "aread a i = None \<longleftrightarrow> i < 0 \<or> int (length a) \<le> i"
  by (auto simp: aread_def)

lemma awrite_in [simp]: "i < length a \<Longrightarrow> awrite a (int i) v = Some (a[i := v])"
  by (simp add: awrite_def)

lemma awrite_Some_iff:
  "awrite a i v = Some b \<longleftrightarrow> 0 \<le> i \<and> nat i < length a \<and> b = a[nat i := v]"
  by (auto simp: awrite_def)

lemma amemcpy_length: "amemcpy dst off src n = Some d \<Longrightarrow> length d = length dst"
  by (auto simp: amemcpy_def split: if_splits)

lemma amemcpy_in:
  "n \<le> length src \<Longrightarrow> n \<le> length dst \<Longrightarrow>
   amemcpy dst 0 src (int n) = Some (take n src @ drop n dst)"
  by (simp add: amemcpy_def)

lemma take_amemcpy:
  "amemcpy dst 0 src n = Some d \<Longrightarrow> take (nat n) d = take (nat n) src"
  by (auto simp: amemcpy_def split: if_splits)

section \<open>Lists\<close>

lemma list_eq_replicate_iff: "xs = replicate (length xs) c \<longleftrightarrow> (\<forall>x \<in> set xs. x = c)"
  by (metis replicate_eqI in_set_replicate)

lemma last_map_fst: "xs \<noteq> [] \<Longrightarrow> fst (last xs) = last (map fst xs)"
  by (simp add: last_map)

lemma length_one_iff: "length xs = Suc 0 \<longleftrightarrow> (\<exists>x. xs = [x])"
  by (auto simp: length_Suc_conv)

section \<open>The first index at which a predicate holds\<close>

fun idx_of :: "('a \<Rightarrow> bool) \<Rightarrow> 'a list \<Rightarrow> nat option" where
  "idx_of P [] = None"
| "idx_of P (x # xs) = (if P x then Some 0 else map_option Suc (idx_of P xs))"

lemma idx_of_None_iff: "idx_of P xs = None \<longleftrightarrow> (\<forall>x \<in> set xs. \<not> P x)"
  by (induction xs) auto

lemma idx_of_Some_iff:
  "idx_of P xs = Some i \<longleftrightarrow> i < length xs \<and> P (xs ! i) \<and> (\<forall>j < i. \<not> P (xs ! j))"
proof (induction xs arbitrary: i)
  case Nil
  then show ?case by simp
next
  case (Cons x xs)
  show ?case by (cases i) (auto simp: Cons.IH nth_Cons' less_Suc_eq_0_disj)
qed

lemma idx_of_SomeD:
  assumes "idx_of P xs = Some i"
  shows "i < length xs" "P (xs ! i)" "j < i \<Longrightarrow> \<not> P (xs ! j)"
  using assms by (simp_all add: idx_of_Some_iff)

lemma idx_of_append:
  "idx_of P (xs @ ys) = (case idx_of P xs of Some i \<Rightarrow> Some i
                         | None \<Rightarrow> map_option ((+) (length xs)) (idx_of P ys))"
proof (induction xs)
  case Nil
  then show ?case by (cases "idx_of P ys") auto
next
  case (Cons x xs)
  then show ?case by (cases "idx_of P xs"; cases "idx_of P ys") auto
qed

lemma idx_of_take_Suc:
  "i < length xs \<Longrightarrow> idx_of P (take (Suc i) xs) =
     (case idx_of P (take i xs) of Some m \<Rightarrow> Some m | None \<Rightarrow> if P (xs ! i) then Some i else None)"
  by (simp add: take_Suc_conv_app_nth idx_of_append split: option.split)

text \<open>Overwriting an element leaves the first index alone when the predicate sees no difference.\<close>

lemma idx_of_update:
  "P (xs ! m) = P y \<Longrightarrow> idx_of P (xs[m := y]) = idx_of P xs"
proof (induction xs arbitrary: m)
  case Nil
  then show ?case by simp
next
  case (Cons x xs)
  then show ?case by (cases m) auto
qed

text \<open>The only element that satisfies the predicate is the first.\<close>

lemma idx_of_unique:
  "m < length xs \<Longrightarrow> P (xs ! m) \<Longrightarrow> (\<And>j. j < length xs \<Longrightarrow> P (xs ! j) \<Longrightarrow> j = m) \<Longrightarrow> idx_of P xs = Some m"
  unfolding idx_of_Some_iff by (metis less_irrefl less_trans)

lemma idx_of_cong: "(\<And>x. x \<in> set xs \<Longrightarrow> P x = Q x) \<Longrightarrow> idx_of P xs = idx_of Q xs"
  by (induction xs) auto

end
