(* ===== verification/Atomics.thy ===== *)
theory Atomics
  imports Mixsim_Prelude
begin

text \<open>
  The atomic primitives of \<open>cross-platform.h\<close>, as functions on the value of the cell they act on:
  each gives the value returned and the cell's new value.  \<open>CAS\<close> is
  \<open>__sync_bool_compare_and_swap\<close>, \<open>XCHG\<close> is \<open>__sync_lock_test_and_set\<close>; the memory barriers
  \<open>mb\<close>, \<open>lmb\<close> and \<open>smb\<close> do nothing in a sequentially consistent store and are left out of the
  operations that call them.
\<close>

definition CAS :: "'a \<Rightarrow> 'a \<Rightarrow> 'a \<Rightarrow> bool \<times> 'a" where
  "CAS cell old new = (if cell = old then (True, new) else (False, cell))"

definition XCHG :: "'a \<Rightarrow> 'a \<Rightarrow> 'a \<times> 'a" where
  "XCHG cell new = (cell, new)"

lemma CAS_same [simp]: "CAS c c n = (True, n)"
  by (simp add: CAS_def)

lemma CAS_other [simp]: "c \<noteq> old \<Longrightarrow> CAS c old n = (False, c)"
  by (simp add: CAS_def)

lemma XCHG_simp [simp]: "XCHG c n = (c, n)"
  by (simp add: XCHG_def)

section \<open>The macros \<open>lfq.c\<close> does not use\<close>

text \<open>
  On 32-bit cells.  \<open>cmpxchg\<close> is the x86 instruction; with gcc \<open>ATOMIC_ADD\<close> and \<open>ATOMIC_SUB\<close> are
  \<open>__sync_add_and_fetch\<close> and \<open>__sync_sub_and_fetch\<close>, on Windows \<open>InterlockedExchangeAddNoFence\<close>, and \<open>CAS\<close> is an inline
  function around \<open>InterlockedCompareExchangeNoFence\<close>, which returns the value the cell had.
\<close>

definition cmpxchg :: "u32 \<Rightarrow> u32 \<Rightarrow> u32 \<Rightarrow> u32 \<times> u32" where
  "cmpxchg cell old new = (cell, if cell = old then new else cell)"

definition ATOMIC_SET :: "u32 \<Rightarrow> u32 \<Rightarrow> u32 \<times> u32" where
  "ATOMIC_SET cell new = XCHG cell new"

definition ATOMIC_RELEASE :: "u32 \<Rightarrow> u32" where
  "ATOMIC_RELEASE cell = 0"

definition ATOMIC_SUB :: "u32 \<Rightarrow> u32 \<Rightarrow> u32 \<times> u32" where
  "ATOMIC_SUB cell x = (cell - x, cell - x)"

definition ATOMIC_ADD :: "u32 \<Rightarrow> u32 \<Rightarrow> u32 \<times> u32" where
  "ATOMIC_ADD cell x = (cell + x, cell + x)"

definition ATOMIC_SUB_win :: "u32 \<Rightarrow> u32 \<Rightarrow> u32 \<times> u32" where
  "ATOMIC_SUB_win cell y = (cell, cell + (- y))"

definition ATOMIC_ADD_win :: "u32 \<Rightarrow> u32 \<Rightarrow> u32 \<times> u32" where
  "ATOMIC_ADD_win cell x = (cell, cell + x)"

definition CAS_win :: "'a \<Rightarrow> 'a \<Rightarrow> 'a \<Rightarrow> bool \<times> 'a" where
  "CAS_win cell y z = (let (was, cell) = (cell, if cell = y then z else cell) in (was = y, cell))"

text \<open>Both compare-and-swaps are the same; of the counters only the cell is, not the value returned.\<close>

lemma CAS_win_eq: "CAS_win c old new = CAS c old new"
  by (simp add: CAS_win_def CAS_def)

lemma cmpxchg_CAS: "CAS c old new = (fst (cmpxchg c old new) = old, snd (cmpxchg c old new))"
  by (simp add: cmpxchg_def CAS_def)

lemma ATOMIC_cells: "snd (ATOMIC_ADD_win c x) = snd (ATOMIC_ADD c x)" "snd (ATOMIC_SUB_win c x) = snd (ATOMIC_SUB c x)"
  by (simp_all add: ATOMIC_ADD_win_def ATOMIC_ADD_def ATOMIC_SUB_win_def ATOMIC_SUB_def)

lemma ATOMIC_results_differ:
  assumes "x \<noteq> 0"
  shows "fst (ATOMIC_ADD_win c x) \<noteq> fst (ATOMIC_ADD c x)" "fst (ATOMIC_SUB_win c x) \<noteq> fst (ATOMIC_SUB c x)"
  using assms by (simp_all add: ATOMIC_ADD_win_def ATOMIC_ADD_def ATOMIC_SUB_win_def ATOMIC_SUB_def)

end
