(* ===== verification/Lfq.thy ===== *)
theory Lfq
  imports Atomics
begin

text \<open>
  The queue of \<open>adaptor/lfq.c\<close>, operation by operation, over an explicit store of nodes.  Each
  operation here runs without interruption, as it does in the adaptor, whose coroutines switch
  only inside the dyco calls.

  A \<open>lfq\<close> is the \<open>struct lfq_ctx\<close> together with the store of the nodes its operations allocate
  and free.  Every address an operation reaches comes from one context, so each queue is given
  a store of its own: an allocation then only has to be fresh in that store, which admits more
  behaviours than the one heap of the process.  What \<open>calloc\<close> returns is an argument of the
  operations that call it (\<open>NULL\<close> when it fails).
\<close>

section \<open>Data\<close>

text \<open>\<open>next\<close> and \<open>free_next\<close> are the two names of one union, hence one field.\<close>

record lfq_node =
  n_data :: addr
  n_next :: addr
  n_can_free :: int

record lfq_ctx =
  head :: addr
  count :: int
  HP :: "addr list option"
  tid_map :: "int list option"
  is_freeing :: int
  fph :: addr
  fpt :: addr
  MAXHPSIZE :: int
  tail :: addr

record lfq = lfq_ctx +
  nodes :: "addr \<rightharpoonup> lfq_node"

definition MAXFREE :: int where "MAXFREE = 150"

text \<open>\<open>sizeof\<close> on LP64: the arrays \<open>HP\<close> and \<open>tid_map\<close> are allocated in units of nodes.\<close>

definition sizeof_lfq_node :: nat where "sizeof_lfq_node = 24"
definition sizeof_ptr :: nat where "sizeof_ptr = 8"
definition sizeof_int :: nat where "sizeof_int = 4"

section \<open>The store\<close>

definition zero_node :: lfq_node where
  "zero_node = \<lparr>n_data = NULL, n_next = NULL, n_can_free = 0\<rparr>"

definition calloc_node :: "addr \<Rightarrow> lfq \<Rightarrow> lfq" where
  "calloc_node a s = s\<lparr>nodes := (nodes s)(a \<mapsto> zero_node)\<rparr>"

definition load :: "addr \<Rightarrow> lfq \<Rightarrow> lfq_node option" where
  "load p s = nodes s p"

definition store :: "addr \<Rightarrow> (lfq_node \<Rightarrow> lfq_node) \<Rightarrow> lfq \<Rightarrow> lfq option" where
  "store p f s = (case nodes s p of None \<Rightarrow> None
                  | Some n \<Rightarrow> Some (s\<lparr>nodes := (nodes s)(p \<mapsto> f n)\<rparr>))"

definition free_node :: "addr \<Rightarrow> lfq \<Rightarrow> lfq option" where
  "free_node p s =
     (if p = NULL then Some s
      else case nodes s p of None \<Rightarrow> None
           | Some _ \<Rightarrow> Some (s\<lparr>nodes := (nodes s)(p := None)\<rparr>))"

definition read_HP :: "lfq \<Rightarrow> int \<Rightarrow> addr option" where
  "read_HP s i = (case HP s of None \<Rightarrow> None | Some hp \<Rightarrow> aread hp i)"

definition write_HP :: "int \<Rightarrow> addr \<Rightarrow> lfq \<Rightarrow> lfq option" where
  "write_HP i p s = (case HP s of None \<Rightarrow> None
     | Some hp \<Rightarrow> map_option (\<lambda>hp'. s\<lparr>HP := Some hp'\<rparr>) (awrite hp i p))"

definition read_tid_map :: "lfq \<Rightarrow> int \<Rightarrow> int option" where
  "read_tid_map s i = (case tid_map s of None \<Rightarrow> None | Some tm \<Rightarrow> aread tm i)"

definition write_tid_map :: "int \<Rightarrow> int \<Rightarrow> lfq \<Rightarrow> lfq option" where
  "write_tid_map i v s = (case tid_map s of None \<Rightarrow> None
     | Some tm \<Rightarrow> map_option (\<lambda>tm'. s\<lparr>tid_map := Some tm'\<rparr>) (awrite tm i v))"

section \<open>Operations, in the order of lfq.c\<close>

function inHP_from :: "lfq \<Rightarrow> addr \<Rightarrow> int \<Rightarrow> bool option" where
  "inHP_from s lfn i =
     (if i < MAXHPSIZE s
      then do { p \<leftarrow> read_HP s i;
                if p = lfn then Some True else inHP_from s lfn (i + 1) }
      else Some False)"
  by pat_completeness auto
termination
  by (relation "measure (\<lambda>(s, lfn, i). nat (MAXHPSIZE s - i))") auto

declare inHP_from.simps [simp del]

definition inHP :: "lfq \<Rightarrow> addr \<Rightarrow> bool option" where
  "inHP s lfn = inHP_from s lfn 0"

definition enpool :: "addr \<Rightarrow> lfq \<Rightarrow> lfq option" where
  "enpool lfn s = do {
     s \<leftarrow> store lfn (n_next_update (\<lambda>_. NULL)) s;
     let (old_tail, fpt') = XCHG (fpt s) lfn;
     let s = s\<lparr>fpt := fpt'\<rparr>;
     store old_tail (n_next_update (\<lambda>_. lfn)) s
   }"

partial_function (option) free_pool_loop :: "bool \<Rightarrow> int \<Rightarrow> lfq \<Rightarrow> lfq option" where
  "free_pool_loop freeall i s =
     (if i < MAXFREE \<or> freeall
      then do {
        let p = fph s;
        n \<leftarrow> load p s;
        if n_can_free n = 0 then Some s
        else if n_next n = NULL then Some s
        else do {
          hazard \<leftarrow> inHP s p;
          if hazard then Some s
          else do {
            s \<leftarrow> free_node p (s\<lparr>fph := n_next n\<rparr>);
            free_pool_loop freeall (i + 1) s
          }
        }
      }
      else Some s)"

definition free_pool :: "bool \<Rightarrow> lfq \<Rightarrow> lfq option" where
  "free_pool freeall s =
     (let (won, f) = CAS (is_freeing s) 0 1
      in if \<not> won then Some s
         else do {
           s \<leftarrow> free_pool_loop freeall 0 (s\<lparr>is_freeing := f\<rparr>);
           Some (s\<lparr>is_freeing := 0\<rparr>)
         })"

definition safe_free :: "addr \<Rightarrow> lfq \<Rightarrow> lfq option" where
  "safe_free lfn s = do {
     n \<leftarrow> load lfn s;
     reclaim \<leftarrow> (if n_can_free n \<noteq> 0 then map_option Not (inHP s lfn) else Some False);
     s \<leftarrow> (if reclaim
           then do {
             let (won, f) = CAS (is_freeing s) 0 1;
             if won then do {
               s \<leftarrow> store lfn (n_next_update (\<lambda>_. MINUS_ONE)) (s\<lparr>is_freeing := f\<rparr>);
               s \<leftarrow> free_node lfn s;
               Some (s\<lparr>is_freeing := 0\<rparr>)
             }
             else enpool lfn s
           }
           else enpool lfn s);
     free_pool False s
   }"

function alloc_tid_from :: "lfq \<Rightarrow> int \<Rightarrow> (int \<times> lfq) option" where
  "alloc_tid_from s i =
     (if i < MAXHPSIZE s
      then do { t \<leftarrow> read_tid_map s i;
                if t = 0
                then do {
                  let (won, t') = CAS t 0 1;
                  if won then map_option (Pair i) (write_tid_map i t' s)
                  else alloc_tid_from s (i + 1)
                }
                else alloc_tid_from s (i + 1) }
      else Some (-1, s))"
  by pat_completeness auto
termination
  by (relation "measure (\<lambda>(s, i). nat (MAXHPSIZE s - i))") auto

declare alloc_tid_from.simps [simp del]

definition alloc_tid :: "lfq \<Rightarrow> (int \<times> lfq) option" where
  "alloc_tid s = alloc_tid_from s 0"

definition free_tid :: "int \<Rightarrow> lfq \<Rightarrow> lfq option" where
  "free_tid tid s = write_tid_map tid 0 s"

text \<open>\<open>memset(ctx, 0, sizeof(struct lfq_ctx))\<close> leaves the nodes alone.\<close>

definition zero_ctx :: "lfq \<Rightarrow> lfq" where
  "zero_ctx s = s\<lparr>head := NULL, count := 0, HP := None, tid_map := None, is_freeing := 0,
                  fph := NULL, fpt := NULL, MAXHPSIZE := 0, tail := NULL\<rparr>"

text \<open>
  \<open>lfq_init\<close>: \<open>a1\<close> and \<open>a2\<close> are what the two checked \<open>calloc\<close> calls return; \<open>hp_ok\<close> and
  \<open>tm_ok\<close> say whether the two unchecked ones succeed (a negative size, converted to \<open>size_t\<close>,
  does not).
\<close>

definition calloc_array :: "bool \<Rightarrow> int \<Rightarrow> nat \<Rightarrow> 'a \<Rightarrow> 'a list option" where
  "calloc_array ok n sz z =
     (if ok \<and> 0 \<le> n then Some (replicate (nat n * sizeof_lfq_node div sz) z) else None)"

definition lfq_init :: "addr \<Rightarrow> addr \<Rightarrow> bool \<Rightarrow> bool \<Rightarrow> int \<Rightarrow> lfq \<Rightarrow> (int \<times> lfq) option" where
  "lfq_init a1 a2 hp_ok tm_ok max_consume_thread s =
     (if a1 = NULL then Some (- ENOMEM, s)
      else do {
        let s = calloc_node a1 s;
        if a2 = NULL then Some (- ENOMEM, s)
        else do {
          let s = calloc_node a2 s;
          s \<leftarrow> store a2 (n_can_free_update (\<lambda>_. 1)) s;
          s \<leftarrow> store a1 (n_can_free_update (\<lambda>_. 1)) s;
          let s = zero_ctx s;
          let s = s\<lparr>MAXHPSIZE := max_consume_thread\<rparr>;
          let s = s\<lparr>HP := calloc_array hp_ok max_consume_thread sizeof_ptr NULL\<rparr>;
          let s = s\<lparr>tid_map := calloc_array tm_ok max_consume_thread sizeof_int 0\<rparr>;
          let s = s\<lparr>head := a1, tail := a1\<rparr>;
          Some (0, s\<lparr>fph := a2, fpt := a2\<rparr>)
        }
      })"

partial_function (option) count_freelist_loop :: "addr \<Rightarrow> int \<Rightarrow> lfq \<Rightarrow> int option" where
  "count_freelist_loop p c s =
     (if p = NULL then Some c
      else do { n \<leftarrow> load p s; count_freelist_loop (n_next n) (c + 1) s })"

definition lfg_count_freelist :: "lfq \<Rightarrow> int option" where
  "lfg_count_freelist s = count_freelist_loop (fph s) 0 s"

partial_function (option) lfq_clean_loop :: "lfq \<Rightarrow> lfq option" where
  "lfq_clean_loop s =
     (if head s = NULL then Some s
      else do {
        n \<leftarrow> load (head s) s;
        let tmp = n_next n;
        s \<leftarrow> safe_free (head s) s;
        lfq_clean_loop (s\<lparr>head := tmp\<rparr>)
      })"

definition lfq_clean :: "lfq \<Rightarrow> (int \<times> lfq) option" where
  "lfq_clean s = do {
     s \<leftarrow> (if tail s \<noteq> NULL \<and> head s \<noteq> NULL
           then do { s \<leftarrow> lfq_clean_loop s; Some (s\<lparr>tail := NULL\<rparr>) }
           else Some s);
     (stop, s) \<leftarrow> (if fph s \<noteq> NULL \<and> fpt s \<noteq> NULL
           then do {
             s \<leftarrow> free_pool True s;
             if fph s \<noteq> fpt s then Some (True, s)
             else do {
               s \<leftarrow> free_node (fpt s) s;
               Some (False, s\<lparr>fph := NULL, fpt := NULL\<rparr>)
             }
           }
           else Some (False, s));
     if stop then Some (-1, s)
     else if fph s = NULL \<and> fpt s = NULL then Some (0, zero_ctx s)
     else Some (-1, s)
   }"

definition lfq_enqueue :: "addr \<Rightarrow> addr \<Rightarrow> lfq \<Rightarrow> (int \<times> lfq) option" where
  "lfq_enqueue a d s =
     (if a = NULL then Some (- ENOMEM, s)
      else do {
        let s = calloc_node a s;
        s \<leftarrow> store a (n_data_update (\<lambda>_. d)) s;
        let (old_tail, tail') = XCHG (tail s) a;
        let s = s\<lparr>tail := tail'\<rparr>;
        s \<leftarrow> store old_tail (n_next_update (\<lambda>_. a)) s;
        Some (0, s)
      })"

text \<open>
  The claiming loop of \<open>lfq_dequeue_tid\<close>: \<open>Some None\<close> for the empty queue, otherwise the old and
  the new head once the \<open>CAS\<close> has advanced it.
\<close>

partial_function (option) dequeue_loop ::
  "int \<Rightarrow> lfq \<Rightarrow> ((addr \<times> addr) option \<times> lfq) option" where
  "dequeue_loop tid s = do {
     let old_head = head s;
     s \<leftarrow> write_HP tid old_head s;
     if old_head \<noteq> head s then dequeue_loop tid s
     else do {
       n \<leftarrow> load old_head s;
       let new_head = n_next n;
       if new_head = NULL
       then do { s \<leftarrow> write_HP tid NULL s; Some (None, s) }
       else do {
         let (won, h) = CAS (head s) old_head new_head;
         if won then Some (Some (old_head, new_head), s\<lparr>head := h\<rparr>)
         else dequeue_loop tid s
       }
     }
   }"

definition lfq_dequeue_tid :: "int \<Rightarrow> lfq \<Rightarrow> (addr \<times> lfq) option" where
  "lfq_dequeue_tid tid s = do {
     (claim, s) \<leftarrow> dequeue_loop tid s;
     case claim of
       None \<Rightarrow> Some (NULL, s)
     | Some (old_head, new_head) \<Rightarrow> do {
         s \<leftarrow> write_HP tid NULL s;
         n \<leftarrow> load new_head s;
         let ret = n_data n;
         s \<leftarrow> store new_head (n_can_free_update (\<lambda>_. 1)) s;
         s \<leftarrow> safe_free old_head s;
         Some (ret, s)
       }
   }"

definition lfq_dequeue :: "lfq \<Rightarrow> (addr \<times> lfq) option" where
  "lfq_dequeue s = do {
     (tid, s) \<leftarrow> alloc_tid s;
     if tid = -1 then Some (MINUS_ONE, s)
     else do {
       (ret, s) \<leftarrow> lfq_dequeue_tid tid s;
       s \<leftarrow> free_tid tid s;
       Some (ret, s)
     }
   }"

text \<open>The macro \<open>LFQ_MB_DEQUEUE\<close> of \<open>lfq.h\<close>: it spins until a dequeue gives a non-zero value.\<close>

partial_function (option) LFQ_MB_DEQUEUE :: "lfq \<Rightarrow> (addr \<times> lfq) option" where
  "LFQ_MB_DEQUEUE s = do {
     (ret, s) \<leftarrow> lfq_dequeue s;
     if ret = NULL then LFQ_MB_DEQUEUE s else Some (ret, s)
   }"

end
