(* ===== verification/Fifo.thy ===== *)
theory Fifo
  imports Mixsim_Prelude
begin

text \<open>
  The contract the adaptor uses its queues by.  A provider gives an enqueue that takes what the
  allocator answered, a dequeue that gives a distinguished value on the empty queue, and says
  which lists its states represent; a client runs sequences of these operations.
\<close>

datatype ('a, 'd) qop = Enq 'a 'd | Deq

datatype 'd qres = EnqRes int | DeqRes 'd

fun run_ops ::
  "('a \<Rightarrow> 'd \<Rightarrow> 'q \<Rightarrow> (int \<times> 'q) option) \<Rightarrow> ('q \<Rightarrow> ('d \<times> 'q) option) \<Rightarrow>
   ('a, 'd) qop list \<Rightarrow> 'q \<Rightarrow> ('d qres list \<times> 'q) option" where
  "run_ops enq deq [] q = Some ([], q)"
| "run_ops enq deq (Enq a d # ops) q = do {
     (r, q) \<leftarrow> enq a d q;
     (rs, q) \<leftarrow> run_ops enq deq ops q;
     Some (EnqRes r # rs, q)
   }"
| "run_ops enq deq (Deq # ops) q = do {
     (d, q) \<leftarrow> deq q;
     (rs, q) \<leftarrow> run_ops enq deq ops q;
     Some (DeqRes d # rs, q)
   }"

text \<open>The same operations on a list; \<open>null\<close> is the allocator's failure.\<close>

fun spec_ops :: "'a \<Rightarrow> 'd \<Rightarrow> ('a, 'd) qop list \<Rightarrow> 'd list \<Rightarrow> 'd qres list \<times> 'd list" where
  "spec_ops null none [] xs = ([], xs)"
| "spec_ops null none (Enq a d # ops) xs =
     (if a = null
      then (let (rs, ys) = spec_ops null none ops xs in (EnqRes (- ENOMEM) # rs, ys))
      else (let (rs, ys) = spec_ops null none ops (xs @ [d]) in (EnqRes 0 # rs, ys)))"
| "spec_ops null none (Deq # ops) xs =
     (case xs of
        [] \<Rightarrow> (let (rs, ys) = spec_ops null none ops [] in (DeqRes none # rs, ys))
      | x # xs \<Rightarrow> (let (rs, ys) = spec_ops null none ops xs in (DeqRes x # rs, ys)))"

text \<open>Every allocation on the way either fails or gives memory that is not in use.\<close>

fun allocs_ok ::
  "('a \<Rightarrow> 'd \<Rightarrow> 'q \<Rightarrow> (int \<times> 'q) option) \<Rightarrow> ('q \<Rightarrow> ('d \<times> 'q) option) \<Rightarrow> ('a \<Rightarrow> 'q \<Rightarrow> bool) \<Rightarrow>
   'a \<Rightarrow> ('a, 'd) qop list \<Rightarrow> 'q \<Rightarrow> bool" where
  "allocs_ok enq deq fresh null [] q = True"
| "allocs_ok enq deq fresh null (Enq a d # ops) q =
     ((a = null \<or> fresh a q) \<and>
      (case enq a d q of None \<Rightarrow> True | Some (_, q) \<Rightarrow> allocs_ok enq deq fresh null ops q))"
| "allocs_ok enq deq fresh null (Deq # ops) q =
     (case deq q of None \<Rightarrow> True | Some (_, q) \<Rightarrow> allocs_ok enq deq fresh null ops q)"

locale fifo =
  fixes enq :: "'a \<Rightarrow> 'd \<Rightarrow> 'q \<Rightarrow> (int \<times> 'q) option"
    and deq :: "'q \<Rightarrow> ('d \<times> 'q) option"
    and rep :: "'q \<Rightarrow> 'd list \<Rightarrow> bool"
    and fresh :: "'a \<Rightarrow> 'q \<Rightarrow> bool"
    and null :: 'a
    and none :: 'd
  assumes enq_fail: "enq null d q = Some (- ENOMEM, q)"
    and enq_ok: "rep q xs \<Longrightarrow> fresh a q \<Longrightarrow> a \<noteq> null \<Longrightarrow> \<exists>q'. enq a d q = Some (0, q') \<and> rep q' (xs @ [d])"
    and deq_empty: "rep q [] \<Longrightarrow> deq q = Some (none, q)"
    and deq_cons: "rep q (x # xs) \<Longrightarrow> \<exists>q'. deq q = Some (x, q') \<and> rep q' xs"
begin

lemma run_refines:
  assumes "rep q xs" and "allocs_ok enq deq fresh null ops q"
  shows "\<exists>q'. run_ops enq deq ops q = Some (fst (spec_ops null none ops xs), q') \<and>
              rep q' (snd (spec_ops null none ops xs))"
  using assms
proof (induction ops arbitrary: q xs)
  case Nil
  then show ?case by simp
next
  case (Cons op ops)
  show ?case
  proof (cases op)
    case (Enq a d)
    show ?thesis
    proof (cases "a = null")
      case True
      with Cons.prems Enq Cons.IH [of q xs] show ?thesis
        by (auto simp: enq_fail split: prod.splits)
    next
      case False
      with Cons.prems Enq obtain q1 where "enq a d q = Some (0, q1)" "rep q1 (xs @ [d])"
        using enq_ok by fastforce
      with Cons.prems Enq False Cons.IH [of q1 "xs @ [d]"] show ?thesis
        by (auto split: prod.splits)
    qed
  next
    case Deq
    show ?thesis
    proof (cases xs)
      case Nil
      with Cons.prems Deq Cons.IH [of q "[]"] show ?thesis
        by (auto simp: deq_empty split: prod.splits)
    next
      case (Cons x ys)
      with Cons.prems Deq obtain q1 where "deq q = Some (x, q1)" "rep q1 ys"
        using deq_cons by blast
      with Cons Cons.prems Deq Cons.IH [of q1 ys] show ?thesis
        by (auto split: prod.splits)
    qed
  qed
qed

text \<open>A client that only drains the queue gets its elements in the order they were put in.\<close>

lemma drain:
  assumes "rep q xs"
  shows "\<exists>q'. run_ops enq deq (replicate (length xs) Deq) q = Some (map DeqRes xs, q') \<and> rep q' []"
  using assms
proof (induction xs arbitrary: q)
  case Nil
  then show ?case by simp
next
  case (Cons x xs)
  obtain q1 where "deq q = Some (x, q1)" and "rep q1 xs" using deq_cons [OF Cons.prems] by blast
  with Cons.IH [of q1] show ?case by auto
qed

end

end
