(* ===== verification/Lfq_Seq.thy ===== *)
theory Lfq_Seq
  imports Lfq Fifo
begin

text \<open>
  The sequential correctness of \<open>lfq.c\<close>: a context that represents a list of data pointers, what
  every operation does to that list, and the interface \<open>fifo\<close> the adaptor uses the queues by.
\<close>

section \<open>Chains of nodes\<close>

text \<open>
  A cell is the address of a node, its data and its \<open>can_free\<close>.  \<open>seg h cs q\<close>: the store \<open>h\<close>
  holds the cells \<open>cs\<close>, each linked to the one after it and the last to \<open>q\<close>.
\<close>

type_synonym cell = "addr \<times> addr \<times> int"

fun first_addr :: "cell list \<Rightarrow> addr \<Rightarrow> addr" where
  "first_addr [] q = q"
| "first_addr ((a, _) # _) q = a"

fun seg :: "(addr \<rightharpoonup> lfq_node) \<Rightarrow> cell list \<Rightarrow> addr \<Rightarrow> bool" where
  "seg h [] q = True"
| "seg h ((a, d, c) # cs) q =
     (h a = Some \<lparr>n_data = d, n_next = first_addr cs q, n_can_free = c\<rparr> \<and> seg h cs q)"

abbreviation addrs :: "cell list \<Rightarrow> addr set" where
  "addrs cs \<equiv> fst ` set cs"

lemma first_addr_append [simp]: "first_addr (cs @ ds) q = first_addr cs (first_addr ds q)"
  by (cases cs) auto

lemma first_addr_hd: "cs \<noteq> [] \<Longrightarrow> first_addr cs q = fst (hd cs)"
  by (cases cs) auto

lemma seg_append [simp]: "seg h (cs @ ds) q \<longleftrightarrow> seg h cs (first_addr ds q) \<and> seg h ds q"
  by (induction cs) auto

lemma seg_cong: "(\<And>a. a \<in> addrs cs \<Longrightarrow> g a = h a) \<Longrightarrow> seg g cs q = seg h cs q"
  by (induction cs) auto

lemma seg_upd [simp]: "a \<notin> addrs cs \<Longrightarrow> seg (h(a := v)) cs q = seg h cs q"
  by (rule seg_cong) auto

lemma seg_dom: "seg h cs q \<Longrightarrow> addrs cs \<subseteq> dom h"
  by (induction cs) (fastforce simp: image_subset_iff)+

lemma seg_relink:
  assumes "seg h (cs @ [(a, d, c)]) q" and "a \<notin> addrs cs"
  shows "seg (h(a \<mapsto> \<lparr>n_data = d, n_next = r, n_can_free = c\<rparr>)) (cs @ [(a, d, c)]) r"
  using assms by simp

section \<open>Hazard pointers and thread ids\<close>

text \<open>No thread is inside a dequeue: every hazard pointer is \<open>NULL\<close>, every thread id is free.\<close>

definition quiet :: "lfq \<Rightarrow> bool" where
  "quiet s \<longleftrightarrow> is_freeing s = 0 \<and> 0 < MAXHPSIZE s \<and>
     (case HP s of None \<Rightarrow> False
      | Some hp \<Rightarrow> MAXHPSIZE s \<le> int (length hp) \<and> (\<forall>p \<in> set hp. p = NULL)) \<and>
     (case tid_map s of None \<Rightarrow> False
      | Some tm \<Rightarrow> MAXHPSIZE s \<le> int (length tm) \<and> (\<forall>t \<in> set tm. t = 0))"

lemma quietD:
  assumes "quiet s"
  obtains hp tm where "HP s = Some hp" "tid_map s = Some tm" "hp \<noteq> []" "tm \<noteq> []"
    "MAXHPSIZE s \<le> int (length hp)" "MAXHPSIZE s \<le> int (length tm)"
    "\<forall>p \<in> set hp. p = NULL" "\<forall>t \<in> set tm. t = 0" "is_freeing s = 0" "0 < MAXHPSIZE s"
  using assms unfolding quiet_def by (fastforce split: option.splits)

lemma inHP_from_eq:
  assumes "HP s = Some hp" and "MAXHPSIZE s \<le> int (length hp)" and "0 \<le> i"
  shows "inHP_from s p i = Some (\<exists>j. i \<le> int j \<and> int j < MAXHPSIZE s \<and> hp ! j = p)"
  using assms
proof (induction s p i rule: inHP_from.induct)
  case (1 s p i)
  show ?case
  proof (cases "i < MAXHPSIZE s")
    case False
    then show ?thesis by (subst inHP_from.simps) auto
  next
    case True
    with "1.prems" have rd: "read_HP s i = Some (hp ! nat i)"
      by (simp add: read_HP_def aread_def)
    show ?thesis
    proof (cases "hp ! nat i = p")
      case True
      with rd \<open>i < MAXHPSIZE s\<close> "1.prems" show ?thesis
        by (subst inHP_from.simps) (auto intro!: exI [of _ "nat i"])
    next
      case False
      have eq: "(\<exists>j. i + 1 \<le> int j \<and> int j < MAXHPSIZE s \<and> hp ! j = p) \<longleftrightarrow>
                (\<exists>j. i \<le> int j \<and> int j < MAXHPSIZE s \<and> hp ! j = p)"
        using False by (metis nat_int order_le_less zless_imp_add1_zle add1_zle_eq)
      from "1.IH" [OF \<open>i < MAXHPSIZE s\<close> rd False] "1.prems" rd False \<open>i < MAXHPSIZE s\<close>
      show ?thesis by (subst inHP_from.simps) (simp add: eq)
    qed
  qed
qed

lemma inHP_iff:
  assumes "HP s = Some hp" and "MAXHPSIZE s \<le> int (length hp)"
  shows "inHP s p = Some (p \<in> set (take (nat (MAXHPSIZE s)) hp))"
proof -
  have "set (take (nat (MAXHPSIZE s)) hp) = (!) hp ` {0..<nat (MAXHPSIZE s)}"
    using assms(2) by (simp add: nth_image nat_le_iff)
  then show ?thesis
    using inHP_from_eq [OF assms, of 0 p] by (force simp: inHP_def image_iff zless_nat_eq_int_zless)
qed

lemma inHP_quiet [simp]: "quiet s \<Longrightarrow> p \<noteq> NULL \<Longrightarrow> inHP s p = Some False"
  by (erule quietD) (auto simp: inHP_iff dest: in_set_takeD)

lemma quiet_cong:
  "HP s' = HP s \<Longrightarrow> tid_map s' = tid_map s \<Longrightarrow> is_freeing s' = is_freeing s \<Longrightarrow>
   MAXHPSIZE s' = MAXHPSIZE s \<Longrightarrow> quiet s' = quiet s"
  by (cases "HP s"; cases "tid_map s") (simp_all add: quiet_def)

lemma quiet_upd [simp]:
  "quiet (s\<lparr>head := a\<rparr>) = quiet s" "quiet (s\<lparr>tail := a\<rparr>) = quiet s"
  "quiet (s\<lparr>fph := a\<rparr>) = quiet s" "quiet (s\<lparr>fpt := a\<rparr>) = quiet s"
  "quiet (s\<lparr>nodes := h\<rparr>) = quiet s" "quiet (s\<lparr>count := n\<rparr>) = quiet s"
  by (rule quiet_cong; simp)+

text \<open>
  What the scans of \<open>HP\<close> need: no hazard pointer holds an address.  It ignores \<open>is_freeing\<close>,
  which is set while the pool is drained.
\<close>

definition no_hazard :: "lfq \<Rightarrow> bool" where
  "no_hazard s \<longleftrightarrow> (\<forall>p. p \<noteq> NULL \<longrightarrow> inHP s p = Some False)"

lemma inHP_cong:
  assumes "HP s' = HP s" and "MAXHPSIZE s' = MAXHPSIZE s"
  shows "inHP s' p = inHP s p"
proof -
  have rd: "read_HP s' = read_HP s"
    by (rule ext) (simp add: read_HP_def assms)
  have "inHP_from s' p i = inHP_from s p i" for i
  proof (induction "nat (MAXHPSIZE s - i)" arbitrary: i rule: less_induct)
    case less
    show ?case
    proof (cases "i < MAXHPSIZE s")
      case False
      then show ?thesis by (simp add: inHP_from.simps [of _ p i] assms)
    next
      case True
      with less have "inHP_from s' p (i + 1) = inHP_from s p (i + 1)" by simp
      with True show ?thesis
        by (cases "read_HP s i") (simp_all add: inHP_from.simps [of _ p i] assms rd)
    qed
  qed
  then show ?thesis by (simp add: inHP_def)
qed

lemma no_hazard_cong:
  "HP s' = HP s \<Longrightarrow> MAXHPSIZE s' = MAXHPSIZE s \<Longrightarrow> no_hazard s' = no_hazard s"
  by (simp add: no_hazard_def inHP_cong [of s' s])

lemma no_hazard_upd [simp]:
  "no_hazard (s\<lparr>head := a\<rparr>) = no_hazard s" "no_hazard (s\<lparr>tail := a\<rparr>) = no_hazard s"
  "no_hazard (s\<lparr>fph := a\<rparr>) = no_hazard s" "no_hazard (s\<lparr>fpt := a\<rparr>) = no_hazard s"
  "no_hazard (s\<lparr>nodes := h\<rparr>) = no_hazard s" "no_hazard (s\<lparr>tid_map := t\<rparr>) = no_hazard s"
  "no_hazard (s\<lparr>is_freeing := f\<rparr>) = no_hazard s"
  by (rule no_hazard_cong; simp)+

lemma quiet_no_hazard: "quiet s \<Longrightarrow> no_hazard s"
  by (simp add: no_hazard_def)

lemma no_hazardD: "no_hazard s \<Longrightarrow> p \<noteq> NULL \<Longrightarrow> inHP s p = Some False"
  by (simp add: no_hazard_def)

section \<open>Draining the free pool\<close>

text \<open>The store without the nodes of a set of cells.\<close>

definition without :: "(addr \<rightharpoonup> lfq_node) \<Rightarrow> addr set \<Rightarrow> (addr \<rightharpoonup> lfq_node)" where
  "without h A = (\<lambda>a. if a \<in> A then None else h a)"

lemma without_empty [simp]: "without h {} = h"
  by (simp add: without_def)

lemma without_upd_None: "without (h(a := None)) A = without h (insert a A)"
  by (auto simp: without_def fun_eq_iff)

lemma seg_without: "addrs cs \<inter> A = {} \<Longrightarrow> seg (without h A) cs q = seg h cs q"
  by (rule seg_cong) (auto simp: without_def)

lemma dom_without: "dom (without h A) = dom h - A"
  by (auto simp: without_def dom_def)

text \<open>
  The nodes at the front of a pool that a drain may free: those marked \<open>can_free\<close>, but never the
  last node of the pool.  A drain frees them all, or at most \<open>MAXFREE - i\<close> when its loop stands
  at \<open>i\<close> and is not asked to free everything.
\<close>

definition reclaimable :: "cell list \<Rightarrow> nat" where
  "reclaimable ps = min (length (takeWhile (\<lambda>c. snd (snd c) \<noteq> 0) ps)) (length ps - 1)"

definition drained :: "bool \<Rightarrow> int \<Rightarrow> nat \<Rightarrow> nat" where
  "drained freeall i m = (if freeall then m else min (nat (MAXFREE - i)) m)"

lemma reclaimable_less: "ps \<noteq> [] \<Longrightarrow> reclaimable ps < length ps"
  by (cases ps) (auto simp: reclaimable_def)

lemma drained_le: "drained b i m \<le> m"
  by (simp add: drained_def)

lemma reclaimable_Cons:
  "reclaimable (p # ps) = (if snd (snd p) = 0 \<or> ps = [] then 0 else Suc (reclaimable ps))"
  by (cases ps) (auto simp: reclaimable_def)

lemma free_pool_loop_eq:
  assumes "seg (nodes s) ps NULL" and "ps \<noteq> []" and "fph s = first_addr ps NULL"
    and "distinct (map fst ps)" and "NULL \<notin> addrs ps" and "no_hazard s"
  shows "free_pool_loop b i s =
           Some (s\<lparr>fph := fst (ps ! drained b i (reclaimable ps)),
                   nodes := without (nodes s) (addrs (take (drained b i (reclaimable ps)) ps))\<rparr>)"
  using assms
proof (induction ps arbitrary: s i)
  case Nil
  then show ?case by simp
next
  case (Cons p ps)
  obtain a d c where p: "p = (a, d, c)" by (cases p)
  show ?case
  proof (cases "ps = [] \<or> c = 0 \<or> \<not> (i < MAXFREE \<or> b)")
    case True
    with Cons.prems p have "drained b i (reclaimable (p # ps)) = 0"
      by (auto simp: drained_def reclaimable_Cons)
    with True Cons.prems p show ?thesis
      by (subst free_pool_loop.simps) (auto simp: load_def Let_def)
  next
    case False
    then obtain a' d' c' ps' where ps: "ps = (a', d', c') # ps'"
      by (cases ps) auto
    let ?s = "s\<lparr>fph := a', nodes := (nodes s)(a := None)\<rparr>"
    have step: "free_pool_loop b i s = free_pool_loop b (i + 1) ?s"
      using False Cons.prems p ps
      by (subst free_pool_loop.simps)
         (auto simp: load_def Let_def free_node_def no_hazardD)
    have "no_hazard ?s"
      using Cons.prems(6) by (simp add: no_hazard_cong [of ?s s])
    moreover have "seg ((nodes s)(a := None)) ps NULL" using Cons.prems p by simp
    ultimately have "free_pool_loop b (i + 1) ?s =
           Some (?s\<lparr>fph := fst (ps ! drained b (i + 1) (reclaimable ps)),
                   nodes := without (nodes ?s) (addrs (take (drained b (i + 1) (reclaimable ps)) ps))\<rparr>)"
      using Cons.prems(4,5) ps by (intro Cons.IH) (simp_all del: fun_upd_apply)
    moreover have "drained b i (reclaimable (p # ps)) = Suc (drained b (i + 1) (reclaimable ps))"
      using False ps p by (simp add: drained_def reclaimable_Cons) linarith
    ultimately show ?thesis
      using step p by (simp add: without_upd_None)
  qed
qed

lemma free_pool_eq:
  assumes "seg (nodes s) ps NULL" and "ps \<noteq> []" and "fph s = first_addr ps NULL"
    and "distinct (map fst ps)" and "NULL \<notin> addrs ps" and "no_hazard s" and "is_freeing s = 0"
    and "k = drained b 0 (reclaimable ps)"
  shows "free_pool b s =
           Some (s\<lparr>fph := fst (ps ! k), nodes := without (nodes s) (addrs (take k ps))\<rparr>)"
proof -
  have "no_hazard (s\<lparr>is_freeing := 1\<rparr>)"
    using assms(6) by (simp add: no_hazard_cong [of "s\<lparr>is_freeing := 1\<rparr>" s])
  then have "free_pool_loop b 0 (s\<lparr>is_freeing := 1\<rparr>) =
      Some (s\<lparr>is_freeing := 1, fph := fst (ps ! k), nodes := without (nodes s) (addrs (take k ps))\<rparr>)"
    using free_pool_loop_eq [of "s\<lparr>is_freeing := 1\<rparr>" ps b 0] assms by simp
  then show ?thesis
    using assms(7) by (cases s) (simp add: free_pool_def)
qed

text \<open>With the pool busy being freed by another thread, \<open>free_pool\<close> does nothing.\<close>

lemma free_pool_busy: "is_freeing s \<noteq> 0 \<Longrightarrow> free_pool b s = Some s"
  by (simp add: free_pool_def CAS_def)

section \<open>Reclaiming a node\<close>

lemma store_eq:
  "nodes s p = Some n \<Longrightarrow> store p f s = Some (s\<lparr>nodes := (nodes s)(p \<mapsto> f n)\<rparr>)"
  by (simp add: store_def)

text \<open>A retired node that no thread reads is freed at once, and the pool is drained.\<close>

lemma safe_free_now:
  assumes "nodes s p = Some n" and "n_can_free n \<noteq> 0" and "p \<noteq> NULL" and "p \<notin> addrs ps"
    and "seg (nodes s) ps NULL" and "ps \<noteq> []" and "fph s = first_addr ps NULL"
    and "distinct (map fst ps)" and "NULL \<notin> addrs ps" and "no_hazard s" and "is_freeing s = 0"
    and "k = drained False 0 (reclaimable ps)"
  shows "safe_free p s =
           Some (s\<lparr>fph := fst (ps ! k), nodes := without (nodes s) (insert p (addrs (take k ps)))\<rparr>)"
proof -
  let ?s = "s\<lparr>nodes := (nodes s)(p := None)\<rparr>"
  have "no_hazard ?s" using assms(10) by (simp add: no_hazard_cong [of ?s s])
  then have "free_pool False ?s =
      Some (?s\<lparr>fph := fst (ps ! k), nodes := without (nodes ?s) (addrs (take k ps))\<rparr>)"
    using assms by (intro free_pool_eq) (simp_all del: fun_upd_apply)
  moreover have "safe_free p s = free_pool False ?s"
    using assms by (cases s) (simp add: safe_free_def load_def store_eq free_node_def no_hazardD)
  ultimately show ?thesis by (simp add: without_upd_None)
qed

text \<open>A node that is not yet \<open>can_free\<close> goes to the end of the pool.\<close>

lemma enpool_eq:
  assumes "nodes s p = Some \<lparr>n_data = d, n_next = q, n_can_free = c\<rparr>"
    and "nodes s t = Some \<lparr>n_data = d', n_next = q', n_can_free = c'\<rparr>"
    and "fpt s = t" and "t \<noteq> p"
  shows "enpool p s =
    Some (s\<lparr>fpt := p, nodes := (nodes s)(p \<mapsto> \<lparr>n_data = d, n_next = NULL, n_can_free = c\<rparr>,
                                        t \<mapsto> \<lparr>n_data = d', n_next = p, n_can_free = c'\<rparr>)\<rparr>)"
  using assms by (simp add: enpool_def store_eq)

section \<open>The pool as an invariant\<close>

definition pool_ok :: "lfq \<Rightarrow> cell list \<Rightarrow> bool" where
  "pool_ok s ps \<longleftrightarrow> seg (nodes s) ps NULL \<and> ps \<noteq> [] \<and> fph s = first_addr ps NULL \<and>
     fpt s = fst (last ps) \<and> distinct (map fst ps) \<and> NULL \<notin> addrs ps \<and> no_hazard s \<and>
     is_freeing s = 0"

lemma pool_ok_frame:
  assumes "pool_ok s ps" and "\<And>a. a \<in> addrs ps \<Longrightarrow> nodes s' a = nodes s a"
    and "fph s' = fph s" and "fpt s' = fpt s" and "HP s' = HP s" and "MAXHPSIZE s' = MAXHPSIZE s"
    and "is_freeing s' = is_freeing s"
  shows "pool_ok s' ps"
  using assms seg_cong [of ps "nodes s'" "nodes s" NULL] no_hazard_cong [of s' s]
  by (simp add: pool_ok_def)

lemma pool_ok_ends:
  assumes "pool_ok s ps"
  shows "fph s \<in> addrs ps" "fpt s \<in> addrs ps" "fph s \<noteq> NULL" "fpt s \<noteq> NULL"
proof -
  show h: "fph s \<in> addrs ps" "fpt s \<in> addrs ps"
    using assms by (simp_all add: pool_ok_def first_addr_hd)
  have "NULL \<notin> addrs ps" using assms by (simp add: pool_ok_def)
  then show "fph s \<noteq> NULL" "fpt s \<noteq> NULL" using h by (metis, metis)
qed

lemma addrs_take_disjoint_drop:
  "distinct (map fst ps) \<Longrightarrow> addrs (drop k ps) \<inter> addrs (take k ps) = {}"
  by (metis append_take_drop_id distinct_append inf_commute list.set_map map_append)

lemma pool_ok_drain:
  assumes "pool_ok s ps" and "k < length ps"
  shows "pool_ok (s\<lparr>fph := fst (ps ! k), nodes := without (nodes s) (addrs (take k ps))\<rparr>) (drop k ps)"
    (is "pool_ok ?s _")
proof -
  have "seg (nodes s) (take k ps @ drop k ps) NULL"
    using assms(1) by (simp add: pool_ok_def)
  then have "seg (nodes s) (drop k ps) NULL" unfolding seg_append by simp
  moreover have "addrs (drop k ps) \<inter> addrs (take k ps) = {}"
    using assms by (simp add: addrs_take_disjoint_drop pool_ok_def)
  ultimately have "seg (nodes ?s) (drop k ps) NULL" by (simp add: seg_without)
  then show ?thesis
    using assms no_hazard_cong [of ?s s]
    by (auto simp: pool_ok_def first_addr_hd hd_drop_conv_nth drop_map [symmetric]
             dest: in_set_dropD)
qed

lemma reclaimable_drop_0:
  "reclaimable ps \<le> length ps"
  by (simp add: reclaimable_def)

lemma free_pool_ok:
  assumes "pool_ok s ps" and "k = drained b 0 (reclaimable ps)"
  shows "free_pool b s =
           Some (s\<lparr>fph := fst (ps ! k), nodes := without (nodes s) (addrs (take k ps))\<rparr>)"
  using assms by (intro free_pool_eq) (simp_all add: pool_ok_def)

lemma drained_less: "ps \<noteq> [] \<Longrightarrow> drained b i (reclaimable ps) < length ps"
  using drained_le [of b i "reclaimable ps"] reclaimable_less [of ps] by linarith

lemma free_pool_pool_ok:
  assumes "pool_ok s ps" and "k = drained b 0 (reclaimable ps)" and "free_pool b s = Some s'"
  shows "pool_ok s' (drop k ps)"
  using assms pool_ok_drain [of s ps k] drained_less [of ps b 0] free_pool_ok [OF assms(1,2)]
  by (simp add: pool_ok_def)

text \<open>What \<open>safe_free\<close> does with a node that cannot be freed yet.\<close>

lemma safe_free_later:
  assumes "pool_ok s ps" and "nodes s p = Some \<lparr>n_data = d, n_next = q, n_can_free = 0\<rparr>"
    and "p \<noteq> NULL" and "p \<notin> addrs ps"
    and "ps' = ps @ [(p, d, 0)]" and "k = drained False 0 (reclaimable ps')"
  obtains s' where "safe_free p s = Some s'" and "pool_ok s' (drop k ps')"
    and "head s' = head s" and "tail s' = tail s"
    and "HP s' = HP s" and "tid_map s' = tid_map s" and "MAXHPSIZE s' = MAXHPSIZE s"
    and "\<forall>a. a \<notin> addrs ps' \<longrightarrow> nodes s' a = nodes s a"
    and "dom (nodes s') = dom (nodes s) - addrs (take k ps')"
proof -
  obtain cs t td tc where ps: "ps = cs @ [(t, td, tc)]"
    using assms(1) by (cases ps rule: rev_cases) (auto simp: pool_ok_def)
  let ?h = "(nodes s)(p \<mapsto> \<lparr>n_data = d, n_next = NULL, n_can_free = 0\<rparr>,
                       t \<mapsto> \<lparr>n_data = td, n_next = p, n_can_free = tc\<rparr>)"
  let ?s = "s\<lparr>fpt := p, nodes := ?h\<rparr>"
  have t: "fpt s = t" "nodes s t = Some \<lparr>n_data = td, n_next = NULL, n_can_free = tc\<rparr>" "t \<noteq> p"
    using assms(1,4) ps by (auto simp: pool_ok_def)
  have enp: "enpool p s = Some ?s"
    by (rule enpool_eq [OF assms(2) t(2,1,3)])
  have "seg ?h ps' NULL"
    using assms(1,4,5) ps t t(3) [symmetric]
    by (auto simp: pool_ok_def fun_upd_other fun_upd_same simp del: fun_upd_apply)
  then have ok: "pool_ok ?s ps'"
    using assms(1,3-5) no_hazard_cong [of ?s s] ps by (auto simp: pool_ok_def simp del: fun_upd_apply)
  have sf: "safe_free p s = free_pool False ?s"
    using assms(2) enp by (simp add: safe_free_def load_def)
  note fp = free_pool_ok [OF ok assms(6)]
  show ?thesis
  proof (rule that)
    show "safe_free p s = Some (?s\<lparr>fph := fst (ps' ! k), nodes := without ?h (addrs (take k ps'))\<rparr>)"
      using sf fp by simp
    show "pool_ok (?s\<lparr>fph := fst (ps' ! k), nodes := without ?h (addrs (take k ps'))\<rparr>) (drop k ps')"
      using free_pool_pool_ok [OF ok assms(6) fp] by simp
    show "dom (nodes (?s\<lparr>fph := fst (ps' ! k), nodes := without ?h (addrs (take k ps'))\<rparr>)) =
            dom (nodes s) - addrs (take k ps')"
      using assms(2) t by (auto simp add: dom_without)
    show "\<forall>a. a \<notin> addrs ps' \<longrightarrow>
        nodes (?s\<lparr>fph := fst (ps' ! k), nodes := without ?h (addrs (take k ps'))\<rparr>) a = nodes s a"
      using assms(5) ps by (auto simp: without_def dest: in_set_takeD)
  qed simp_all
qed

section \<open>The queue's representation invariant\<close>

text \<open>
  The main list is a dummy \<open>z\<close>, already read and so \<open>can_free\<close>, followed by the unread nodes
  \<open>ns\<close>; the pool holds retired nodes \<open>ps\<close>.  The store holds exactly these nodes: none is lost
  and none is reachable twice.
\<close>

definition queue_cells :: "addr \<times> addr \<Rightarrow> (addr \<times> addr) list \<Rightarrow> cell list" where
  "queue_cells z ns = (fst z, snd z, 1) # map (\<lambda>(a, d). (a, d, 0)) ns"

definition pool_cells :: "(addr \<times> addr) list \<Rightarrow> cell list" where
  "pool_cells ps = map (\<lambda>(a, d). (a, d, 1)) ps"

definition lfq_shape ::
  "lfq \<Rightarrow> addr \<times> addr \<Rightarrow> (addr \<times> addr) list \<Rightarrow> (addr \<times> addr) list \<Rightarrow> bool" where
  "lfq_shape s z ns ps \<longleftrightarrow>
     head s = fst z \<and> tail s = fst (last (z # ns)) \<and>
     seg (nodes s) (queue_cells z ns) NULL \<and> pool_ok s (pool_cells ps) \<and>
     distinct (map fst (z # ns @ ps)) \<and> NULL \<notin> fst ` set (z # ns @ ps) \<and>
     dom (nodes s) = fst ` set (z # ns @ ps) \<and> quiet s"

definition lfq_rep :: "lfq \<Rightarrow> addr list \<Rightarrow> bool" where
  "lfq_rep s xs \<longleftrightarrow> (\<exists>z ns ps. lfq_shape s z ns ps \<and> xs = map snd ns)"

lemma lfq_shapeD:
  assumes "lfq_shape s z ns ps"
  shows lfq_shape_head: "head s = fst z" and lfq_shape_tail: "tail s = fst (last (z # ns))"
    and lfq_shape_seg: "seg (nodes s) (queue_cells z ns) NULL"
    and lfq_shape_pool: "pool_ok s (pool_cells ps)"
    and lfq_shape_distinct: "distinct (map fst (z # ns @ ps))"
    and lfq_shape_nonnull: "NULL \<notin> fst ` set (z # ns @ ps)"
    and lfq_shape_dom: "dom (nodes s) = fst ` set (z # ns @ ps)"
    and lfq_shape_quiet: "quiet s"
  using assms by (simp_all add: lfq_shape_def)

lemma lfq_shape_disjoint:
  "lfq_shape s z ns ps \<Longrightarrow> fst ` set (z # ns) \<inter> fst ` set ps = {}"
  by (drule lfq_shape_distinct) auto

lemma addrs_cells [simp]:
  "addrs (queue_cells z ns) = fst ` set (z # ns)" "addrs (pool_cells ps) = fst ` set ps"
  by (force simp: queue_cells_def pool_cells_def image_image)+

lemma queue_cells_snoc [simp]:
  "queue_cells z (ns @ [(a, d)]) = queue_cells z ns @ [(a, d, 0)]"
  by (simp add: queue_cells_def)

lemma pool_cells_simps [simp]:
  "length (pool_cells ps) = length ps" "pool_cells ps = [] \<longleftrightarrow> ps = []"
  "drop k (pool_cells ps) = pool_cells (drop k ps)"
  "take k (pool_cells ps) = pool_cells (take k ps)"
  "map fst (pool_cells ps) = map fst ps"
  by (auto simp: pool_cells_def drop_map take_map)

lemma nth_pool_cells [simp]:
  "k < length ps \<Longrightarrow> pool_cells ps ! k = (fst (ps ! k), snd (ps ! k), 1)"
  by (simp add: pool_cells_def split_beta)

lemma reclaimable_pool: "reclaimable (pool_cells ps) = length ps - 1"
proof -
  have tw: "takeWhile (\<lambda>c. snd (snd c) \<noteq> 0) (pool_cells ps) = pool_cells ps"
    by (auto simp: takeWhile_eq_all_conv pool_cells_def)
  show ?thesis unfolding reclaimable_def tw by simp
qed

lemma map_fst_queue_cells [simp]: "map fst (queue_cells z ns) = fst z # map fst ns"
  by (simp add: queue_cells_def comp_def split_beta)

lemma queue_cells_last:
  obtains cs d c where "queue_cells z ns = cs @ [(fst (last (z # ns)), d, c)]"
    and "addrs cs \<subseteq> fst ` set (z # ns)"
proof (cases ns rule: rev_cases)
  case Nil
  then show ?thesis using that [of "[]" "snd z" 1] by (simp add: queue_cells_def)
next
  case (snoc ys y)
  then show ?thesis using that [of "queue_cells z ys" "snd y" 0]
    by (cases y) auto
qed

text \<open>Enqueue: the new node is linked behind the old tail.\<close>

lemma lfq_enqueue_shape:
  assumes sh: "lfq_shape s z ns ps" and a: "a \<noteq> NULL" "nodes s a = None"
  obtains s' where "lfq_enqueue a d s = Some (0, s')" and "lfq_shape s' z (ns @ [(a, d)]) ps"
proof -
  let ?t = "tail s"
  note tl = lfq_shape_tail [OF sh]
  obtain cs td tc where q: "queue_cells z ns = cs @ [(?t, td, tc)]"
    unfolding tl by (rule queue_cells_last)
  let ?h = "(nodes s)(a \<mapsto> \<lparr>n_data = d, n_next = NULL, n_can_free = 0\<rparr>,
                       ?t \<mapsto> \<lparr>n_data = td, n_next = a, n_can_free = tc\<rparr>)"
  let ?s = "s\<lparr>tail := a, nodes := ?h\<rparr>"
  have dm: "dom (nodes s) = fst ` set (z # ns @ ps)" using sh by (simp add: lfq_shape_def)
  have new: "a \<notin> fst ` set (z # ns @ ps)" unfolding dm [symmetric] by (simp add: a domIff)
  have qa: "a \<notin> addrs (queue_cells z ns)" using new by (simp add: image_Un)
  have sq: "seg (nodes s) (cs @ [(?t, td, tc)]) NULL" 
    using lfq_shape_seg [OF sh] unfolding q .
  have t: "nodes s ?t = Some \<lparr>n_data = td, n_next = NULL, n_can_free = tc\<rparr>" "?t \<noteq> a"
    using sq a(2) by auto
  have "distinct (map fst (queue_cells z ns))" using sh by (simp add: lfq_shape_def)
  then have cs: "?t \<notin> addrs cs" using q by simp
  have tp: "?t \<in> fst ` set (z # ns)" unfolding tl by (metis image_eqI last_in_set list.distinct(1))
  then have tnp: "?t \<notin> fst ` set ps" using lfq_shape_disjoint [OF sh] by blast
  have "seg ((nodes s)(a \<mapsto> \<lparr>n_data = d, n_next = NULL, n_can_free = 0\<rparr>)) (cs @ [(?t, td, tc)]) NULL"
    using sq qa q by (subst seg_upd) simp_all
  then have "seg ?h (queue_cells z ns) a" unfolding q by (rule seg_relink) (rule cs)
  then have "seg ?h (queue_cells z (ns @ [(a, d)])) NULL" using t(2) by simp
  moreover have "pool_ok ?s (pool_cells ps)"
  proof (rule pool_ok_frame [OF lfq_shape_pool [OF sh]])
    fix x
    assume "x \<in> addrs (pool_cells ps)"
    then have x: "x \<in> fst ` set ps" by simp
    have "a \<notin> fst ` set ps" using new by (simp add: image_Un)
    with x tnp have "x \<noteq> a" and "x \<noteq> ?t" by blast+
    then show "nodes ?s x = nodes s x" by simp
  qed simp_all
  moreover have "dom ?h = insert a (dom (nodes s))" using t by auto
  moreover have "quiet ?s" using lfq_shape_quiet [OF sh] by simp
  ultimately have "lfq_shape ?s z (ns @ [(a, d)]) ps"
    using sh new a(1) by (simp add: lfq_shape_def) blast
  moreover have "lfq_enqueue a d s = Some (0, ?s)"
    using a t by (simp add: lfq_enqueue_def calloc_node_def zero_node_def store_eq)
  ultimately show ?thesis by (rule that [rotated])
qed

text \<open>Dequeue runs as thread 0, the first free id; between calls all hazard pointers are clear.\<close>

lemma quiet_arrays:
  assumes "quiet s"
  obtains hp tm where "HP s = Some (NULL # hp)" and "tid_map s = Some (0 # tm)"
    and "\<forall>p \<in> set hp. p = NULL" and "0 < MAXHPSIZE s" and "is_freeing s = 0"
  using assms
proof (rule quietD)
  fix hp tm
  assume "HP s = Some hp" "tid_map s = Some tm" "hp \<noteq> []" "tm \<noteq> []"
    "\<forall>p \<in> set hp. p = NULL" "\<forall>t \<in> set tm. t = 0" "0 < MAXHPSIZE s" "is_freeing s = 0"
  then show thesis using that [of "tl hp" "tl tm"] by (cases hp; cases tm) auto
qed

lemma alloc_tid_quiet:
  "tid_map s = Some (0 # tm) \<Longrightarrow> 0 < MAXHPSIZE s \<Longrightarrow>
   alloc_tid s = Some (0, s\<lparr>tid_map := Some (1 # tm)\<rparr>)"
  by (simp add: alloc_tid_def alloc_tid_from.simps [of s 0] read_tid_map_def write_tid_map_def
        aread_def awrite_def)

lemma lfq_dequeue_empty:
  assumes "lfq_shape s z [] ps"
  shows "lfq_dequeue s = Some (NULL, s)"
proof -
  have "quiet s" using assms by (simp add: lfq_shape_def)
  then obtain hp tm where a: "HP s = Some (NULL # hp)" "tid_map s = Some (0 # tm)" "0 < MAXHPSIZE s"
    by (rule quiet_arrays)
  have n: "nodes s (head s) = Some \<lparr>n_data = snd z, n_next = NULL, n_can_free = 1\<rparr>"
    using assms by (simp add: lfq_shape_def queue_cells_def)
  let ?s = "s\<lparr>tid_map := Some (1 # tm)\<rparr>"
  have "dequeue_loop 0 ?s = Some (None, ?s\<lparr>HP := Some (NULL # hp)\<rparr>)"
    using n a by (subst dequeue_loop.simps) (simp add: write_HP_def awrite_def load_def)
  then show ?thesis
    using a by (cases s) (simp add: lfq_dequeue_def alloc_tid_quiet lfq_dequeue_tid_def free_tid_def
        write_tid_map_def awrite_def)
qed

text \<open>The state a dequeue leaves: the head moved on, the dummy and \<open>k\<close> pool nodes freed.\<close>

lemma disjoint_insert_sub:
  "b \<notin> P \<Longrightarrow> z \<notin> insert b N \<Longrightarrow> N \<inter> P = {} \<Longrightarrow> T \<subseteq> P \<Longrightarrow> insert b N \<inter> insert z T = {}"
  by blast

lemma diff_insert_sub:
  "z \<notin> D \<Longrightarrow> D \<inter> T = {} \<Longrightarrow> insert b N \<inter> insert z T = {} \<Longrightarrow>
   insert z (insert b (N \<union> (T \<union> D))) - insert z T = insert b (N \<union> D)"
  by blast

lemma distinct_append_drop: "distinct (xs @ ys) \<Longrightarrow> distinct (xs @ drop k ys)"
  by (auto dest: in_set_dropD)

lemma dequeued_shape:
  fixes tm :: "int list option"
  assumes sh: "lfq_shape s z ((b, d) # ns) ps"
    and pok: "pool_ok (s\<lparr>head := b, nodes := h, tid_map := tm\<rparr>) (pool_cells ps)"
    and kl: "k < length ps"
    and h: "h = (nodes s)(b \<mapsto> \<lparr>n_data = d, n_next = first_addr (map (\<lambda>(a, d). (a, d, 0)) ns) NULL,
                              n_can_free = 1\<rparr>)"
  shows "lfq_shape (s\<lparr>head := b, fph := fst (ps ! k),
                      nodes := without h (insert (fst z) (fst ` set (take k ps)))\<rparr>) (b, d) ns (drop k ps)"
    (is "lfq_shape ?s _ _ _")
proof -
  have disj: "fst ` set ((b, d) # ns) \<inter> insert (fst z) (fst ` set (take k ps)) = {}"
  proof -
    have "b \<notin> fst ` set ps" and "fst z \<notin> insert b (fst ` set ns)" and
      "fst ` set ns \<inter> fst ` set ps = {}"
      using lfq_shape_distinct [OF sh] by simp_all
    moreover have "fst ` set (take k ps) \<subseteq> fst ` set ps" by (rule image_mono) (rule set_take_subset)
    ultimately show ?thesis by (simp only: list.set image_insert fst_conv) (rule disjoint_insert_sub)
  qed
  have "seg (nodes s) (map (\<lambda>(a, d). (a, d, 0)) ns) NULL"
    using lfq_shape_seg [OF sh] by (simp add: queue_cells_def)
  moreover have "b \<notin> addrs (map (\<lambda>(a, d). (a, d, 0)) ns)"
    using lfq_shape_distinct [OF sh] by force
  ultimately have "seg h (queue_cells (b, d) ns) NULL"
    by (simp add: queue_cells_def h del: fun_upd_apply) (simp add: fun_upd_same)
  then have seg: "seg (nodes ?s) (queue_cells (b, d) ns) NULL"
    using disj by (simp add: seg_without)
  have zd: "fst z \<notin> fst ` set (drop k ps)"
    using lfq_shape_distinct [OF sh] image_mono [OF set_drop_subset [of k ps], of fst] by auto
  have "pool_ok (s\<lparr>head := b, tid_map := tm, fph := fst (ps ! k), nodes := without h (fst ` set (take k ps))\<rparr>)
          (pool_cells (drop k ps))"
    using pool_ok_drain [OF pok, of k] kl by simp
  then have pool: "pool_ok ?s (pool_cells (drop k ps))"
  proof (rule pool_ok_frame)
    fix x
    assume "x \<in> addrs (pool_cells (drop k ps))"
    then have "x \<in> fst ` set (drop k ps)" by simp
    with zd have "x \<noteq> fst z" by blast
    then show "nodes ?s x = nodes (s\<lparr>head := b, tid_map := tm, fph := fst (ps ! k),
        nodes := without h (fst ` set (take k ps))\<rparr>) x" by (simp add: without_def)
  qed simp_all
  have "dom h = dom (nodes s)" using lfq_shape_dom [OF sh] h by auto
  then have "dom (nodes ?s) = fst ` set (z # ((b, d) # ns) @ ps) - insert (fst z) (fst ` set (take k ps))"
    using lfq_shape_dom [OF sh] by (simp add: dom_without)
  also have "\<dots> = insert b (fst ` set ns \<union> fst ` set (drop k ps))"
  proof -
    have "fst ` set (z # ((b, d) # ns) @ ps) =
        insert (fst z) (insert b (fst ` set ns \<union> (fst ` set (take k ps) \<union> fst ` set (drop k ps))))"
      by (subst (1) append_take_drop_id [symmetric, of ps k]) (simp only: set_append image_Un list.set
          image_insert fst_conv append_Cons Un_insert_left)
    moreover note zd
    moreover have "fst ` set (drop k ps) \<inter> fst ` set (take k ps) = {}"
      using lfq_shape_distinct [OF sh] addrs_take_disjoint_drop [of "pool_cells ps" k] by simp
    ultimately show ?thesis using disj by (simp only: list.set image_insert fst_conv) (rule diff_insert_sub)
  qed
  finally have dom: "dom (nodes ?s) = fst ` set ((b, d) # ns @ drop k ps)"
    by (simp add: image_Un)
  have "quiet ?s" using lfq_shape_quiet [OF sh] by simp
  moreover have "distinct (map fst ((b, d) # ns @ drop k ps))"
    using lfq_shape_distinct [OF sh] distinct_append_drop [of "b # map fst ns" "map fst ps" k]
    by (simp add: drop_map)
  moreover have "NULL \<notin> fst ` set ((b, d) # ns @ drop k ps)"
    using lfq_shape_nonnull [OF sh] image_mono [OF set_drop_subset [of k ps], of fst]
    by (auto simp: image_Un)
  ultimately show ?thesis
    using seg pool dom lfq_shape_tail [OF sh] unfolding lfq_shape_def by simp
qed

lemma lfq_dequeue_shape:
  assumes sh: "lfq_shape s z ((b, d) # ns) ps" and k: "k = min (nat MAXFREE) (length ps - 1)"
  obtains s' where "lfq_dequeue s = Some (d, s')" and "lfq_shape s' (b, d) ns (drop k ps)"
proof -
  have "quiet s" using sh by (simp add: lfq_shape_def)
  then obtain hp tm where a: "HP s = Some (NULL # hp)" "tid_map s = Some (0 # tm)" "0 < MAXHPSIZE s"
    by (rule quiet_arrays)
  have z: "nodes s (fst z) = Some \<lparr>n_data = snd z, n_next = b, n_can_free = 1\<rparr>"
    and b: "nodes s b = Some \<lparr>n_data = d, n_next = first_addr (map (\<lambda>(a, d). (a, d, 0)) ns) NULL, n_can_free = 0\<rparr>"
    and hd: "head s = fst z" and b0: "b \<noteq> NULL" "b \<noteq> fst z" "fst z \<noteq> NULL"
    using sh by (auto simp: lfq_shape_def queue_cells_def)
  let ?h = "(nodes s)(b \<mapsto> \<lparr>n_data = d, n_next = first_addr (map (\<lambda>(a, d). (a, d, 0)) ns) NULL, n_can_free = 1\<rparr>)"
  let ?t = "s\<lparr>head := b, nodes := ?h, tid_map := Some (1 # tm)\<rparr>"
  let ?h' = "without ?h (insert (fst z) (fst ` set (take k ps)))"
  let ?s = "s\<lparr>head := b, fph := fst (ps ! k), nodes := ?h'\<rparr>"
  have ps: "b \<notin> fst ` set ps" "fst z \<notin> fst ` set ps"
    using lfq_shape_disjoint [OF sh] by auto
  have pok: "pool_ok ?t (pool_cells ps)"
    using lfq_shape_pool [OF sh] ps by (intro pool_ok_frame [of s "pool_cells ps" ?t]) auto
  have k': "k = drained False 0 (reclaimable (pool_cells ps))"
    using k by (simp add: drained_def reclaimable_pool)
  have kl: "k < length ps"
    using pok k drained_less [of "pool_cells ps" False 0] by (simp add: pool_ok_def k')
  have "no_hazard ?t" using pok by (simp add: pool_ok_def)
  have loop: "dequeue_loop 0 (s\<lparr>tid_map := Some (1 # tm)\<rparr>) =
      Some (Some (fst z, b), s\<lparr>head := b, HP := Some (fst z # hp), tid_map := Some (1 # tm)\<rparr>)"
    using z a hd b0 by (subst dequeue_loop.simps) (simp add: write_HP_def awrite_def load_def Let_def)
  have pk: "pool_cells ps ! k = (fst (ps ! k), snd (ps ! k), 1)"
    using kl by (simp add: pool_cells_def split_beta)
  have "safe_free (fst z) ?t =
      Some (?t\<lparr>fph := fst (pool_cells ps ! k),
               nodes := without (nodes ?t) (insert (fst z) (addrs (take k (pool_cells ps))))\<rparr>)"
    using pok ps z b0 k' by (intro safe_free_now) (auto simp: pool_ok_def)
  then have sf: "safe_free (fst z) ?t = Some (?t\<lparr>fph := fst (ps ! k), nodes := ?h'\<rparr>)"
    by (simp add: pk)
  have "lfq_dequeue s = Some (d, ?s)"
    using a loop b sf
    by (cases s) (simp add: lfq_dequeue_def alloc_tid_quiet lfq_dequeue_tid_def write_HP_def
        awrite_def load_def store_eq free_tid_def write_tid_map_def)
  moreover have "lfq_shape ?s (b, d) ns (drop k ps)"
    by (rule dequeued_shape [OF sh pok kl]) (rule refl)
  ultimately show ?thesis by (rule that)
qed


section \<open>Initialisation, the free list's length, the spinning dequeue\<close>

lemma lfq_init_shape:
  assumes "nodes s = Map.empty" and "a1 \<noteq> NULL" and "a2 \<noteq> NULL" and "a1 \<noteq> a2" and "0 < n"
  obtains s' where "lfq_init a1 a2 True True n s = Some (0, s')"
    and "lfq_shape s' (a1, NULL) [] [(a2, NULL)]" and "MAXHPSIZE s' = n"
proof -
  let ?n = "\<lparr>n_data = NULL, n_next = NULL, n_can_free = 1\<rparr>"
  let ?s = "\<lparr>head = a1, count = 0, HP = Some (replicate (nat n * 3) NULL),
              tid_map = Some (replicate (nat n * 6) 0), is_freeing = 0, fph = a2, fpt = a2,
              MAXHPSIZE = n, tail = a1, nodes = [a1 \<mapsto> ?n, a2 \<mapsto> ?n]\<rparr>"
  have div: "nat n * 24 div 8 = nat n * 3" "nat n * 24 div 4 = nat n * 6" by simp_all
  have "lfq_init a1 a2 True True n s = Some (0, ?s)"
    using assms
    by (cases s) (simp add: lfq_init_def calloc_node_def store_def zero_node_def zero_ctx_def Let_def
        calloc_array_def sizeof_lfq_node_def sizeof_ptr_def sizeof_int_def div fun_upd_twist)
  moreover have m: "MAXHPSIZE ?s = n" by simp
  moreover have q: "quiet ?s" using assms(5) by (simp add: quiet_def)
  moreover have "lfq_shape ?s (a1, NULL) [] [(a2, NULL)]"
    using assms q quiet_no_hazard [OF q]
    by (auto simp: lfq_shape_def queue_cells_def pool_cells_def pool_ok_def)
  ultimately show ?thesis by (intro that [of ?s])
qed

lemma count_freelist_loop_eq:
  "seg (nodes s) ps NULL \<Longrightarrow> NULL \<notin> addrs ps \<Longrightarrow>
   count_freelist_loop (first_addr ps NULL) c s = Some (c + int (length ps))"
proof (induction ps arbitrary: c)
  case Nil
  then show ?case by (simp add: count_freelist_loop.simps)
next
  case (Cons p ps)
  obtain a d f where p: "p = (a, d, f)" by (cases p)
  have "count_freelist_loop (first_addr ps NULL) (c + 1) s = Some (c + 1 + int (length ps))"
    using Cons.prems p by (intro Cons.IH) simp_all
  then show ?case
    using Cons.prems p by (subst count_freelist_loop.simps) (simp add: load_def)
qed

lemma lfg_count_freelist_eq: "pool_ok s ps \<Longrightarrow> lfg_count_freelist s = Some (int (length ps))"
  by (simp add: lfg_count_freelist_def pool_ok_def count_freelist_loop_eq)

lemma LFQ_MB_DEQUEUE_returns_nonempty:
  assumes ret: "LFQ_MB_DEQUEUE s = Some r"
  shows "\<not> lfq_shape s z [] ps"
proof (rule LFQ_MB_DEQUEUE.raw_induct [where P = "\<lambda>s r. \<not> lfq_shape s z [] ps", OF _ ret])
  fix f s r
  assume IH: "\<And>s r. f s = Some r \<Longrightarrow> \<not> lfq_shape s z [] ps"
    and eq: "lfq_dequeue s \<bind> (\<lambda>(ret, s). if ret = NULL then f s else Some (ret, s)) = Some r"
  show "\<not> lfq_shape s z [] ps"
  proof
    assume sh: "lfq_shape s z [] ps"
    with eq have "f s = Some r" by (simp add: lfq_dequeue_empty)
    with IH sh show False by blast
  qed
qed

section \<open>Cleaning up\<close>

lemma diff_insert_sub2:
  "D \<inter> T = {} \<Longrightarrow> N \<inter> (T \<union> D) = {} \<Longrightarrow> z \<notin> D \<Longrightarrow> z \<notin> N \<Longrightarrow>
   N \<union> (T \<union> D) - insert z T = N \<union> D"
  by blast

lemma diff_sub: "D \<inter> T = {} \<Longrightarrow> N \<inter> T = {} \<Longrightarrow> N \<union> (T \<union> D) - T = N \<union> D"
  by blast

lemma disjoint_sub: "N \<inter> B = {} \<Longrightarrow> T \<subseteq> B \<Longrightarrow> N \<inter> T = {}"
  by blast

lemma image_take_drop: "f ` set xs = f ` set (take k xs) \<union> f ` set (drop k xs)"
  by (metis append_take_drop_id image_Un set_append)

definition unread_cells :: "(addr \<times> addr) list \<Rightarrow> cell list" where
  "unread_cells ns = map (\<lambda>(a, d). (a, d, 0)) ns"

lemma unread_cells_simps [simp]:
  "unread_cells [] = []" "unread_cells ((a, d) # ns) = (a, d, 0) # unread_cells ns"
  "length (unread_cells ns) = length ns" "map fst (unread_cells ns) = map fst ns"
  "unread_cells ns = [] \<longleftrightarrow> ns = []"
  by (auto simp: unread_cells_def)

lemma addrs_unread [simp]: "addrs (unread_cells ns) = fst ` set ns"
  by (force simp: unread_cells_def image_image)

abbreviation freeable :: "cell list \<Rightarrow> bool" where
  "freeable cs \<equiv> \<forall>c \<in> set cs. snd (snd c) \<noteq> 0"

abbreviation unread :: "cell list \<Rightarrow> bool" where
  "unread cs \<equiv> \<forall>c \<in> set cs. snd (snd c) = 0"

lemma freeable_pool_cells: "freeable (pool_cells ps)"
  by (auto simp: pool_cells_def)

lemma unread_unread_cells: "unread (unread_cells ns)"
  by (auto simp: unread_cells_def)

lemma reclaimable_mixed:
  assumes "freeable as" and "unread bs"
  shows "reclaimable (as @ bs) = (if bs = [] then length as - 1 else length as)"
proof -
  have tw: "takeWhile (\<lambda>c. snd (snd c) \<noteq> 0) (as @ bs) = as"
    using assms by (cases bs) (simp_all add: takeWhile_append takeWhile_eq_all_conv)
  show ?thesis unfolding reclaimable_def tw by (cases bs) simp_all
qed

lemma insert_disjointD: "insert a A \<inter> B = {} \<Longrightarrow> a \<notin> B" "insert a A \<inter> B = {} \<Longrightarrow> A \<inter> B = {}"
  by auto

lemma drained_dom:
  assumes "dom h = addrs ps" and "distinct (map fst ps)"
  shows "dom (without h (addrs (take j ps))) = addrs (drop j ps)"
  using addrs_take_disjoint_drop [OF assms(2), of j] image_take_drop [of fst ps j] assms(1)
  by (simp only: dom_without) blast

text \<open>
  Past the dummy, every node of the main list is unread and so goes to the pool, where it stays:
  a drain never gets past a node that is not \<open>can_free\<close>.
\<close>

lemma lfq_clean_loop_rest:
  assumes "pool_ok s (as @ bs)" and "freeable as" and "unread bs"
    and "seg (nodes s) (unread_cells ns) NULL" and "head s = first_addr (unread_cells ns) NULL"
    and "distinct (map fst ns)" and "NULL \<notin> fst ` set ns" and "fst ` set ns \<inter> addrs (as @ bs) = {}"
    and "dom (nodes s) = fst ` set ns \<union> addrs (as @ bs)"
  shows "\<exists>s' k. lfq_clean_loop s = Some s' \<and> head s' = NULL \<and>
           pool_ok s' (drop k as @ bs @ unread_cells ns) \<and>
           dom (nodes s') = addrs (drop k as @ bs @ unread_cells ns)"
  using assms
proof (induction ns arbitrary: s as bs)
  case Nil
  then have "lfq_clean_loop s = Some s" by (simp add: lfq_clean_loop.simps)
  with Nil show ?case by (intro exI [of _ s] exI [of _ 0]) simp
next
  case (Cons n ns)
  obtain a d where n: "n = (a, d)" by (cases n)
  let ?q = "first_addr (unread_cells ns) NULL"
  let ?ps = "(as @ bs) @ [(a, d, 0)]"
  define k where "k = drained False 0 (reclaimable ?ps)"
  have na: "nodes s a = Some \<lparr>n_data = d, n_next = ?q, n_can_free = 0\<rparr>" "head s = a" "a \<noteq> NULL"
    "a \<notin> addrs (as @ bs)" and ns: "a \<notin> fst ` set ns" "fst ` set ns \<inter> addrs (as @ bs) = {}"
  proof -
    show "nodes s a = Some \<lparr>n_data = d, n_next = ?q, n_can_free = 0\<rparr>" "head s = a"
      using Cons.prems(4,5) n by simp_all
    show "a \<noteq> NULL" "a \<notin> fst ` set ns" using Cons.prems(6,7) n by simp_all
    show "a \<notin> addrs (as @ bs)" "fst ` set ns \<inter> addrs (as @ bs) = {}"
      using Cons.prems(8) unfolding n list.set image_insert fst_conv by (rule insert_disjointD)+
  qed
  obtain s1 where s1: "safe_free a s = Some s1" "pool_ok s1 (drop k ?ps)"
    "head s1 = head s" "tail s1 = tail s" "HP s1 = HP s" "tid_map s1 = tid_map s"
    "MAXHPSIZE s1 = MAXHPSIZE s" "\<forall>x. x \<notin> addrs ?ps \<longrightarrow> nodes s1 x = nodes s x"
    "dom (nodes s1) = dom (nodes s) - addrs (take k ?ps)"
    by (rule safe_free_later [OF Cons.prems(1) na(1,3,4) refl k_def])
  have "reclaimable ?ps = length as"
    using Cons.prems(2,3) reclaimable_mixed [of as "bs @ [(a, d, 0)]"] by simp
  then have k: "k \<le> length as" using drained_le [of False 0 "length as"] by (simp add: k_def)
  let ?s = "s1\<lparr>head := ?q\<rparr>"
  have "lfq_clean_loop s = lfq_clean_loop ?s"
    using na s1(1) by (subst lfq_clean_loop.simps) (simp add: load_def Let_def)
  moreover have "\<exists>s' j. lfq_clean_loop ?s = Some s' \<and> head s' = NULL \<and>
      pool_ok s' (drop j (drop k as) @ (bs @ [(a, d, 0)]) @ unread_cells ns) \<and>
      dom (nodes s') = addrs (drop j (drop k as) @ (bs @ [(a, d, 0)]) @ unread_cells ns)"
  proof (rule Cons.IH)
    show "pool_ok ?s (drop k as @ bs @ [(a, d, 0)])"
      using s1(2) k by (auto intro: pool_ok_frame)
    show "freeable (drop k as)" using Cons.prems(2) by (auto dest: in_set_dropD)
    show "unread (bs @ [(a, d, 0)])" using Cons.prems(3) by auto
    have "seg (nodes s) (unread_cells ns) NULL" using Cons.prems(4) n by simp
    moreover have "nodes ?s x = nodes s x" if "x \<in> fst ` set ns" for x
    proof -
      have "x \<noteq> a" and "x \<notin> addrs (as @ bs)" using that ns by blast+
      then have "x \<notin> addrs ?ps" by (simp add: image_Un)
      then show ?thesis using s1(8) by simp
    qed
    ultimately show "seg (nodes ?s) (unread_cells ns) NULL"
      by (subst seg_cong [of _ _ "nodes s"]) simp_all
    have dj: "addrs (drop k ?ps) \<inter> addrs (take k ?ps) = {}"
      using Cons.prems(1) na(4) by (intro addrs_take_disjoint_drop) (simp add: pool_ok_def image_Un)
    have sub: "addrs (take k ?ps) \<subseteq> addrs (as @ bs)"
      using k set_take_subset [of k as] by auto
    have "addrs ?ps = addrs (take k ?ps) \<union> addrs (drop k ?ps)"
      by (metis append_take_drop_id image_Un set_append)
    then have "dom (nodes s) = fst ` set ns \<union> (addrs (take k ?ps) \<union> addrs (drop k ?ps))"
      using Cons.prems(9) n by auto
    then show "dom (nodes ?s) = fst ` set ns \<union> addrs (drop k as @ bs @ [(a, d, 0)])"
      using s1(9) diff_sub [OF dj disjoint_sub [OF ns(2) sub]] k by simp
    have "addrs (drop k as) \<subseteq> addrs as" by (intro image_mono set_drop_subset)
    then show "fst ` set ns \<inter> addrs (drop k as @ bs @ [(a, d, 0)]) = {}"
      using ns by auto
  qed (use Cons.prems(5-7) n in simp_all)
  ultimately show ?case using n by (auto simp: drop_drop)
qed

lemma safe_free_now_ok:
  assumes "pool_ok s ps" and "nodes s p = Some n" and "n_can_free n \<noteq> 0" and "p \<noteq> NULL"
    and "p \<notin> addrs ps" and "k = drained False 0 (reclaimable ps)"
    and "s' = s\<lparr>fph := fst (ps ! k), nodes := without (nodes s) (insert p (addrs (take k ps)))\<rparr>"
  shows "safe_free p s = Some s'" and "pool_ok s' (drop k ps)"
proof -
  show "safe_free p s = Some s'"
    unfolding assms(7) using assms(1-6) by (intro safe_free_now) (simp_all add: pool_ok_def)
  have "pool_ok (s\<lparr>nodes := (nodes s)(p := None)\<rparr>) ps"
    by (rule pool_ok_frame [OF assms(1)]) (use assms(5) in auto)
  moreover have "k < length ps"
    using assms(1,6) drained_less [of ps False 0] by (simp add: pool_ok_def)
  ultimately show "pool_ok s' (drop k ps)"
    using pool_ok_drain [of "s\<lparr>nodes := (nodes s)(p := None)\<rparr>" ps k]
    by (simp add: without_upd_None assms(7))
qed

lemma lfq_clean_loop_shape:
  assumes sh: "lfq_shape s z ns ps"
  shows "\<exists>s' k. lfq_clean_loop s = Some s' \<and> head s' = NULL \<and>
           pool_ok s' (pool_cells (drop k ps) @ unread_cells ns) \<and>
           dom (nodes s') = addrs (pool_cells (drop k ps) @ unread_cells ns)"
proof -
  let ?q = "first_addr (unread_cells ns) NULL"
  define k where "k = drained False 0 (reclaimable (pool_cells ps))"
  define s1 where "s1 = s\<lparr>fph := fst (pool_cells ps ! k),
      nodes := without (nodes s) (insert (fst z) (addrs (take k (pool_cells ps))))\<rparr>"
  have z: "nodes s (fst z) = Some \<lparr>n_data = snd z, n_next = ?q, n_can_free = 1\<rparr>"
    and seg: "seg (nodes s) (unread_cells ns) NULL"
    using lfq_shape_seg [OF sh] by (simp_all add: queue_cells_def unread_cells_def)
  have z0: "fst z \<noteq> NULL" and d: "distinct (map fst ns)" and n0: "NULL \<notin> fst ` set ns"
    and zn: "fst z \<notin> fst ` set ns" and zp: "fst z \<notin> fst ` set ps"
    and np: "fst ` set ns \<inter> fst ` set ps = {}"
    using lfq_shape_distinct [OF sh] lfq_shape_nonnull [OF sh] by (simp_all add: image_Un)
  have s1: "safe_free (fst z) s = Some s1" "pool_ok s1 (pool_cells (drop k ps))"
    using safe_free_now_ok [OF lfq_shape_pool [OF sh] z _ z0 _ k_def s1_def] zp by simp_all
  have tk: "fst ` set (take k ps) \<subseteq> fst ` set ps" and dk: "fst ` set (drop k ps) \<subseteq> fst ` set ps"
    by (intro image_mono set_take_subset set_drop_subset)+
  have "fst ` set (drop k ps) \<inter> fst ` set (take k ps) = {}"
    using lfq_shape_distinct [OF sh] addrs_take_disjoint_drop [of "pool_cells ps" k] by simp
  moreover have "dom (nodes s) = insert (fst z) (fst ` set ns \<union> (fst ` set (take k ps) \<union> fst ` set (drop k ps)))"
    using lfq_shape_dom [OF sh] image_take_drop [of fst ps k] by (simp add: image_Un)
  moreover have "fst ` set ns \<inter> (fst ` set (take k ps) \<union> fst ` set (drop k ps)) = {}"
    using np by (simp add: image_take_drop [of fst ps k, symmetric])
  moreover have "fst z \<notin> fst ` set (drop k ps)" using zp dk by blast
  ultimately have dom: "dom (nodes s1) = fst ` set ns \<union> fst ` set (drop k ps)"
    using zn by (simp add: s1_def dom_without diff_insert_sub2)
  have seg1: "seg (nodes s1) (unread_cells ns) NULL"
    using seg zn disjoint_sub [OF np tk] by (simp add: s1_def seg_without)
  have loop: "lfq_clean_loop s = lfq_clean_loop (s1\<lparr>head := ?q\<rparr>)"
    using z z0 s1(1) lfq_shape_head [OF sh]
    by (subst lfq_clean_loop.simps) (simp add: load_def Let_def)
  have "\<exists>s' j. lfq_clean_loop (s1\<lparr>head := ?q\<rparr>) = Some s' \<and> head s' = NULL \<and>
           pool_ok s' (drop j (pool_cells (drop k ps)) @ [] @ unread_cells ns) \<and>
           dom (nodes s') = addrs (drop j (pool_cells (drop k ps)) @ [] @ unread_cells ns)"
  proof (rule lfq_clean_loop_rest)
    show "pool_ok (s1\<lparr>head := ?q\<rparr>) (pool_cells (drop k ps) @ [])"
      using s1(2) by (auto intro: pool_ok_frame)
    show "freeable (pool_cells (drop k ps))" by (rule freeable_pool_cells)
  qed (use d n0 seg1 dom disjoint_sub [OF np dk] in simp_all)
  then show ?thesis unfolding loop by (auto simp: drop_drop)
qed

text \<open>
  What \<open>lfq_clean\<close> returns and leaves behind: a queue with at most one unread element is taken
  down completely; with more it gives up, and the unread nodes stay allocated in the pool.
\<close>

lemma lfq_clean_shape:
  assumes sh: "lfq_shape s z ns ps"
  shows "\<exists>s'. lfq_clean s = Some (if length ns \<le> 1 then 0 else -1, s') \<and>
           head s' = NULL \<and> tail s' = NULL \<and>
           dom (nodes s') = (if length ns \<le> 1 then {} else fst ` set ns) \<and>
           (length ns \<le> 1 \<longrightarrow> s' = zero_ctx s')"
proof -
  obtain s1 k where s1: "lfq_clean_loop s = Some s1" "head s1 = NULL"
    and pok: "pool_ok s1 (pool_cells (drop k ps) @ unread_cells ns)"
    and dom1: "dom (nodes s1) = addrs (pool_cells (drop k ps) @ unread_cells ns)"
    using lfq_clean_loop_shape [OF sh] by blast
  let ?ps = "pool_cells (drop k ps) @ unread_cells ns"
  define s2 where "s2 = s1\<lparr>tail := NULL\<rparr>"
  have pok2: "pool_ok s2 ?ps" unfolding s2_def by (rule pool_ok_frame [OF pok]) simp_all
  define j where "j = reclaimable ?ps"
  have jd: "j = drained True 0 (reclaimable ?ps)" by (simp add: j_def drained_def)
  have j: "j = (if ns = [] then length (drop k ps) - 1 else length (drop k ps))"
    using reclaimable_mixed [OF freeable_pool_cells unread_unread_cells, of "drop k ps" ns]
    by (simp add: j_def)
  define s3 where "s3 = s2\<lparr>fph := fst (?ps ! j), nodes := without (nodes s2) (addrs (take j ?ps))\<rparr>"
  have s3: "free_pool True s2 = Some s3"
    unfolding s3_def by (rule free_pool_ok [OF pok2 jd])
  have pok3: "pool_ok s3 (drop j ?ps)" by (rule free_pool_pool_ok [OF pok2 jd s3])
  have nz: "head s \<noteq> NULL" "tail s \<noteq> NULL"
    using lfq_shape_nonnull [OF sh] lfq_shape_head [OF sh] lfq_shape_tail [OF sh] by auto
  have pz: "fph s2 \<noteq> NULL" "fpt s2 \<noteq> NULL"
    using pool_ok_ends [OF pok2] by simp_all
  have cl: "lfq_clean s = (if fph s3 \<noteq> fpt s3 then Some (-1, s3)
      else map_option (\<lambda>s. (0, zero_ctx (s\<lparr>fph := NULL, fpt := NULL\<rparr>))) (free_node (fpt s3) s3))"
    using nz pz s1(1) s3 by (auto simp: lfq_clean_def s2_def split: option.splits bind_splits)
  have dom3: "dom (nodes s3) = addrs (drop j ?ps)"
    using drained_dom [of "nodes s1" ?ps j] dom1 pok2 by (simp add: s3_def s2_def pool_ok_def)
  show ?thesis
  proof (cases "length ns \<le> 1")
    case True
    then have "length (drop j ?ps) = Suc 0"
      using j pok2 by (cases ns) (auto simp: pool_ok_def)
    then obtain c where c: "drop j ?ps = [c]" unfolding length_one_iff ..
    have dc: "dom (nodes s3) = {fst c}" unfolding dom3 c by simp
    have f: "fph s3 = fst c" "fpt s3 = fst c" "fst c \<noteq> NULL" "fst c \<in> dom (nodes s3)"
      using pok3 dc unfolding c by (auto simp: pool_ok_def first_addr_hd)
    define s4 where "s4 = zero_ctx (s3\<lparr>nodes := (nodes s3)(fst c := None)\<rparr>)"
    have "lfq_clean s = Some (0, s4)"
      using cl f by (cases s3) (auto simp: free_node_def s4_def zero_ctx_def)
    moreover have "dom (nodes s4) = {}" using dc by (simp add: s4_def zero_ctx_def)
    moreover have "head s4 = NULL" "tail s4 = NULL" "s4 = zero_ctx s4"
      by (simp_all add: s4_def zero_ctx_def)
    ultimately show ?thesis using True by (intro exI [of _ s4]) simp
  next
    case False
    then have d: "drop j ?ps = unread_cells ns" using j by (cases ns) auto
    have "fst (hd ns) \<noteq> fst (last ns)"
    proof -
      obtain a b ms where "ns = a # b # ms" using False by (cases ns; cases "tl ns") auto
      then show ?thesis
        using lfq_shape_distinct [OF sh] by (auto dest!: last_in_set [of "b # ms"] split: if_splits)
    qed
    moreover have "fph s3 = fst (hd ns)" "fpt s3 = fst (last ns)"
      using pok3 False unfolding d by (cases ns; auto simp: pool_ok_def unread_cells_def last_map split_beta)+
    ultimately have "lfq_clean s = Some (-1, s3)" using cl by simp
    moreover have "dom (nodes s3) = fst ` set ns" unfolding dom3 d by simp
    ultimately show ?thesis using False s1(2) by (simp add: s3_def s2_def)
  qed
qed

section \<open>The queue as a provider of the interface\<close>

definition lfq_fresh :: "addr \<Rightarrow> lfq \<Rightarrow> bool" where
  "lfq_fresh a s \<longleftrightarrow> nodes s a = None"

lemma lfq_repI: "lfq_shape s z ns ps \<Longrightarrow> map snd ns = xs \<Longrightarrow> lfq_rep s xs"
  unfolding lfq_rep_def by blast

lemma lfq_enqueue_rep:
  assumes "lfq_rep s xs" and "lfq_fresh a s" and "a \<noteq> NULL"
  shows "\<exists>s'. lfq_enqueue a d s = Some (0, s') \<and> lfq_rep s' (xs @ [d])"
proof -
  obtain z ns ps where sh: "lfq_shape s z ns ps" and xs: "xs = map snd ns"
    using assms(1) by (auto simp: lfq_rep_def)
  obtain s' where "lfq_enqueue a d s = Some (0, s')" and "lfq_shape s' z (ns @ [(a, d)]) ps"
    using assms(2,3) lfq_enqueue_shape [OF sh] by (metis lfq_fresh_def)
  then show ?thesis by (auto simp: xs intro: lfq_repI)
qed

lemma lfq_dequeue_rep_empty: "lfq_rep s [] \<Longrightarrow> lfq_dequeue s = Some (NULL, s)"
  by (auto simp: lfq_rep_def intro: lfq_dequeue_empty)

lemma lfq_dequeue_rep_cons:
  assumes "lfq_rep s (x # xs)"
  shows "\<exists>s'. lfq_dequeue s = Some (x, s') \<and> lfq_rep s' xs"
proof -
  obtain z b ns ps where sh: "lfq_shape s z ((b, x) # ns) ps" and xs: "xs = map snd ns"
    using assms by (auto simp: lfq_rep_def Cons_eq_map_conv)
  obtain s' where "lfq_dequeue s = Some (x, s')"
    "lfq_shape s' (b, x) ns (drop (min (nat MAXFREE) (length ps - 1)) ps)"
    by (rule lfq_dequeue_shape [OF sh refl])
  then show ?thesis unfolding lfq_rep_def xs by blast
qed

lemma lfq_enqueue_fail: "lfq_enqueue NULL d s = Some (- ENOMEM, s)"
  by (simp add: lfq_enqueue_def)

interpretation lfq_queue: fifo lfq_enqueue lfq_dequeue lfq_rep lfq_fresh NULL NULL
proof unfold_locales
  show "lfq_enqueue NULL d q = Some (- ENOMEM, q)" for d q by (rule lfq_enqueue_fail)
  show "lfq_rep q [] \<Longrightarrow> lfq_dequeue q = Some (NULL, q)" for q by (rule lfq_dequeue_rep_empty)
qed (fact lfq_enqueue_rep lfq_dequeue_rep_cons)+

text \<open>
  While the pool holds a single node, as it does from \<open>lfq_init\<close> on, sequential use keeps it so:
  a queue of \<open>n\<close> elements owns exactly \<open>n + 2\<close> nodes.
\<close>

definition lfq_lean :: "lfq \<Rightarrow> addr list \<Rightarrow> bool" where
  "lfq_lean s xs \<longleftrightarrow> (\<exists>z ns p. lfq_shape s z ns [p] \<and> xs = map snd ns)"

lemma lfq_leanI: "lfq_shape s z ns [p] \<Longrightarrow> map snd ns = xs \<Longrightarrow> lfq_lean s xs"
  unfolding lfq_lean_def by blast

lemma lfq_lean_rep: "lfq_lean s xs \<Longrightarrow> lfq_rep s xs"
  unfolding lfq_lean_def lfq_rep_def by blast

lemma lfq_lean_card: "lfq_lean s xs \<Longrightarrow> card (dom (nodes s)) = length xs + 2"
proof -
  assume "lfq_lean s xs"
  then obtain z ns p where sh: "lfq_shape s z ns [p]" and xs: "xs = map snd ns"
    unfolding lfq_lean_def by blast
  have "card (dom (nodes s)) = length (map fst (z # ns @ [p]))"
    using distinct_card [OF lfq_shape_distinct [OF sh]] lfq_shape_dom [OF sh] by simp
  then show ?thesis by (simp add: xs)
qed

interpretation lfq_lean_queue: fifo lfq_enqueue lfq_dequeue lfq_lean lfq_fresh NULL NULL
proof unfold_locales
  show "lfq_enqueue NULL d q = Some (- ENOMEM, q)" for d q by (rule lfq_enqueue_fail)
next
  fix s xs a d
  assume "lfq_lean s xs" and a: "lfq_fresh a s" "a \<noteq> NULL"
  then obtain z ns p where sh: "lfq_shape s z ns [p]" and xs: "xs = map snd ns"
    unfolding lfq_lean_def by blast
  obtain s' where "lfq_enqueue a d s = Some (0, s')" and "lfq_shape s' z (ns @ [(a, d)]) [p]"
    using a lfq_enqueue_shape [OF sh] by (metis lfq_fresh_def)
  then show "\<exists>s'. lfq_enqueue a d s = Some (0, s') \<and> lfq_lean s' (xs @ [d])"
    by (auto simp: xs intro: lfq_leanI)
next
  show "lfq_lean q [] \<Longrightarrow> lfq_dequeue q = Some (NULL, q)" for q
    by (intro lfq_dequeue_rep_empty lfq_lean_rep)
next
  fix s x xs
  assume "lfq_lean s (x # xs)"
  then obtain z b ns p where sh: "lfq_shape s z ((b, x) # ns) [p]" and xs: "xs = map snd ns"
    by (auto simp: lfq_lean_def Cons_eq_map_conv)
  obtain s' where "lfq_dequeue s = Some (x, s')" and "lfq_shape s' (b, x) ns [p]"
    using lfq_dequeue_shape [OF sh refl] by auto
  then show "\<exists>s'. lfq_dequeue s = Some (x, s') \<and> lfq_lean s' xs"
    by (auto simp: xs intro: lfq_leanI)
qed

end
