(* ===== verification/Lfq_Props.thy ===== *)
theory Lfq_Props
  imports Lfq_Seq
begin

text \<open>
  The properties of the queue of \<open>lfq.c\<close>: it is a FIFO queue that loses no memory while it is
  used, the reach and the limits of \<open>lfq_init\<close> and \<open>lfq_clean\<close>, the protection hazard pointers
  give, and what the operations return on their error paths.
\<close>

text \<open>A context nothing has initialised, as the globals of \<open>adaptor.c\<close> start out.\<close>

definition lfq_blank :: lfq where
  "lfq_blank = \<lparr>head = NULL, count = 0, HP = None, tid_map = None, is_freeing = 0, fph = NULL,
     fpt = NULL, MAXHPSIZE = 0, tail = NULL, nodes = Map.empty\<rparr>"

lemma nodes_blank [simp]: "nodes lfq_blank = Map.empty"
  by (simp add: lfq_blank_def)

lemma lfq_init_lean:
  assumes "nodes s = Map.empty" and "a1 \<noteq> NULL" and "a2 \<noteq> NULL" and "a1 \<noteq> a2" and "0 < n"
  obtains s' where "lfq_init a1 a2 True True n s = Some (0, s')" and "lfq_lean s' []"
proof -
  obtain s' where "lfq_init a1 a2 True True n s = Some (0, s')"
    and sh: "lfq_shape s' (a1, NULL) [] [(a2, NULL)]"
    by (rule lfq_init_shape [OF assms])
  moreover have "lfq_lean s' []" using lfq_leanI [OF sh] by simp
  ultimately show ?thesis by (intro that)
qed

text \<open>The queues the witnesses use: one just initialised, and one with two elements.\<close>

lemma init_sample:
  obtains s0 where "lfq_init 16 32 True True 1 lfq_blank = Some (0, s0)"
    and "lfq_shape s0 (16, NULL) [] [(32, NULL)]" and "MAXHPSIZE s0 = 1"
  by (rule lfq_init_shape [of lfq_blank 16 32 1]) simp_all

lemma fresh_sample:
  assumes "lfq_shape s z ns ps" and "a \<notin> fst ` set (z # ns @ ps)"
  shows "nodes s a = None"
  using assms(2) unfolding lfq_shape_dom [OF assms(1), symmetric] by (simp add: domIff)

lemma two_sample:
  obtains s0 s1 s2 where "lfq_init 16 32 True True 1 lfq_blank = Some (0, s0)"
    and "lfq_shape s0 (16, NULL) [] [(32, NULL)]"
    and "lfq_enqueue 48 7 s0 = Some (0, s1)" and "lfq_shape s1 (16, NULL) [(48, 7)] [(32, NULL)]"
    and "lfq_enqueue 64 8 s1 = Some (0, s2)" and "lfq_shape s2 (16, NULL) [(48, 7), (64, 8)] [(32, NULL)]"
proof -
  obtain s0 where 0: "lfq_init 16 32 True True 1 lfq_blank = Some (0, s0)"
    "lfq_shape s0 (16, NULL) [] [(32, NULL)]" by (rule init_sample)
  have "nodes s0 48 = None" by (rule fresh_sample [OF 0(2)]) simp
  then obtain s1 where 1: "lfq_enqueue 48 7 s0 = Some (0, s1)"
    "lfq_shape s1 (16, NULL) [(48, 7)] [(32, NULL)]"
    using lfq_enqueue_shape [OF 0(2), of 48 7] by auto
  have "nodes s1 64 = None" by (rule fresh_sample [OF 1(2)]) simp
  then obtain s2 where "lfq_enqueue 64 8 s1 = Some (0, s2)"
    "lfq_shape s2 (16, NULL) [(48, 7), (64, 8)] [(32, NULL)]"
    using lfq_enqueue_shape [OF 1(2), of 64 8] by auto
  with 0 1 show ?thesis by (rule that)
qed

section \<open>FIFO\<close>

text \<open>
  C11. Whatever sequence of enqueues and dequeues runs on a queue that represents a list, no
  operation faults or hangs, every result is the one a list used as a FIFO gives (0 for an
  enqueue, \<open>-ENOMEM\<close> when \<open>calloc\<close> failed, \<open>NULL\<close> for a dequeue of the empty queue, otherwise
  the oldest element), and the queue represents the resulting list.
\<close>

theorem lfq_refines_fifo:
  assumes "lfq_rep s xs" and "allocs_ok lfq_enqueue lfq_dequeue lfq_fresh NULL ops s"
  shows "\<exists>s'. run_ops lfq_enqueue lfq_dequeue ops s = Some (fst (spec_ops NULL NULL ops xs), s') \<and>
              lfq_rep s' (snd (spec_ops NULL NULL ops xs))"
  using assms by (rule lfq_queue.run_refines)

theorem lfq_refines_fifo_witness:
  "\<exists>s s'. run_ops lfq_enqueue lfq_dequeue [Enq 48 7, Enq NULL 8, Deq, Deq] s =
       Some ([EnqRes 0, EnqRes (- ENOMEM), DeqRes 7, DeqRes NULL], s') \<and> lfq_rep s' []"
proof -
  obtain s0 where sh: "lfq_shape s0 (16, NULL) [] [(32, NULL)]" by (rule init_sample)
  have s0: "lfq_rep s0 []" "nodes s0 48 = None"
    using lfq_repI [OF sh] fresh_sample [OF sh, of 48] by simp_all
  have "allocs_ok lfq_enqueue lfq_dequeue lfq_fresh NULL [Enq 48 7, Enq NULL 8, Deq, Deq] s0"
    using s0(2) by (auto simp: lfq_fresh_def split: option.splits)
  from lfq_refines_fifo [OF s0(1) this] show ?thesis by auto
qed

text \<open>
  C18. From \<open>lfq_init\<close> on, after any such sequence the queue's store holds exactly two nodes more
  than the queue has elements: the dummy and the free pool's node.  Sequential use neither
  leaks a node nor lets the free pool grow.
\<close>

theorem lfq_owns_length_plus_two:
  assumes "nodes s = Map.empty" and "a1 \<noteq> NULL" and "a2 \<noteq> NULL" and "a1 \<noteq> a2" and "0 < n"
    and "lfq_init a1 a2 True True n s = Some (r, q)"
    and "allocs_ok lfq_enqueue lfq_dequeue lfq_fresh NULL ops q"
  shows "\<exists>rs q'. run_ops lfq_enqueue lfq_dequeue ops q = Some (rs, q') \<and>
           card (dom (nodes q')) = length (snd (spec_ops NULL NULL ops [])) + 2"
proof -
  have "lfq_lean q []"
    using assms(6) by (rule_tac lfq_init_lean [OF assms(1-5)]) simp
  from lfq_lean_queue.run_refines [OF this assms(7)] show ?thesis
    using lfq_lean_card by blast
qed

theorem lfq_owns_length_plus_two_witness:
  "\<exists>q rs q'. run_ops lfq_enqueue lfq_dequeue [Enq 48 7, Enq 64 8, Deq] q = Some (rs, q') \<and>
           card (dom (nodes q')) = 3"
proof -
  obtain s0 s1 where i: "lfq_init 16 32 True True 1 lfq_blank = Some (0, s0)"
    and 0: "lfq_shape s0 (16, NULL) [] [(32, NULL)]" and 1: "lfq_enqueue 48 7 s0 = Some (0, s1)"
    "lfq_shape s1 (16, NULL) [(48, 7)] [(32, NULL)]"
    by (rule two_sample)
  have f: "nodes s0 48 = None" "nodes s1 64 = None"
    using fresh_sample [OF 0, of 48] fresh_sample [OF 1(2), of 64] by simp_all
  then have ok: "allocs_ok lfq_enqueue lfq_dequeue lfq_fresh NULL [Enq 48 7, Enq 64 8, Deq] s0"
    using 1(1) by (auto simp: lfq_fresh_def split: option.splits)
  then obtain rs q' where "run_ops lfq_enqueue lfq_dequeue [Enq 48 7, Enq 64 8, Deq] s0 = Some (rs, q')"
    and "card (dom (nodes q')) = length (snd (spec_ops NULL NULL [Enq 48 (7 :: addr), Enq 64 8, Deq] [])) + 2"
    using lfq_owns_length_plus_two [OF nodes_blank _ _ _ _ i ok] by auto
  moreover have "length (snd (spec_ops NULL NULL [Enq 48 (7 :: addr), Enq (64 :: addr) 8, Deq] [])) = 1"
    by simp
  ultimately show ?thesis by (intro exI [of _ s0]) auto
qed

section \<open>Initialisation\<close>

text \<open>
  \<open>lfq_init\<close> with four successful allocations returns 0 and sets up the empty queue.
\<close>

lemma lfq_init_empty:
  assumes "nodes s = Map.empty" and "a1 \<noteq> NULL" and "a2 \<noteq> NULL" and "a1 \<noteq> a2" and "0 < n"
  shows "\<exists>s'. lfq_init a1 a2 True True n s = Some (0, s') \<and> lfq_rep s' [] \<and> MAXHPSIZE s' = n \<and>
              lfq_dequeue s' = Some (NULL, s')"
proof -
  obtain s' where "lfq_init a1 a2 True True n s = Some (0, s')" and "MAXHPSIZE s' = n"
    and sh: "lfq_shape s' (a1, NULL) [] [(a2, NULL)]"
    using lfq_init_shape [OF assms] by blast
  then show ?thesis using lfq_repI [OF sh] lfq_dequeue_empty [OF sh] by simp
qed

lemma lfq_init_empty_witness:
  "\<exists>s'. lfq_init 16 32 True True 4 lfq_blank = Some (0, s') \<and> lfq_rep s' [] \<and> MAXHPSIZE s' = 4"
  using lfq_init_empty [of lfq_blank 16 32 4] by auto

text \<open>
  When a node cannot be allocated \<open>lfq_init\<close> returns \<open>-ENOMEM\<close>.  If it was the first,
  nothing changes; if it was the second, the first stays allocated and no field points to it.
\<close>

lemma lfq_init_out_of_memory:
  assumes "a1 \<noteq> NULL"
  shows "lfq_init NULL a2 hp_ok tm_ok n s = Some (- ENOMEM, s) \<and>
         lfq_init a1 NULL hp_ok tm_ok n s = Some (- ENOMEM, s\<lparr>nodes := (nodes s)(a1 \<mapsto> zero_node)\<rparr>)"
  using assms by (simp add: lfq_init_def calloc_node_def)

lemma lfq_init_out_of_memory_witness:
  "\<exists>s. lfq_init 16 NULL True True 1 lfq_blank = Some (- ENOMEM, s) \<and> dom (nodes s) = {16}"
  using lfq_init_out_of_memory [of 16 NULL True True 1 lfq_blank] by simp

text \<open>
  The allocations of \<open>HP\<close> and \<open>tid_map\<close> are not checked: when one of them fails \<open>lfq_init\<close>
  still returns 0, and the first dequeue dereferences a \<open>NULL\<close> pointer.
\<close>

lemma lfq_init_unchecked_arrays:
  assumes "a1 \<noteq> NULL" and "a2 \<noteq> NULL" and "0 < n" and "\<not> (hp_ok \<and> tm_ok)"
  shows "\<exists>s'. lfq_init a1 a2 hp_ok tm_ok n s = Some (0, s') \<and> lfq_dequeue s' = None"
proof -
  obtain s' where s': "lfq_init a1 a2 hp_ok tm_ok n s = Some (0, s')"
    "HP s' = calloc_array hp_ok n sizeof_ptr NULL" "tid_map s' = calloc_array tm_ok n sizeof_int 0"
    "MAXHPSIZE s' = n"
    using assms by (cases "a1 = a2")
      (auto simp: lfq_init_def calloc_node_def store_def zero_ctx_def Let_def)
  have "lfq_dequeue s' = None"
  proof (cases "tid_map s'")
    case None
    then show ?thesis using s'(4) assms(3)
      by (simp add: lfq_dequeue_def alloc_tid_def alloc_tid_from.simps [of s' 0] read_tid_map_def)
  next
    case (Some tm)
    then have "HP s' = None" and "aread tm 0 = Some 0" and "awrite tm 0 1 = Some (tm[0 := 1])"
      using assms s' by (auto simp: calloc_array_def sizeof_lfq_node_def sizeof_int_def aread_def
          awrite_def split: if_splits)
    then show ?thesis using s'(4) assms(3) Some
      by (auto simp: lfq_dequeue_def alloc_tid_def alloc_tid_from.simps [of s' 0] read_tid_map_def
          write_tid_map_def lfq_dequeue_tid_def dequeue_loop.simps write_HP_def Let_def)
  qed
  with s'(1) show ?thesis by blast
qed

lemma lfq_init_unchecked_arrays_witness:
  "\<exists>s. lfq_init 16 32 False True 1 lfq_blank = Some (0, s) \<and> lfq_dequeue s = None"
  using lfq_init_unchecked_arrays [of 16 32 1 False True lfq_blank] by simp

section \<open>Cleaning up\<close>

text \<open>
  C35. \<open>lfq_clean\<close> returns 0 and frees every node when at most one element is left in the queue.
  With two or more it returns -1, and exactly the nodes of the unread elements stay allocated.
\<close>

theorem lfq_clean_result:
  assumes "lfq_rep s xs"
  shows "\<exists>s'. lfq_clean s = Some (if length xs \<le> 1 then 0 else -1, s') \<and>
           card (dom (nodes s')) = (if length xs \<le> 1 then 0 else length xs)"
proof -
  obtain z ns ps where sh: "lfq_shape s z ns ps" and xs: "xs = map snd ns"
    using assms unfolding lfq_rep_def by blast
  have "card (fst ` set ns) = length ns"
    using lfq_shape_distinct [OF sh] distinct_card [of "map fst ns"] by simp
  then show ?thesis using lfq_clean_shape [OF sh] by (auto simp: xs)
qed

theorem lfq_clean_result_witness:
  "\<exists>s s'. lfq_rep s [7, 8] \<and> lfq_clean s = Some (-1, s') \<and> card (dom (nodes s')) = 2"
proof -
  obtain s2 where sh: "lfq_shape s2 (16, NULL) [(48, 7), (64, 8)] [(32, NULL)]" by (rule two_sample)
  have "lfq_rep s2 [7, 8]" using lfq_repI [OF sh] by simp
  with lfq_clean_result [OF this] show ?thesis by auto
qed

text \<open>
  Whatever \<open>lfq_clean\<close> returned, the context must not be used again without \<open>lfq_init\<close>: an
  enqueue whose allocation succeeds dereferences the \<open>NULL\<close> tail.
\<close>

lemma enqueue_after_clean_faults:
  assumes "lfq_rep s xs" and "lfq_clean s = Some (r, s')" and "a \<noteq> NULL"
  shows "lfq_enqueue a d s' = None"
proof -
  obtain z ns ps where sh: "lfq_shape s z ns ps" and xs: "xs = map snd ns"
    using assms(1) unfolding lfq_rep_def by blast
  have t: "tail s' = NULL" and "dom (nodes s') = (if length ns \<le> 1 then {} else fst ` set ns)"
    using lfq_clean_shape [OF sh] assms(2) by auto
  then have "NULL \<notin> dom (nodes s')" using lfq_shape_nonnull [OF sh] by auto
  then have "nodes s' NULL = None" by (simp add: domIff)
  with t assms(3) show ?thesis by (simp add: lfq_enqueue_def calloc_node_def store_def)
qed

lemma enqueue_after_clean_faults_witness:
  "\<exists>s s'. lfq_rep s [7, 8] \<and> lfq_clean s = Some (-1, s') \<and> lfq_enqueue 80 9 s' = None"
proof -
  obtain s2 where sh: "lfq_shape s2 (16, NULL) [(48, 7), (64, 8)] [(32, NULL)]" by (rule two_sample)
  have r: "lfq_rep s2 [7, 8]" using lfq_repI [OF sh] by simp
  obtain s' where c: "lfq_clean s2 = Some (-1, s')" using lfq_clean_shape [OF sh] by auto
  from enqueue_after_clean_faults [OF r c, of 80 9] r c show ?thesis by auto
qed

section \<open>Reclamation\<close>

text \<open>
  A dequeue also drains the free pool: of \<open>n\<close> pooled nodes it frees up to \<open>MAXFREE\<close>, but
  always keeps the last.  (The pool of a quiet queue holds more than one node after several
  threads dequeued at the same time.)
\<close>

lemma dequeue_drains_pool:
  assumes "lfq_shape s z (n # ns) ps"
  shows "lfg_count_freelist s = Some (int (length ps)) \<and>
         (\<exists>s'. lfq_dequeue s = Some (snd n, s') \<and>
               lfg_count_freelist s' = Some (max 1 (int (length ps) - MAXFREE)))"
proof -
  obtain b d where n: "n = (b, d)" by (cases n)
  let ?k = "min (nat MAXFREE) (length ps - 1)"
  obtain s' where s': "lfq_dequeue s = Some (d, s')" "lfq_shape s' (b, d) ns (drop ?k ps)"
    using lfq_dequeue_shape [OF assms [unfolded n] refl] by blast
  have "length ps \<noteq> 0" using lfq_shape_pool [OF assms] by (simp add: pool_ok_def)
  then have "int (length (drop ?k ps)) = max 1 (int (length ps) - MAXFREE)"
    by (cases ps) (auto simp: MAXFREE_def min_def max_def)
  then show ?thesis
    using s' lfg_count_freelist_eq [OF lfq_shape_pool [OF s'(2)]]
      lfg_count_freelist_eq [OF lfq_shape_pool [OF assms]] by (simp add: n)
qed

lemma dequeue_drains_pool_witness:
  "\<exists>s s'. lfg_count_freelist s = Some 1 \<and> lfq_dequeue s = Some (7, s') \<and> lfg_count_freelist s' = Some 1"
proof -
  obtain s2 where sh: "lfq_shape s2 (16, NULL) [(48, 7), (64, 8)] [(32, NULL)]" by (rule two_sample)
  from dequeue_drains_pool [OF sh] show ?thesis by (auto simp: MAXFREE_def)
qed

text \<open>
  A hazard pointer protects its node: whatever the state of the queue and whatever else
  \<open>safe_free\<close> frees, a node some thread has published in \<open>HP\<close> stays allocated.
\<close>

definition guarded :: "addr \<Rightarrow> lfq \<Rightarrow> bool" where
  "guarded p s \<longleftrightarrow> inHP s p = Some True \<and> nodes s p \<noteq> None"

lemma inHP_upd [simp]:
  "inHP (s\<lparr>fph := a\<rparr>) p = inHP s p" "inHP (s\<lparr>fpt := a\<rparr>) p = inHP s p"
  "inHP (s\<lparr>nodes := h\<rparr>) p = inHP s p" "inHP (s\<lparr>is_freeing := f\<rparr>) p = inHP s p"
  by (rule inHP_cong; simp)+

lemma guarded_upd [simp]:
  "guarded p (s\<lparr>fph := a\<rparr>) = guarded p s" "guarded p (s\<lparr>fpt := a\<rparr>) = guarded p s"
  "guarded p (s\<lparr>is_freeing := f\<rparr>) = guarded p s"
  by (simp_all add: guarded_def)

lemma guarded_free:
  "guarded p s \<Longrightarrow> inHP s q = Some False \<Longrightarrow> free_node q s = Some s' \<Longrightarrow> guarded p s'"
  by (auto simp: guarded_def free_node_def split: if_splits option.splits)

lemma guarded_store: "guarded p s \<Longrightarrow> store q f s = Some s' \<Longrightarrow> guarded p s'"
  by (auto simp: guarded_def store_def split: option.splits)

lemma free_pool_loop_guarded:
  assumes ret: "free_pool_loop b i s = Some s'" and "guarded p s"
  shows "guarded p s'"
proof -
  have "guarded p s \<longrightarrow> guarded p s'"
  proof (rule free_pool_loop.raw_induct [where
      P = "\<lambda>b i s s'. guarded p s \<longrightarrow> guarded p s'", OF _ ret], goal_cases)
    case (1 f b i s s')
    show ?case
    proof (rule impI)
      assume g: "guarded p s"
      from 1(2) consider "s' = s"
        | n s1 where "inHP s (fph s) = Some False" "free_node (fph s) (s\<lparr>fph := n\<rparr>) = Some s1"
            "f b (i + 1) s1 = Some s'"
        by (auto simp: Let_def bind_eq_Some_conv split: if_splits)
      then show "guarded p s'"
      proof cases
        case 2
        have "guarded p s1" using guarded_free [of p "s\<lparr>fph := n\<rparr>" "fph s" s1] g 2(1,2) by simp
        with 1(1) [OF 2(3)] show ?thesis by blast
      qed (use g in simp)
    qed
  qed
  then show ?thesis using assms(2) by blast
qed

lemma free_pool_guarded: "free_pool b s = Some s' \<Longrightarrow> guarded p s \<Longrightarrow> guarded p s'"
  by (cases "is_freeing s = 0") (auto simp: free_pool_def bind_eq_Some_conv dest: free_pool_loop_guarded [of _ _ _ _ p])

lemma enpool_guarded:
  assumes "enpool q s = Some s'" and "guarded p s"
  shows "guarded p s'"
proof -
  obtain s1 where 1: "store q (n_next_update (\<lambda>_. NULL)) s = Some s1"
    and 2: "store (fpt s1) (n_next_update (\<lambda>_. q)) (s1\<lparr>fpt := q\<rparr>) = Some s'"
    using assms(1) by (auto simp: enpool_def bind_eq_Some_conv)
  have "guarded p (s1\<lparr>fpt := q\<rparr>)" using guarded_store [OF assms(2) 1] by simp
  then show ?thesis by (rule guarded_store [OF _ 2])
qed

text \<open>
  C23. A hazard pointer protects its node: whatever the state of the queue and whichever node
  \<open>safe_free\<close> is called for, a node some thread has published in \<open>HP\<close> stays allocated and
  published, also through the drain of the pool that follows.
\<close>

theorem hazard_pointer_protects:
  assumes "HP s = Some hp" and "MAXHPSIZE s \<le> int (length hp)"
    and "p \<in> set (take (nat (MAXHPSIZE s)) hp)" and "nodes s p \<noteq> None"
    and "safe_free q s = Some s'"
  shows "nodes s' p \<noteq> None \<and> inHP s' p = Some True"
proof -
  have g: "guarded p s" using inHP_iff [OF assms(1,2)] assms(3,4) by (simp add: guarded_def)
  obtain n s1 where n: "nodes s q = Some n" and fp: "free_pool False s1 = Some s'"
    and s1: "enpool q s = Some s1 \<or> (\<exists>s2 s3. inHP s q = Some False \<and>
        store q (n_next_update (\<lambda>_. MINUS_ONE)) (s\<lparr>is_freeing := 1\<rparr>) = Some s2 \<and>
        free_node q s2 = Some s3 \<and> s1 = s3\<lparr>is_freeing := 0\<rparr>)"
    using assms(5) by (auto simp: safe_free_def load_def bind_eq_Some_conv CAS_def split: if_splits)
  from s1 have "guarded p s1"
  proof
    assume "enpool q s = Some s1"
    then show ?thesis using g by (rule enpool_guarded)
  next
    assume "\<exists>s2 s3. inHP s q = Some False \<and>
        store q (n_next_update (\<lambda>_. MINUS_ONE)) (s\<lparr>is_freeing := 1\<rparr>) = Some s2 \<and>
        free_node q s2 = Some s3 \<and> s1 = s3\<lparr>is_freeing := 0\<rparr>"
    then obtain s2 s3 where 2: "inHP s q = Some False"
      "store q (n_next_update (\<lambda>_. MINUS_ONE)) (s\<lparr>is_freeing := 1\<rparr>) = Some s2"
      "free_node q s2 = Some s3" "s1 = s3\<lparr>is_freeing := 0\<rparr>" by blast
    have "guarded p s2" using guarded_store [OF _ 2(2)] g by simp
    moreover have "inHP s2 q = Some False"
      using 2(1,2) by (auto simp: store_def split: option.splits)
    ultimately show ?thesis using guarded_free [OF _ _ 2(3)] 2(4) by simp
  qed
  with free_pool_guarded [OF fp] show ?thesis by (simp add: guarded_def)
qed

definition hazard_sample :: lfq where
  "hazard_sample = \<lparr>head = 48, count = 0, HP = Some [16], tid_map = Some [1], is_freeing = 0,
     fph = 32, fpt = 32, MAXHPSIZE = 1, tail = 48,
     nodes = [16 \<mapsto> \<lparr>n_data = 7, n_next = 48, n_can_free = 1\<rparr>,
              48 \<mapsto> \<lparr>n_data = 8, n_next = NULL, n_can_free = 1\<rparr>,
              32 \<mapsto> \<lparr>n_data = NULL, n_next = NULL, n_can_free = 1\<rparr>]\<rparr>"

theorem hazard_pointer_protects_witness:
  "\<exists>s'. safe_free 16 hazard_sample = Some s' \<and> nodes s' 16 \<noteq> None \<and> inHP s' 16 = Some True"
proof -
  have "safe_free 16 hazard_sample \<noteq> None"
    by (simp add: hazard_sample_def safe_free_def load_def inHP_def inHP_from.simps read_HP_def
        aread_def enpool_def store_def free_pool_def free_pool_loop.simps free_node_def MAXFREE_def
        Let_def)
  then obtain s' where "safe_free 16 hazard_sample = Some s'" by blast
  with hazard_pointer_protects [OF _ _ _ _ this, of "[16]" 16] show ?thesis
    by (simp add: hazard_sample_def)
qed

section \<open>Spinning and running out of thread ids\<close>

text \<open>
  C36. \<open>LFQ_MB_DEQUEUE\<close> returns the oldest element of a queue that has one (not \<open>NULL\<close>), and on
  an empty queue that nobody fills it never returns.
\<close>

theorem LFQ_MB_DEQUEUE_spins:
  assumes "lfq_rep s xs" and "NULL \<notin> set xs"
  shows "case xs of [] \<Rightarrow> LFQ_MB_DEQUEUE s = None
         | x # xs' \<Rightarrow> (\<exists>s'. LFQ_MB_DEQUEUE s = Some (x, s') \<and> lfq_rep s' xs')"
proof (cases xs)
  case Nil
  then obtain z ps where "lfq_shape s z [] ps" using assms(1) by (auto simp: lfq_rep_def)
  then show ?thesis using LFQ_MB_DEQUEUE_returns_nonempty Nil by (cases "LFQ_MB_DEQUEUE s") auto
next
  case (Cons x xs')
  then obtain s' where "lfq_dequeue s = Some (x, s')" and "lfq_rep s' xs'"
    using lfq_dequeue_rep_cons [of s x xs'] assms(1) by auto
  then show ?thesis using Cons assms(2) by (auto simp: LFQ_MB_DEQUEUE.simps [of s])
qed

theorem LFQ_MB_DEQUEUE_spins_witness:
  "\<exists>s s' s0. LFQ_MB_DEQUEUE s = Some (7, s') \<and> LFQ_MB_DEQUEUE s0 = None"
proof -
  obtain s0 s2 where 0: "lfq_shape s0 (16, NULL) [] [(32, NULL)]"
    and 2: "lfq_shape s2 (16, NULL) [(48, 7), (64, 8)] [(32, NULL)]" by (rule two_sample)
  have "lfq_rep s0 []" and "lfq_rep s2 [7, 8]" using lfq_repI [OF 0] lfq_repI [OF 2] by simp_all
  with LFQ_MB_DEQUEUE_spins [of s0 "[]"] LFQ_MB_DEQUEUE_spins [of s2 "[7, 8]"] show ?thesis by auto
qed

lemma alloc_tid_from_full:
  assumes "tid_map s = Some tm" and "MAXHPSIZE s \<le> int (length tm)"
    and "\<forall>t \<in> set (take (nat (MAXHPSIZE s)) tm). t \<noteq> 0" and "0 \<le> i"
  shows "alloc_tid_from s i = Some (-1, s)"
  using assms(4)
proof (induction "nat (MAXHPSIZE s - i)" arbitrary: i rule: less_induct)
  case less
  show ?case
  proof (cases "i < MAXHPSIZE s")
    case False
    then show ?thesis by (simp add: alloc_tid_from.simps [of s i])
  next
    case True
    then have "read_tid_map s i = Some (tm ! nat i)"
      using assms(1,2) less.prems by (simp add: read_tid_map_def aread_def)
    moreover have "tm ! nat i \<in> set (take (nat (MAXHPSIZE s)) tm)"
      using True assms(2) less.prems by (auto simp: in_set_conv_nth intro!: exI [of _ "nat i"])
    moreover have "alloc_tid_from s (i + 1) = Some (-1, s)"
      using True less by (intro less.hyps) simp_all
    ultimately show ?thesis using assms(3) True by (simp add: alloc_tid_from.simps [of s i])
  qed
qed

text \<open>
  When all \<open>max_consume_thread\<close> ids are taken, a dequeue returns \<open>(void *)-1\<close> and changes
  nothing.  The value is neither \<open>NULL\<close> nor an element, so a caller that only tests for \<open>NULL\<close>
  takes it for an element.
\<close>

lemma dequeue_without_tid:
  assumes "tid_map s = Some tm" and "MAXHPSIZE s \<le> int (length tm)"
    and "\<forall>t \<in> set (take (nat (MAXHPSIZE s)) tm). t \<noteq> 0"
  shows "lfq_dequeue s = Some (MINUS_ONE, s)"
  using alloc_tid_from_full [OF assms, of 0] by (simp add: lfq_dequeue_def alloc_tid_def)

lemma dequeue_without_tid_witness:
  "lfq_dequeue hazard_sample = Some (MINUS_ONE, hazard_sample)"
  by (rule dequeue_without_tid [of _ "[1]"]) (simp_all add: hazard_sample_def)

end
