(* ===== verification/Lfq_Threads.thy ===== *)
theory Lfq_Threads
  imports Lfq
begin

text \<open>
  The operations of \<open>lfq.c\<close> as several threads run them on one queue: every access to shared memory is a
  step of its own, and steps of different threads interleave in any order.  A program counter holds the
  place in the code and the local variables that are still needed there.  Memory is sequentially
  consistent, as the full barriers and the atomic built-ins of the code mean it to be.
\<close>

section \<open>Reclaiming: inHP, enpool, free\_pool and safe\_free\<close>

text \<open>
  The names say what the next step does; \<open>x\<close> is the argument \<open>lfn\<close> of \<open>safe_free\<close>, \<open>p\<close> the local of
  \<open>free_pool\<close> and the first \<open>int\<close> there its loop counter; the \<open>int\<close> of a scan is the counter of \<open>inHP\<close>.
\<close>

datatype free_pc =
    Sf_can_free addr
  | Sf_scan addr int
  | Sf_lock addr
  | Sf_poison addr
  | Sf_free addr
  | Sf_unlock
  | Ep_null addr
  | Ep_xchg addr
  | Ep_link addr addr
  | Fp_lock
  | Fp_head int
  | Fp_can_free int addr
  | Fp_free_next int addr
  | Fp_scan int addr int
  | Fp_next int addr
  | Fp_set_head int addr addr
  | Fp_free int addr
  | Fp_unlock
  | Fp_return

fun free_step :: "free_pc \<Rightarrow> lfq \<Rightarrow> (free_pc \<times> lfq) option" where
  "free_step (Sf_can_free x) s = do {
     n \<leftarrow> load x s;
     Some (if n_can_free n \<noteq> 0 then Sf_scan x 0 else Ep_null x, s)
   }"
| "free_step (Sf_scan x i) s =
     (if i < MAXHPSIZE s
      then do { p \<leftarrow> read_HP s i; Some (if p = x then Ep_null x else Sf_scan x (i + 1), s) }
      else Some (Sf_lock x, s))"
| "free_step (Sf_lock x) s =
     (let (won, f) = CAS (is_freeing s) 0 1
      in Some (if won then Sf_poison x else Ep_null x, s\<lparr>is_freeing := f\<rparr>))"
| "free_step (Sf_poison x) s = do {
     s \<leftarrow> store x (n_next_update (\<lambda>_. MINUS_ONE)) s;
     Some (Sf_free x, s)
   }"
| "free_step (Sf_free x) s = do { s \<leftarrow> free_node x s; Some (Sf_unlock, s) }"
| "free_step Sf_unlock s = Some (Fp_lock, s\<lparr>is_freeing := 0\<rparr>)"
| "free_step (Ep_null x) s = do {
     s \<leftarrow> store x (n_next_update (\<lambda>_. NULL)) s;
     Some (Ep_xchg x, s)
   }"
| "free_step (Ep_xchg x) s =
     (let (old_tail, fpt') = XCHG (fpt s) x in Some (Ep_link x old_tail, s\<lparr>fpt := fpt'\<rparr>))"
| "free_step (Ep_link x old_tail) s = do {
     s \<leftarrow> store old_tail (n_next_update (\<lambda>_. x)) s;
     Some (Fp_lock, s)
   }"
| "free_step Fp_lock s =
     (let (won, f) = CAS (is_freeing s) 0 1
      in Some (if won then Fp_head 0 else Fp_return, s\<lparr>is_freeing := f\<rparr>))"
| "free_step (Fp_head i) s = Some (if i < MAXFREE then Fp_can_free i (fph s) else Fp_unlock, s)"
| "free_step (Fp_can_free i p) s = do {
     n \<leftarrow> load p s;
     Some (if n_can_free n = 0 then Fp_unlock else Fp_free_next i p, s)
   }"
| "free_step (Fp_free_next i p) s = do {
     n \<leftarrow> load p s;
     Some (if n_next n = NULL then Fp_unlock else Fp_scan i p 0, s)
   }"
| "free_step (Fp_scan i p j) s =
     (if j < MAXHPSIZE s
      then do { h \<leftarrow> read_HP s j; Some (if h = p then Fp_unlock else Fp_scan i p (j + 1), s) }
      else Some (Fp_next i p, s))"
| "free_step (Fp_next i p) s = do { n \<leftarrow> load p s; Some (Fp_set_head i p (n_next n), s) }"
| "free_step (Fp_set_head i p nxt) s = Some (Fp_free i p, s\<lparr>fph := nxt\<rparr>)"
| "free_step (Fp_free i p) s = do { s \<leftarrow> free_node p s; Some (Fp_head (i + 1), s) }"
| "free_step Fp_unlock s = Some (Fp_return, s\<lparr>is_freeing := 0\<rparr>)"
| "free_step Fp_return s = Some (Fp_return, s)"

section \<open>Enqueue and dequeue\<close>

text \<open>
  \<open>Idle\<close> is a thread outside the queue, \<open>Enq_ret\<close> and \<open>Deq_ret\<close> a call about to return.  Of a dequeue, \<open>t\<close>
  is the thread id \<open>tid\<close>, then come \<open>old_head\<close>, \<open>new_head\<close> and \<open>ret\<close>.
\<close>

datatype pc =
    Idle
  | Enq_calloc addr
  | Enq_data addr addr
  | Enq_xchg addr addr
  | Enq_link addr addr
  | Enq_ret int
  | Tid_read int
  | Tid_cas int
  | Deq_head int
  | Deq_hp int addr
  | Deq_check int addr
  | Deq_next int addr
  | Deq_empty int
  | Deq_cas int addr addr
  | Deq_clear int addr addr
  | Deq_data int addr addr
  | Deq_can_free int addr addr addr
  | Deq_safe_free int addr free_pc
  | Tid_free int addr
  | Deq_ret addr

text \<open>\<open>a\<close> is what \<open>calloc\<close> returns.\<close>

fun enqueue_step :: "addr \<Rightarrow> pc \<Rightarrow> lfq \<Rightarrow> (pc \<times> lfq) option" where
  "enqueue_step a (Enq_calloc d) s =
     Some (if a = NULL then (Enq_ret (- ENOMEM), s) else (Enq_data a d, calloc_node a s))"
| "enqueue_step a (Enq_data n d) s = do {
     s \<leftarrow> store n (n_data_update (\<lambda>_. d)) s;
     Some (Enq_xchg n d, s)
   }"
| "enqueue_step a (Enq_xchg n d) s =
     (let (old_tail, tail') = XCHG (tail s) n in Some (Enq_link n old_tail, s\<lparr>tail := tail'\<rparr>))"
| "enqueue_step a (Enq_link n old_tail) s = do {
     s \<leftarrow> store old_tail (n_next_update (\<lambda>_. n)) s;
     Some (Enq_ret 0, s)
   }"
| "enqueue_step a pc s = None"

fun dequeue_step :: "pc \<Rightarrow> lfq \<Rightarrow> (pc \<times> lfq) option" where
  "dequeue_step (Tid_read i) s =
     (if i < MAXHPSIZE s
      then do { v \<leftarrow> read_tid_map s i; Some (if v = 0 then Tid_cas i else Tid_read (i + 1), s) }
      else Some (Deq_ret MINUS_ONE, s))"
| "dequeue_step (Tid_cas i) s = do {
     v \<leftarrow> read_tid_map s i;
     let (won, v') = CAS v 0 1;
     s \<leftarrow> write_tid_map i v' s;
     Some (if won then Deq_head i else Tid_read (i + 1), s)
   }"
| "dequeue_step (Deq_head t) s = Some (Deq_hp t (head s), s)"
| "dequeue_step (Deq_hp t old_head) s = do {
     s \<leftarrow> write_HP t old_head s;
     Some (Deq_check t old_head, s)
   }"
| "dequeue_step (Deq_check t old_head) s =
     Some (if old_head \<noteq> head s then Deq_head t else Deq_next t old_head, s)"
| "dequeue_step (Deq_next t old_head) s = do {
     n \<leftarrow> load old_head s;
     Some (if n_next n = NULL then Deq_empty t else Deq_cas t old_head (n_next n), s)
   }"
| "dequeue_step (Deq_empty t) s = do { s \<leftarrow> write_HP t NULL s; Some (Tid_free t NULL, s) }"
| "dequeue_step (Deq_cas t old_head new_head) s =
     (let (won, h) = CAS (head s) old_head new_head
      in Some (if won then Deq_clear t old_head new_head else Deq_head t, s\<lparr>head := h\<rparr>))"
| "dequeue_step (Deq_clear t old_head new_head) s = do {
     s \<leftarrow> write_HP t NULL s;
     Some (Deq_data t old_head new_head, s)
   }"
| "dequeue_step (Deq_data t old_head new_head) s = do {
     n \<leftarrow> load new_head s;
     Some (Deq_can_free t old_head new_head (n_data n), s)
   }"
| "dequeue_step (Deq_can_free t old_head new_head ret) s = do {
     s \<leftarrow> store new_head (n_can_free_update (\<lambda>_. 1)) s;
     Some (Deq_safe_free t ret (Sf_can_free old_head), s)
   }"
| "dequeue_step (Deq_safe_free t ret fp) s =
     (if fp = Fp_return then Some (Tid_free t ret, s)
      else do { (fp, s) \<leftarrow> free_step fp s; Some (Deq_safe_free t ret fp, s) })"
| "dequeue_step (Tid_free t ret) s = do { s \<leftarrow> write_tid_map t 0 s; Some (Deq_ret ret, s) }"
| "dequeue_step pc s = None"

text \<open>The step of a thread inside a call; \<open>None\<close> is an undefined access.\<close>

fun enqueuing :: "pc \<Rightarrow> bool" where
  "enqueuing (Enq_calloc d) = True"
| "enqueuing (Enq_data n d) = True"
| "enqueuing (Enq_xchg n d) = True"
| "enqueuing (Enq_link n t) = True"
| "enqueuing pc = False"

fun running :: "pc \<Rightarrow> bool" where
  "running Idle = False"
| "running (Enq_ret r) = False"
| "running (Deq_ret v) = False"
| "running pc = True"

definition thread_step :: "addr \<Rightarrow> pc \<Rightarrow> lfq \<Rightarrow> (pc \<times> lfq) option" where
  "thread_step a pc s = (if enqueuing pc then enqueue_step a pc s else dequeue_step pc s)"

section \<open>Threads\<close>

record threads =
  queue :: lfq
  pcs :: "nat \<Rightarrow> pc"

datatype label =
    Call_enqueue nat addr
  | Return_enqueue nat int
  | Call_dequeue nat
  | Return_dequeue nat addr
  | Tau

definition goto :: "nat \<Rightarrow> pc \<Rightarrow> threads \<Rightarrow> threads" where
  "goto t pc c = c\<lparr>pcs := (pcs c)(t := pc)\<rparr>"

inductive threads_step :: "threads \<Rightarrow> label \<Rightarrow> threads \<Rightarrow> bool" where
  call_enqueue: "pcs c t = Idle \<Longrightarrow> threads_step c (Call_enqueue t d) (goto t (Enq_calloc d) c)"
| call_dequeue: "pcs c t = Idle \<Longrightarrow> threads_step c (Call_dequeue t) (goto t (Tid_read 0) c)"
| return_enqueue: "pcs c t = Enq_ret r \<Longrightarrow> threads_step c (Return_enqueue t r) (goto t Idle c)"
| return_dequeue: "pcs c t = Deq_ret v \<Longrightarrow> threads_step c (Return_dequeue t v) (goto t Idle c)"
| run: "running (pcs c t) \<Longrightarrow> nodes (queue c) a = None \<Longrightarrow>
        thread_step a (pcs c t) (queue c) = Some (pc, s) \<Longrightarrow>
        threads_step c Tau (goto t pc c\<lparr>queue := s\<rparr>)"

text \<open>No thread is inside an operation at the start.\<close>

definition threads_start :: "lfq \<Rightarrow> threads" where
  "threads_start s = \<lparr>queue = s, pcs = (\<lambda>t. Idle)\<rparr>"

text \<open>The calls and returns of a run of a step relation, and its last state.\<close>

inductive runs :: "('s \<Rightarrow> label \<Rightarrow> 's \<Rightarrow> bool) \<Rightarrow> 's \<Rightarrow> label list \<Rightarrow> 's \<Rightarrow> bool" for step where
  runs_nil: "runs step c [] c"
| runs_tau: "runs step c ls c' \<Longrightarrow> step c' Tau c'' \<Longrightarrow> runs step c ls c''"
| runs_label: "runs step c ls c' \<Longrightarrow> step c' l c'' \<Longrightarrow> l \<noteq> Tau \<Longrightarrow> runs step c (ls @ [l]) c''"

end
