(* ===== verification/Lfq_Resources.thy ===== *)
theory Lfq_Resources
  imports Lfq_Threads
begin

text \<open>
  The invariant of the queue under interleaving.  Every thread holds resources: nodes nobody else may write,
  the right to set one link, the right to read the data of a node, a thread id, the lock of the pool.
  What a thread knows of the store mentions only what it holds, and what a thread does leaves
  alone what the others hold.
\<close>

section \<open>Resources\<close>

text \<open>
  A new node before it is in the queue, a node taken out of queue or pool, the link of a node whose
  successor is already the tail, a node whose data is still to be read, a thread id, \<open>is_freeing\<close>.
\<close>

datatype resource =
    New addr
  | Retired addr
  | Link addr
  | Claim addr
  | Tid int
  | Lock

fun free_held :: "free_pc \<Rightarrow> resource set" where
  "free_held (Sf_can_free x) = {Retired x}"
| "free_held (Sf_scan x i) = {Retired x}"
| "free_held (Sf_lock x) = {Retired x}"
| "free_held (Sf_poison x) = {Retired x, Lock}"
| "free_held (Sf_free x) = {Retired x, Lock}"
| "free_held Sf_unlock = {Lock}"
| "free_held (Ep_null x) = {Retired x}"
| "free_held (Ep_xchg x) = {Retired x}"
| "free_held (Ep_link x old) = {Link old}"
| "free_held (Fp_free i p) = {Retired p, Lock}"
| "free_held Fp_lock = {}"
| "free_held Fp_return = {}"
| "free_held _ = {Lock}"

fun held :: "pc \<Rightarrow> resource set" where
  "held (Enq_data a d) = {New a}"
| "held (Enq_xchg a d) = {New a}"
| "held (Enq_link a old) = {Link old}"
| "held (Deq_head t) = {Tid t}"
| "held (Deq_hp t oh) = {Tid t}"
| "held (Deq_check t oh) = {Tid t}"
| "held (Deq_next t oh) = {Tid t}"
| "held (Deq_empty t) = {Tid t}"
| "held (Deq_cas t oh nh) = {Tid t}"
| "held (Deq_clear t oh nh) = {Tid t, Retired oh, Claim nh}"
| "held (Deq_data t oh nh) = {Tid t, Retired oh, Claim nh}"
| "held (Deq_can_free t oh nh ret) = {Tid t, Retired oh, Claim nh}"
| "held (Deq_safe_free t ret fp) = insert (Tid t) (free_held fp)"
| "held (Tid_free t ret) = {Tid t}"
| "held _ = {}"

text \<open>A validated hazard pointer: the thread may read the node though it does not hold it.\<close>

fun hazards :: "pc \<Rightarrow> (int \<times> addr) set" where
  "hazards (Deq_next t oh) = {(t, oh)}"
| "hazards (Deq_cas t oh nh) = {(t, oh)}"
| "hazards _ = {}"

definition news :: "resource set \<Rightarrow> addr set" where "news R = {x. New x \<in> R}"
definition retireds :: "resource set \<Rightarrow> addr set" where "retireds R = {x. Retired x \<in> R}"
definition links :: "resource set \<Rightarrow> addr set" where "links R = {x. Link x \<in> R}"
definition claims :: "resource set \<Rightarrow> addr set" where "claims R = {x. Claim x \<in> R}"
definition tids :: "resource set \<Rightarrow> int set" where "tids R = {t. Tid t \<in> R}"

lemma news_simps [simp]:
  "news {} = {}" "news (insert (New x) R) = insert x (news R)" "news (insert (Retired x) R) = news R"
  "news (insert (Link x) R) = news R" "news (insert (Claim x) R) = news R"
  "news (insert (Tid t) R) = news R" "news (insert Lock R) = news R" "news (R \<union> S) = news R \<union> news S"
  by (auto simp: news_def)

lemma retireds_simps [simp]:
  "retireds {} = {}" "retireds (insert (New x) R) = retireds R"
  "retireds (insert (Retired x) R) = insert x (retireds R)" "retireds (insert (Link x) R) = retireds R"
  "retireds (insert (Claim x) R) = retireds R" "retireds (insert (Tid t) R) = retireds R"
  "retireds (insert Lock R) = retireds R" "retireds (R \<union> S) = retireds R \<union> retireds S"
  by (auto simp: retireds_def)

lemma links_simps [simp]:
  "links {} = {}" "links (insert (New x) R) = links R" "links (insert (Retired x) R) = links R"
  "links (insert (Link x) R) = insert x (links R)" "links (insert (Claim x) R) = links R"
  "links (insert (Tid t) R) = links R" "links (insert Lock R) = links R"
  "links (R \<union> S) = links R \<union> links S"
  by (auto simp: links_def)

lemma claims_simps [simp]:
  "claims {} = {}" "claims (insert (New x) R) = claims R" "claims (insert (Retired x) R) = claims R"
  "claims (insert (Link x) R) = claims R" "claims (insert (Claim x) R) = insert x (claims R)"
  "claims (insert (Tid t) R) = claims R" "claims (insert Lock R) = claims R"
  "claims (R \<union> S) = claims R \<union> claims S"
  by (auto simp: claims_def)

lemma tids_simps [simp]:
  "tids {} = {}" "tids (insert (New x) R) = tids R" "tids (insert (Retired x) R) = tids R"
  "tids (insert (Link x) R) = tids R" "tids (insert (Claim x) R) = tids R"
  "tids (insert (Tid t) R) = insert t (tids R)" "tids (insert Lock R) = tids R"
  "tids (R \<union> S) = tids R \<union> tids S"
  by (auto simp: tids_def)

lemma held_in_iff [simp]:
  "New x \<in> R \<longleftrightarrow> x \<in> news R" "Retired x \<in> R \<longleftrightarrow> x \<in> retireds R" "Link x \<in> R \<longleftrightarrow> x \<in> links R"
  "Claim x \<in> R \<longleftrightarrow> x \<in> claims R" "Tid t \<in> R \<longleftrightarrow> t \<in> tids R"
  by (simp_all add: news_def retireds_def links_def claims_def tids_def)

section \<open>Chains with links still to be set\<close>

text \<open>
  A list of nodes, each linked to the one behind it; the nodes of \<open>P\<close> are not linked yet and have \<open>NULL\<close>
  there, as the last one has.
\<close>

fun chain :: "(addr \<rightharpoonup> lfq_node) \<Rightarrow> addr set \<Rightarrow> addr list \<Rightarrow> bool" where
  "chain h P [] = False"
| "chain h P [x] = (x \<notin> P \<and> (\<exists>n. h x = Some n \<and> n_next n = NULL))"
| "chain h P (x # y # xs) =
     ((\<exists>n. h x = Some n \<and> n_next n = (if x \<in> P then NULL else y)) \<and> chain h P (y # xs))"

fun succ_in :: "addr list \<Rightarrow> addr \<Rightarrow> addr \<Rightarrow> bool" where
  "succ_in (x # y # xs) a b = (a = x \<and> b = y \<or> succ_in (y # xs) a b)"
| "succ_in _ a b = False"

lemma succ_in_set: "succ_in xs a b \<Longrightarrow> a \<in> set xs \<and> b \<in> set (tl xs)"
  by (induction xs a b rule: succ_in.induct) auto

lemma succ_in_snoc: "xs \<noteq> [] \<Longrightarrow> succ_in (xs @ [c]) a b \<longleftrightarrow> succ_in xs a b \<or> a = last xs \<and> b = c"
  by (induction xs a b rule: succ_in.induct) auto

lemma chain_dom: "chain h P xs \<Longrightarrow> set xs \<subseteq> dom h"
  by (induction h P xs rule: chain.induct) auto

lemma chain_nonempty [simp]: "chain h P xs \<Longrightarrow> xs \<noteq> []"
  by auto

lemma chain_cong:
  assumes "chain h P xs" and "\<And>x n. x \<in> set xs \<Longrightarrow> h x = Some n \<Longrightarrow> \<exists>n'. h' x = Some n' \<and> n_next n' = n_next n"
    and "P \<inter> set xs = P' \<inter> set xs"
  shows "chain h' P' xs"
  using assms
proof (induction h P xs rule: chain.induct)
  case (2 h P x)
  then have "x \<notin> P'" by auto
  with 2 show ?case by fastforce
next
  case (3 h P x y xs)
  have "chain h' P' (y # xs)" using 3 by (intro "3.IH") auto
  moreover have "x \<in> P \<longleftrightarrow> x \<in> P'" using "3.prems"(3) by auto
  moreover obtain n where "h x = Some n" "n_next n = (if x \<in> P then NULL else y)" using "3.prems"(1) by auto
  moreover from this(1) obtain n' where "h' x = Some n'" "n_next n' = n_next n" using "3.prems"(2) by force
  ultimately show ?case by simp
qed simp

lemma chain_last: "chain h P xs \<Longrightarrow> last xs \<notin> P \<and> (\<exists>n. h (last xs) = Some n \<and> n_next n = NULL)"
  by (induction h P xs rule: chain.induct) auto

lemma chain_snoc:
  assumes "chain h P xs" and "distinct (xs @ [a])" and "h a = Some n" and "n_next n = NULL" and "a \<notin> P"
  shows "chain h (insert (last xs) P) (xs @ [a])"
  using assms
proof (induction h P xs rule: chain.induct)
  case (3 h P x y xs)
  then have "x \<noteq> last (y # xs)" by (metis distinct.simps(2) last_in_set list.distinct(1) append_Cons distinct_append)
  with 3 show ?case by auto
qed auto

lemma chain_link:
  assumes "chain h P xs" and "distinct xs" and "succ_in xs x y" and "x \<in> P" and "h x = Some n"
    and "n_next n' = y"
  shows "chain (h(x \<mapsto> n')) (P - {x}) xs"
  using assms
proof (induction h P xs rule: chain.induct)
  case (3 h P a b xs)
  show ?case
  proof (cases "a = x")
    case True
    with "3.prems" have "b = y" by (auto dest: succ_in_set)
    moreover have "chain (h(x \<mapsto> n')) (P - {x}) (b # xs)"
    proof (rule chain_cong)
      show "chain h P (b # xs)" using "3.prems"(1) by simp
      have x: "x \<notin> set (b # xs)" using "3.prems"(2) True by simp
      then show "P \<inter> set (b # xs) = (P - {x}) \<inter> set (b # xs)" by blast
      show "\<exists>m'. (h(x \<mapsto> n')) z = Some m' \<and> n_next m' = n_next m" if "z \<in> set (b # xs)" "h z = Some m" for z m
        using that x by (cases "z = x") auto
    qed
    ultimately show ?thesis using True "3.prems"(4,6) by (simp del: fun_upd_apply add: fun_upd_same)
  next
    case False
    then have "chain (h(x \<mapsto> n')) (P - {x}) (b # xs)" using "3.prems" by (intro "3.IH") simp_all
    moreover have "a \<in> P - {x} \<longleftrightarrow> a \<in> P" using False by simp
    moreover have "(h(x \<mapsto> n')) a = h a" using False by simp
    ultimately show ?thesis using "3.prems"(1) by (simp only: chain.simps)
  qed
next
  case (2 h P a)
  then show ?case by simp
next
  case (1 h P)
  then show ?case by simp
qed

end
