(* ===== verification/Lfq_Threads_Inv.thy ===== *)
theory Lfq_Threads_Inv
  imports Lfq_Resources
begin

text \<open>
  The invariant of a queue that several threads use, in two parts: what holds of the shared store given the
  resources the threads hold, and what each thread knows at its place in the code.
\<close>

section \<open>The nodes\<close>

text \<open>
  Queue, pool and the nodes the threads hold are the allocated nodes, each once.  A node can be freed unless it is
  new, waiting in the queue, or its data is still to be read.
\<close>

definition heap_ok :: "(addr \<rightharpoonup> lfq_node) \<Rightarrow> resource set \<Rightarrow> addr list \<Rightarrow> addr list \<Rightarrow> bool" where
  "heap_ok h R q pl \<longleftrightarrow>
     distinct (q @ pl) \<and> chain h (links R) q \<and> chain h (links R) pl \<and> links R \<subseteq> set q \<union> set pl \<and>
     dom h = set q \<union> set pl \<union> news R \<union> retireds R \<and> NULL \<notin> dom h \<and>
     (news R \<union> retireds R) \<inter> (set q \<union> set pl) = {} \<and> news R \<inter> (retireds R \<union> claims R) = {} \<and>
     claims R \<subseteq> set q \<union> set pl \<union> retireds R - set (tl q) \<and>
     (\<forall>x n. h x = Some n \<longrightarrow> n_can_free n = (if x \<in> set (tl q) \<union> claims R \<union> news R then 0 else 1))"

lemma heap_ok_cong:
  "news R' = news R \<Longrightarrow> retireds R' = retireds R \<Longrightarrow> links R' = links R \<Longrightarrow> claims R' = claims R \<Longrightarrow>
   heap_ok h R' q pl = heap_ok h R q pl"
  unfolding heap_ok_def by simp

lemma heap_ok_insert [simp]:
  "heap_ok h (insert (Tid t) R) q pl = heap_ok h R q pl" "heap_ok h (insert Lock R) q pl = heap_ok h R q pl"
  by (rule heap_ok_cong; simp)+

lemma heap_okI:
  assumes "distinct q" "distinct pl" "set q \<inter> set pl = {}"
    and "chain h (links R) q" and "chain h (links R) pl" and "links R \<subseteq> set q \<union> set pl"
    and "\<And>x. h x = None \<longleftrightarrow> x \<notin> set q \<union> set pl \<union> news R \<union> retireds R" and "h NULL = None"
    and "\<And>x. x \<in> news R \<union> retireds R \<Longrightarrow> x \<notin> set q \<union> set pl"
    and "\<And>x. x \<in> news R \<Longrightarrow> x \<notin> retireds R \<and> x \<notin> claims R"
    and "claims R \<subseteq> set q \<union> set pl \<union> retireds R" "\<And>x. x \<in> claims R \<Longrightarrow> x \<notin> set (tl q)"
    and "\<And>x n. h x = Some n \<Longrightarrow> n_can_free n = (if x \<in> set (tl q) \<or> x \<in> claims R \<or> x \<in> news R then 0 else 1)"
  shows "heap_ok h R q pl"
proof -
  have "dom h = set q \<union> set pl \<union> news R \<union> retireds R" proof (rule set_eqI)
    show "x \<in> dom h \<longleftrightarrow> x \<in> set q \<union> set pl \<union> news R \<union> retireds R" for x
      using assms(7) [of x] by (simp only: domIff) blast
  qed
  moreover have "claims R \<subseteq> set q \<union> set pl \<union> retireds R - set (tl q)" using assms(11,12) by blast
  moreover have "NULL \<notin> dom h" using assms(8) by (simp add: domIff)
  moreover have "(news R \<union> retireds R) \<inter> (set q \<union> set pl) = {}" "news R \<inter> (retireds R \<union> claims R) = {}"
    using assms(9,10) by blast+
  ultimately show ?thesis using assms(1-6,13) unfolding heap_ok_def by simp
qed

lemma heap_okD:
  assumes "heap_ok h R q pl"
  shows heap_distinct: "distinct q" "distinct pl" "set q \<inter> set pl = {}"
    and heap_q: "chain h (links R) q" and heap_pl: "chain h (links R) pl"
    and heap_links: "links R \<subseteq> set q \<union> set pl"
    and heap_dom: "\<And>x. h x = None \<longleftrightarrow> x \<notin> set q \<union> set pl \<union> news R \<union> retireds R" and heap_null: "h NULL = None"
    and heap_held: "\<And>x. x \<in> news R \<union> retireds R \<Longrightarrow> x \<notin> set q \<union> set pl"
    and heap_new: "\<And>x. x \<in> news R \<Longrightarrow> x \<notin> retireds R \<and> x \<notin> claims R"
    and heap_claims: "claims R \<subseteq> set q \<union> set pl \<union> retireds R" "\<And>x. x \<in> claims R \<Longrightarrow> x \<notin> set (tl q)"
    and heap_can_free: "\<And>x n. h x = Some n \<Longrightarrow>
      n_can_free n = (if x \<in> set (tl q) \<or> x \<in> claims R \<or> x \<in> news R then 0 else 1)"
proof -
  note ok = assms [unfolded heap_ok_def]
  have d: "dom h = set q \<union> set pl \<union> news R \<union> retireds R" "NULL \<notin> dom h" using ok by blast+
  show "h x = None \<longleftrightarrow> x \<notin> set q \<union> set pl \<union> news R \<union> retireds R" for x
    unfolding d(1) [symmetric] by auto
  show "h NULL = None" using d(2) by (simp only: domIff not_not)
  show "distinct q" "distinct pl" "set q \<inter> set pl = {}" "chain h (links R) q" "chain h (links R) pl"
    "links R \<subseteq> set q \<union> set pl" "x \<in> news R \<union> retireds R \<Longrightarrow> x \<notin> set q \<union> set pl"
    "x \<in> news R \<Longrightarrow> x \<notin> retireds R \<and> x \<notin> claims R"
    "claims R \<subseteq> set q \<union> set pl \<union> retireds R" "x \<in> claims R \<Longrightarrow> x \<notin> set (tl q)"
    "h x = Some n \<Longrightarrow> n_can_free n = (if x \<in> set (tl q) \<or> x \<in> claims R \<or> x \<in> news R then 0 else 1)" for x n
    using ok by (simp_all add: Un_assoc) blast+
qed

lemma chain_upd:
  assumes "chain h P xs" and "P' \<inter> set xs = P \<inter> set xs"
    and "x \<in> set xs \<Longrightarrow> \<exists>n n'. h x = Some n \<and> v = Some n' \<and> n_next n' = n_next n"
  shows "chain (h(x := v)) P' xs"
  using assms by (intro chain_cong [OF assms(1)]) auto

lemma heap_calloc:
  assumes "heap_ok h R q pl" and "h a = None" and "a \<noteq> NULL"
  shows "heap_ok (h(a \<mapsto> zero_node)) (insert (New a) R) q pl"
proof -
  note ok = heap_okD [OF assms(1)]
  have a: "a \<notin> set q" "a \<notin> set pl" "a \<notin> claims R" "a \<notin> retireds R" using ok(7) [of a] ok(11) assms(2) by auto
  show ?thesis
  proof (rule heap_okI)
    show "chain (h(a \<mapsto> zero_node)) (links (insert (New a) R)) q" "chain (h(a \<mapsto> zero_node)) (links (insert (New a) R)) pl"
      using ok(4,5) a by (auto intro: chain_upd)
  qed (use ok a assms(3) in \<open>auto simp: zero_node_def split: if_splits\<close>)
qed

lemma heap_write_new:
  assumes "heap_ok h (insert (New a) R) q pl" and "n_can_free n = 0"
  shows "heap_ok (h(a \<mapsto> n)) (insert (New a) R) q pl"
proof -
  note ok = heap_okD [OF assms(1)]
  show ?thesis
  proof (rule heap_okI)
    show "chain (h(a \<mapsto> n)) (links (insert (New a) R)) q" "chain (h(a \<mapsto> n)) (links (insert (New a) R)) pl"
      using ok(4,5,9) by (auto intro: chain_upd)
  qed (use ok assms(2) in \<open>auto split: if_splits\<close>)
qed

lemma heap_enqueue:
  assumes "heap_ok h (insert (New a) R) q pl" and "a \<notin> news R" and "h a = Some n" and "n_next n = NULL"
  shows "heap_ok h (insert (Link (last q)) R) (q @ [a]) pl"
proof -
  note ok = heap_okD [OF assms(1)]
  have q: "chain h (links R) q" "chain h (links R) pl" "q \<noteq> []" using ok(4,5) by auto
  have a: "a \<notin> set q" "a \<notin> set pl" "a \<notin> claims R" "a \<notin> retireds R" "a \<notin> links R" using ok(6) ok(9,10) [of a] by auto
  have l: "last q \<in> set q" "last q \<notin> set pl" using q(3) ok(3) by (auto simp: disjoint_iff)
  have tl: "tl (q @ [a]) = tl q @ [a]" using q(3) by simp
  show ?thesis
  proof (rule heap_okI)
    show "chain h (links (insert (Link (last q)) R)) (q @ [a])"
      using q(1) ok(1) a assms(3,4) by (auto intro: chain_snoc)
    show "chain h (links (insert (Link (last q)) R)) pl"
      using l by (intro chain_cong [OF q(2)]) auto
  qed (use ok a l assms(2) in \<open>auto simp: tl split: if_splits\<close>)
qed

lemma heap_link:
  assumes "heap_ok h (insert (Link x) R) q pl" and "x \<notin> links R" and "succ_in q x y \<or> succ_in pl x y"
    and "h x = Some n"
  shows "heap_ok (h(x \<mapsto> n\<lparr>n_next := y\<rparr>)) R q pl"
proof -
  note ok = heap_okD [OF assms(1)]
  have P: "insert x (links R) - {x} = links R" using assms(2) by auto
  have lk: "chain (h(x \<mapsto> n\<lparr>n_next := y\<rparr>)) (links R) xs"
    if "chain h (insert x (links R)) xs" "distinct xs" "x \<in> set xs \<Longrightarrow> succ_in xs x y" for xs
  proof (cases "x \<in> set xs")
    case True
    have "chain (h(x \<mapsto> n\<lparr>n_next := y\<rparr>)) (insert x (links R) - {x}) xs"
      using that True assms(4) by (intro chain_link) auto
    then show ?thesis unfolding P .
  next
    case False
    with that(1) show ?thesis by (intro chain_upd [OF that(1)]) auto
  qed
  have s: "x \<in> set q \<Longrightarrow> succ_in q x y" "x \<in> set pl \<Longrightarrow> succ_in pl x y"
    using assms(3) ok(3) succ_in_set [of pl x y] succ_in_set [of q x y] by auto
  show ?thesis
  proof (rule heap_okI)
    show "chain (h(x \<mapsto> n\<lparr>n_next := y\<rparr>)) (links R) q" "chain (h(x \<mapsto> n\<lparr>n_next := y\<rparr>)) (links R) pl"
      using ok(1,2,4,5) s by (auto intro!: lk)
    show "n_can_free m = (if z \<in> set (tl q) \<or> z \<in> claims R \<or> z \<in> news R then 0 else 1)"
      if "(h(x \<mapsto> n\<lparr>n_next := y\<rparr>)) z = Some m" for z m
      using that ok(13) [of z] assms(4) by (cases "z = x") auto
    show "(h(x \<mapsto> n\<lparr>n_next := y\<rparr>)) z = None \<longleftrightarrow> z \<notin> set q \<union> set pl \<union> news R \<union> retireds R" for z
      using ok(7) [of z] assms(4) by (cases "z = x") auto
  qed (use ok assms(4) in auto)
qed

lemma heap_dequeue:
  assumes "heap_ok h R (x # y # r) pl" and "x \<notin> links R"
  shows "heap_ok h (insert (Retired x) (insert (Claim y) R)) (y # r) pl"
proof -
  note ok = heap_okD [OF assms(1)]
  show ?thesis by (rule heap_okI) (use ok assms(2) in \<open>auto split: if_splits\<close>)
qed

lemma heap_mark:
  assumes "heap_ok h (insert (Claim y) R) q pl" and "y \<notin> claims R" and "h y = Some n"
  shows "heap_ok (h(y \<mapsto> n\<lparr>n_can_free := 1\<rparr>)) R q pl"
proof -
  note ok = heap_okD [OF assms(1)]
  show ?thesis
  proof (rule heap_okI)
    show "chain (h(y \<mapsto> n\<lparr>n_can_free := 1\<rparr>)) (links R) q" "chain (h(y \<mapsto> n\<lparr>n_can_free := 1\<rparr>)) (links R) pl"
      using ok(4,5) assms(3) by (auto intro: chain_upd)
  qed (use ok assms(2,3) in \<open>auto split: if_splits\<close>)
qed

lemma heap_write_retired:
  assumes "heap_ok h (insert (Retired x) R) q pl" and "h x = Some n" and "n_can_free n' = n_can_free n"
  shows "heap_ok (h(x \<mapsto> n')) (insert (Retired x) R) q pl"
proof -
  note ok = heap_okD [OF assms(1)]
  show ?thesis
  proof (rule heap_okI)
    show "chain (h(x \<mapsto> n')) (links (insert (Retired x) R)) q" "chain (h(x \<mapsto> n')) (links (insert (Retired x) R)) pl"
      using ok(4,5,9) by (auto intro: chain_upd)
  qed (use ok assms(2,3) in \<open>auto split: if_splits\<close>)
qed

lemma heap_free:
  assumes "heap_ok h (insert (Retired x) R) q pl" and "x \<notin> retireds R" and "h x = Some n" and "n_can_free n \<noteq> 0"
  shows "heap_ok (h(x := None)) R q pl"
proof -
  note ok = heap_okD [OF assms(1)]
  have "x \<notin> claims R" "x \<notin> news R" using ok(13) [OF assms(3)] assms(4) by (auto split: if_splits)
  then show ?thesis
  proof (intro heap_okI)
    show "chain (h(x := None)) (links R) q" "chain (h(x := None)) (links R) pl"
      using ok(4,5,9) by (auto intro: chain_upd)
  qed (use ok assms(2) in \<open>auto split: if_splits\<close>)
qed

lemma heap_enpool:
  assumes "heap_ok h (insert (Retired x) R) q pl" and "x \<notin> retireds R" and "h x = Some n" and "n_next n = NULL"
  shows "heap_ok h (insert (Link (last pl)) R) q (pl @ [x])"
proof -
  note ok = heap_okD [OF assms(1)]
  have q: "chain h (links R) q" "chain h (links R) pl" "pl \<noteq> []" using ok(4,5) by auto
  have x: "x \<notin> set q" "x \<notin> set pl" "x \<notin> links R" "x \<notin> news R" using ok(6,9,10) by auto
  have l: "last pl \<in> set pl" "last pl \<notin> set q" using q(3) ok(3) by (auto simp: disjoint_iff)
  show ?thesis
  proof (rule heap_okI)
    show "chain h (links (insert (Link (last pl)) R)) (pl @ [x])"
      using q(2) ok(2) x assms(3,4) by (auto intro: chain_snoc)
    show "chain h (links (insert (Link (last pl)) R)) q"
      using l by (intro chain_cong [OF q(1)]) auto
  qed (use ok x l assms(2) in \<open>auto split: if_splits\<close>)
qed

lemma heap_unpool:
  assumes "heap_ok h R q (p # n # r)" and "p \<notin> links R"
  shows "heap_ok h (insert (Retired p) R) q (n # r)"
proof -
  note ok = heap_okD [OF assms(1)]
  show ?thesis by (rule heap_okI) (use ok assms(2) in \<open>auto split: if_splits\<close>)
qed

section \<open>The rest of the shared state\<close>

definition ends_ok :: "lfq \<Rightarrow> addr list \<Rightarrow> addr list \<Rightarrow> bool" where
  "ends_ok s q pl \<longleftrightarrow> head s = hd q \<and> tail s = last q \<and> fph s = hd pl \<and> fpt s = last pl"

definition lock_ok :: "lfq \<Rightarrow> resource set \<Rightarrow> bool" where
  "lock_ok s R \<longleftrightarrow> is_freeing s = (if Lock \<in> R then 1 else 0)"

text \<open>The thread ids in use; a hazard pointer that is not \<open>NULL\<close> belongs to one of them.\<close>

definition ids_ok :: "lfq \<Rightarrow> int set \<Rightarrow> bool" where
  "ids_ok s T \<longleftrightarrow>
     (\<exists>hp tm. HP s = Some hp \<and> tid_map s = Some tm \<and> 0 < MAXHPSIZE s \<and>
        MAXHPSIZE s \<le> int (length hp) \<and> MAXHPSIZE s \<le> int (length tm) \<and> T \<subseteq> {0..<MAXHPSIZE s} \<and>
        (\<forall>i < length tm. tm ! i = (if int i \<in> T then 1 else 0)) \<and>
        (\<forall>i < length hp. int i \<notin> T \<longrightarrow> hp ! i = NULL))"

text \<open>Validated hazard pointers stand in \<open>HP\<close>, their nodes are allocated, not new (\<open>N\<close>), and do not wait
  in the queue.\<close>

definition hazards_ok :: "lfq \<Rightarrow> int set \<Rightarrow> addr set \<Rightarrow> (int \<times> addr) set \<Rightarrow> addr list \<Rightarrow> bool" where
  "hazards_ok s T N H q \<longleftrightarrow>
     (\<forall>(t, x) \<in> H. t \<in> T \<and> read_HP s t = Some x \<and> nodes s x \<noteq> None \<and> x \<notin> N \<and> x \<notin> set (tl q))"

definition shared_ok :: "lfq \<Rightarrow> resource set \<Rightarrow> (int \<times> addr) set \<Rightarrow> addr list \<Rightarrow> addr list \<Rightarrow> bool" where
  "shared_ok s R H q pl \<longleftrightarrow>
     heap_ok (nodes s) R q pl \<and> ends_ok s q pl \<and> lock_ok s R \<and> ids_ok s (tids R) \<and> hazards_ok s (tids R) (news R) H q"

section \<open>What a thread knows\<close>

definition next_is :: "lfq \<Rightarrow> addr \<Rightarrow> addr \<Rightarrow> bool" where
  "next_is s x y \<longleftrightarrow> (\<exists>n. nodes s x = Some n \<and> n_next n = y)"

definition linked :: "lfq \<Rightarrow> addr \<Rightarrow> bool" where
  "linked s x \<longleftrightarrow> (\<exists>y. next_is s x y \<and> y \<noteq> NULL)"

definition may_free :: "lfq \<Rightarrow> addr \<Rightarrow> bool" where
  "may_free s x \<longleftrightarrow> (\<exists>n. nodes s x = Some n \<and> n_can_free n \<noteq> 0)"

definition data_is :: "lfq \<Rightarrow> addr \<Rightarrow> addr \<Rightarrow> bool" where
  "data_is s x d \<longleftrightarrow> (\<exists>n. nodes s x = Some n \<and> n_data n = d)"

text \<open>No validated hazard pointer below \<open>i\<close>, or none at all, holds \<open>x\<close>.\<close>

definition scanned :: "(int \<times> addr) set \<Rightarrow> addr \<Rightarrow> int \<Rightarrow> bool" where
  "scanned H x i \<longleftrightarrow> 0 \<le> i \<and> (\<forall>t. (t, x) \<in> H \<longrightarrow> i \<le> t)"

definition unread :: "(int \<times> addr) set \<Rightarrow> addr \<Rightarrow> bool" where
  "unread H x \<longleftrightarrow> (\<forall>t. (t, x) \<notin> H)"

fun free_knows :: "lfq \<Rightarrow> (int \<times> addr) set \<Rightarrow> addr list \<Rightarrow> free_pc \<Rightarrow> bool" where
  "free_knows s H pl (Sf_scan x i) = (may_free s x \<and> scanned H x i)"
| "free_knows s H pl (Sf_lock x) = (may_free s x \<and> unread H x)"
| "free_knows s H pl (Sf_poison x) = (may_free s x \<and> unread H x)"
| "free_knows s H pl (Sf_free x) = (may_free s x \<and> unread H x)"
| "free_knows s H pl (Ep_xchg x) = next_is s x NULL"
| "free_knows s H pl (Ep_link x old) = succ_in pl old x"
| "free_knows s H pl (Fp_can_free i p) = (p = hd pl)"
| "free_knows s H pl (Fp_free_next i p) = (p = hd pl \<and> may_free s p)"
| "free_knows s H pl (Fp_scan i p j) = (p = hd pl \<and> may_free s p \<and> linked s p \<and> scanned H p j)"
| "free_knows s H pl (Fp_next i p) = (p = hd pl \<and> may_free s p \<and> linked s p \<and> unread H p)"
| "free_knows s H pl (Fp_set_head i p n) =
     (p = hd pl \<and> may_free s p \<and> unread H p \<and> next_is s p n \<and> n \<noteq> NULL)"
| "free_knows s H pl (Fp_free i p) = (may_free s p \<and> unread H p)"
| "free_knows s H pl _ = True"

fun knows :: "lfq \<Rightarrow> (int \<times> addr) set \<Rightarrow> addr list \<Rightarrow> addr list \<Rightarrow> pc \<Rightarrow> bool" where
  "knows s H q pl (Enq_data a d) = (nodes s a = Some zero_node)"
| "knows s H q pl (Enq_xchg a d) = (nodes s a = Some \<lparr>n_data = d, n_next = NULL, n_can_free = 0\<rparr>)"
| "knows s H q pl (Enq_link a old) = succ_in q old a"
| "knows s H q pl (Tid_read i) = (0 \<le> i)"
| "knows s H q pl (Tid_cas i) = (0 \<le> i \<and> i < MAXHPSIZE s)"
| "knows s H q pl (Deq_check t oh) = (read_HP s t = Some oh)"
| "knows s H q pl (Deq_cas t oh nh) = (nh \<noteq> NULL \<and> (hd q = oh \<longrightarrow> next_is s oh nh))"
| "knows s H q pl (Deq_data t oh nh) = (read_HP s t = Some NULL)"
| "knows s H q pl (Deq_can_free t oh nh ret) = (read_HP s t = Some NULL)"
| "knows s H q pl (Deq_safe_free t ret fp) = (read_HP s t = Some NULL \<and> free_knows s H pl fp)"
| "knows s H q pl (Tid_free t ret) = (read_HP s t = Some NULL)"
| "knows s H q pl _ = True"

section \<open>What a step leaves alone\<close>

text \<open>\<open>R\<close> and \<open>H\<close> are the resources and hazards of another thread.\<close>

definition leaves_alone ::
  "resource set \<Rightarrow> (int \<times> addr) set \<Rightarrow> lfq \<Rightarrow> addr list \<Rightarrow> addr list \<Rightarrow> lfq \<Rightarrow> addr list \<Rightarrow> addr list \<Rightarrow> bool" where
  "leaves_alone R H s q pl s' q' pl' \<longleftrightarrow>
     MAXHPSIZE s' = MAXHPSIZE s \<and>
     (\<forall>x \<in> news R. nodes s' x = nodes s x) \<and>
     (\<forall>x \<in> retireds R. (\<forall>y. next_is s x y \<longrightarrow> next_is s' x y) \<and> (may_free s x \<longrightarrow> may_free s' x)) \<and>
     (\<forall>x \<in> claims R. \<forall>d. data_is s x d \<longrightarrow> data_is s' x d) \<and>
     (\<forall>x \<in> links R. \<forall>y. (succ_in q x y \<longrightarrow> succ_in q' x y) \<and> (succ_in pl x y \<longrightarrow> succ_in pl' x y)) \<and>
     (\<forall>t \<in> tids R. read_HP s' t = read_HP s t) \<and>
     (\<forall>(t, x) \<in> H. hd q' = x \<longrightarrow> hd q = x \<and> (\<forall>y. y \<noteq> NULL \<and> next_is s x y \<longrightarrow> next_is s' x y)) \<and>
     (Lock \<in> R \<longrightarrow> hd pl' = hd pl \<and> (may_free s (hd pl) \<longrightarrow> may_free s' (hd pl)) \<and>
        (\<forall>y. y \<noteq> NULL \<and> next_is s (hd pl) y \<longrightarrow> next_is s' (hd pl) y))"

lemma leaves_aloneI:
  assumes "MAXHPSIZE s' = MAXHPSIZE s"
    and "\<And>x. x \<in> news R \<Longrightarrow> nodes s' x = nodes s x"
    and "\<And>x y. x \<in> retireds R \<Longrightarrow> next_is s x y \<Longrightarrow> next_is s' x y"
    and "\<And>x. x \<in> retireds R \<Longrightarrow> may_free s x \<Longrightarrow> may_free s' x"
    and "\<And>x d. x \<in> claims R \<Longrightarrow> data_is s x d \<Longrightarrow> data_is s' x d"
    and "\<And>x y. x \<in> links R \<Longrightarrow> succ_in q x y \<Longrightarrow> succ_in q' x y"
    and "\<And>x y. x \<in> links R \<Longrightarrow> succ_in pl x y \<Longrightarrow> succ_in pl' x y"
    and "\<And>t. t \<in> tids R \<Longrightarrow> read_HP s' t = read_HP s t"
    and "\<And>t x. (t, x) \<in> H \<Longrightarrow> hd q' = x \<Longrightarrow> hd q = x"
    and "\<And>t x y. (t, x) \<in> H \<Longrightarrow> hd q' = x \<Longrightarrow> y \<noteq> NULL \<Longrightarrow> next_is s x y \<Longrightarrow> next_is s' x y"
    and "Lock \<in> R \<Longrightarrow> hd pl' = hd pl"
    and "Lock \<in> R \<Longrightarrow> may_free s (hd pl) \<Longrightarrow> may_free s' (hd pl)"
    and "\<And>y. Lock \<in> R \<Longrightarrow> y \<noteq> NULL \<Longrightarrow> next_is s (hd pl) y \<Longrightarrow> next_is s' (hd pl) y"
  shows "leaves_alone R H s q pl s' q' pl'"
  unfolding leaves_alone_def
proof (intro conjI)
  show "\<forall>(t, x) \<in> H. hd q' = x \<longrightarrow> hd q = x \<and> (\<forall>y. y \<noteq> NULL \<and> next_is s x y \<longrightarrow> next_is s' x y)"
    using assms(9,10) by fast
qed (use assms(1-8,11-13) in simp_all)

lemma leaves_aloneD:
  assumes "leaves_alone R H s q pl s' q' pl'"
  shows "MAXHPSIZE s' = MAXHPSIZE s"
    and "x \<in> news R \<Longrightarrow> nodes s' x = nodes s x"
    and "x \<in> retireds R \<Longrightarrow> next_is s x y \<Longrightarrow> next_is s' x y"
    and "x \<in> retireds R \<Longrightarrow> may_free s x \<Longrightarrow> may_free s' x"
    and "x \<in> claims R \<Longrightarrow> data_is s x d \<Longrightarrow> data_is s' x d"
    and "x \<in> links R \<Longrightarrow> succ_in q x y \<Longrightarrow> succ_in q' x y"
    and "x \<in> links R \<Longrightarrow> succ_in pl x y \<Longrightarrow> succ_in pl' x y"
    and "t \<in> tids R \<Longrightarrow> read_HP s' t = read_HP s t"
    and "(t, x) \<in> H \<Longrightarrow> hd q' = x \<Longrightarrow> hd q = x"
    and "(t, x) \<in> H \<Longrightarrow> hd q' = x \<Longrightarrow> y \<noteq> NULL \<Longrightarrow> next_is s x y \<Longrightarrow> next_is s' x y"
    and "Lock \<in> R \<Longrightarrow> hd pl' = hd pl"
    and "Lock \<in> R \<Longrightarrow> may_free s (hd pl) \<Longrightarrow> may_free s' (hd pl)"
    and "Lock \<in> R \<Longrightarrow> y \<noteq> NULL \<Longrightarrow> next_is s (hd pl) y \<Longrightarrow> next_is s' (hd pl) y"
proof -
  note la = assms [unfolded leaves_alone_def]
  show "MAXHPSIZE s' = MAXHPSIZE s" using la by (elim conjE)
  show "x \<in> news R \<Longrightarrow> nodes s' x = nodes s x" using la by (elim conjE) (rule bspec)
  have "\<forall>x \<in> retireds R. (\<forall>y. next_is s x y \<longrightarrow> next_is s' x y) \<and> (may_free s x \<longrightarrow> may_free s' x)"
    using la by (elim conjE)
  then show "x \<in> retireds R \<Longrightarrow> next_is s x y \<Longrightarrow> next_is s' x y" "x \<in> retireds R \<Longrightarrow> may_free s x \<Longrightarrow> may_free s' x"
    by simp_all
  have "\<forall>x \<in> claims R. \<forall>d. data_is s x d \<longrightarrow> data_is s' x d" using la by (elim conjE)
  then show "x \<in> claims R \<Longrightarrow> data_is s x d \<Longrightarrow> data_is s' x d" by simp
  have "\<forall>x \<in> links R. \<forall>y. (succ_in q x y \<longrightarrow> succ_in q' x y) \<and> (succ_in pl x y \<longrightarrow> succ_in pl' x y)"
    using la by (elim conjE)
  then show "x \<in> links R \<Longrightarrow> succ_in q x y \<Longrightarrow> succ_in q' x y" "x \<in> links R \<Longrightarrow> succ_in pl x y \<Longrightarrow> succ_in pl' x y"
    by simp_all
  show "t \<in> tids R \<Longrightarrow> read_HP s' t = read_HP s t" using la by (elim conjE) (rule bspec)
  have "\<forall>(t, x) \<in> H. hd q' = x \<longrightarrow> hd q = x \<and> (\<forall>y. y \<noteq> NULL \<and> next_is s x y \<longrightarrow> next_is s' x y)"
    using la by (elim conjE)
  then show "(t, x) \<in> H \<Longrightarrow> hd q' = x \<Longrightarrow> hd q = x"
    "(t, x) \<in> H \<Longrightarrow> hd q' = x \<Longrightarrow> y \<noteq> NULL \<Longrightarrow> next_is s x y \<Longrightarrow> next_is s' x y" by fast+
  have "Lock \<in> R \<longrightarrow> hd pl' = hd pl \<and> (may_free s (hd pl) \<longrightarrow> may_free s' (hd pl)) \<and>
        (\<forall>y. y \<noteq> NULL \<and> next_is s (hd pl) y \<longrightarrow> next_is s' (hd pl) y)" using la by (elim conjE)
  then show "Lock \<in> R \<Longrightarrow> hd pl' = hd pl" "Lock \<in> R \<Longrightarrow> may_free s (hd pl) \<Longrightarrow> may_free s' (hd pl)"
    "Lock \<in> R \<Longrightarrow> y \<noteq> NULL \<Longrightarrow> next_is s (hd pl) y \<Longrightarrow> next_is s' (hd pl) y" by simp_all
qed

lemma leaves_alone_mono:
  assumes "leaves_alone R' H' s q pl s' q' pl'" and "R \<subseteq> R'" and "H \<subseteq> H'"
  shows "leaves_alone R H s q pl s' q' pl'"
proof -
  have sub: "x \<in> news R \<Longrightarrow> x \<in> news R'" "x \<in> retireds R \<Longrightarrow> x \<in> retireds R'" "x \<in> claims R \<Longrightarrow> x \<in> claims R'"
    "x \<in> links R \<Longrightarrow> x \<in> links R'" "t \<in> tids R \<Longrightarrow> t \<in> tids R'" "Lock \<in> R \<Longrightarrow> Lock \<in> R'" for x t
    using assms(2) unfolding news_def retireds_def claims_def links_def tids_def by blast+
  have H: "(t, x) \<in> H \<Longrightarrow> (t, x) \<in> H'" for t x using assms(3) by blast
  note la = leaves_aloneD [OF assms(1)]
  show ?thesis
    by (rule leaves_aloneI) (auto dest: sub H intro: la)
qed

lemma scanned_mono: "scanned H x i \<Longrightarrow> (\<And>t. (t, x) \<in> H' \<Longrightarrow> (t, x) \<in> H) \<Longrightarrow> scanned H' x i"
  by (auto simp: scanned_def)

lemma unread_mono: "unread H x \<Longrightarrow> (\<And>t. (t, x) \<in> H' \<Longrightarrow> (t, x) \<in> H) \<Longrightarrow> unread H' x"
  by (auto simp: unread_def)

lemma free_knows_stable:
  assumes "free_knows s H pl fp" and "leaves_alone (free_held fp) Ho s q pl s' q' pl'"
    and heap: "heap_ok h R q' pl'" and "free_held fp \<subseteq> R"
    and H: "\<And>t x. (t, x) \<in> H' \<Longrightarrow> (t, x) \<in> H \<or> x \<in> set q'"
  shows "free_knows s' H' pl' fp"
proof -
  have "pl' \<noteq> []" using heap_pl [OF heap] by auto
  then have p: "(t, hd pl') \<in> H" if "(t, hd pl') \<in> H'" for t
    using H [OF that] heap_distinct(3) [OF heap] by (auto simp: disjoint_iff)
  have x: "(t, x) \<in> H" if "(t, x) \<in> H'" "x \<in> retireds R" for t x
    using H [OF that(1)] heap_held [OF heap, of x] that(2) by auto
  note la = leaves_aloneD(3,4,7,11,12,13) [OF assms(2)]
  have lk: "linked s' (hd pl)" if "Lock \<in> free_held fp" "linked s (hd pl)"
    using that la(6) unfolding linked_def by blast
  show ?thesis
  proof (cases fp)
    case (Fp_free i p)
    with assms(1,4) la x show ?thesis by (auto intro: unread_mono)
  next
    case (Fp_scan i p j)
    with assms(1) la p lk show ?thesis by (auto intro: scanned_mono)
  next
    case (Sf_scan y i)
    with assms(1,4) la x show ?thesis by (auto intro: scanned_mono)
  qed (use assms(1,4) la p x lk in \<open>auto intro: unread_mono\<close>)
qed

lemma knows_stable:
  assumes "knows s H q pl pc" and la: "leaves_alone (held pc) (hazards pc) s q pl s' q' pl'"
    and heap: "heap_ok h R q' pl'" and "held pc \<subseteq> R"
    and H: "\<And>t x. (t, x) \<in> H' \<Longrightarrow> (t, x) \<in> H \<or> x \<in> set q'"
  shows "knows s' H' q' pl' pc"
proof -
  note la = leaves_aloneD [OF la]
  show ?thesis
  proof (cases pc)
    case (Deq_safe_free t ret fp)
    have "leaves_alone (free_held fp) {} s q pl s' q' pl'"
      using assms(2) Deq_safe_free by (auto elim: leaves_alone_mono)
    then have "free_knows s' H' pl' fp"
      using assms(1,4) Deq_safe_free by (intro free_knows_stable [OF _ _ heap _ H]) auto
    with assms(1) la(8) [of t] Deq_safe_free show ?thesis by simp
  next
    case (Deq_cas t oh nh)
    with assms(1) la(9) [of t oh] la(10) [of t oh nh] show ?thesis by auto
  qed (use assms(1) la(1,2,6,8) in auto)
qed

end
