(* ===== verification/Lfq_Threads_Steps.thy ===== *)
theory Lfq_Threads_Steps
  imports Lfq_Threads_Inv
begin

text \<open>
  Every step of a thread that satisfies the invariant is defined, keeps the invariant and leaves alone what the
  other threads hold.
\<close>

section \<open>Effects on the other threads\<close>

lemma read_HP_upd [simp]:
  "read_HP (s\<lparr>nodes := h\<rparr>) t = read_HP s t" "read_HP (s\<lparr>tail := a\<rparr>) t = read_HP s t"
  "read_HP (s\<lparr>head := a\<rparr>) t = read_HP s t" "read_HP (s\<lparr>fph := a\<rparr>) t = read_HP s t"
  "read_HP (s\<lparr>fpt := a\<rparr>) t = read_HP s t" "read_HP (s\<lparr>is_freeing := f\<rparr>) t = read_HP s t"
  "read_HP (s\<lparr>tid_map := m\<rparr>) t = read_HP s t"
  by (simp_all add: read_HP_def)

lemma ends_ok_upd [simp]:
  "ends_ok (s\<lparr>nodes := h\<rparr>) q pl = ends_ok s q pl" "ends_ok (s\<lparr>is_freeing := f\<rparr>) q pl = ends_ok s q pl"
  "ends_ok (s\<lparr>tid_map := m\<rparr>) q pl = ends_ok s q pl" "ends_ok (s\<lparr>HP := p\<rparr>) q pl = ends_ok s q pl"
  by (simp_all add: ends_ok_def)

lemma lock_ok_upd [simp]:
  "lock_ok (s\<lparr>nodes := h\<rparr>) R = lock_ok s R" "lock_ok (s\<lparr>tail := a\<rparr>) R = lock_ok s R"
  "lock_ok (s\<lparr>head := a\<rparr>) R = lock_ok s R" "lock_ok (s\<lparr>fph := a\<rparr>) R = lock_ok s R"
  "lock_ok (s\<lparr>fpt := a\<rparr>) R = lock_ok s R" "lock_ok (s\<lparr>tid_map := m\<rparr>) R = lock_ok s R"
  "lock_ok (s\<lparr>HP := p\<rparr>) R = lock_ok s R"
  "lock_ok s (insert (New x) R) = lock_ok s R" "lock_ok s (insert (Retired x) R) = lock_ok s R"
  "lock_ok s (insert (Link x) R) = lock_ok s R" "lock_ok s (insert (Claim x) R) = lock_ok s R"
  "lock_ok s (insert (Tid t) R) = lock_ok s R" "lock_ok s (insert Lock (insert (Tid t) R)) = lock_ok s (insert Lock R)"
  by (simp_all add: lock_ok_def)

lemma ids_ok_upd [simp]:
  "ids_ok (s\<lparr>nodes := h\<rparr>) T = ids_ok s T" "ids_ok (s\<lparr>tail := a\<rparr>) T = ids_ok s T"
  "ids_ok (s\<lparr>head := a\<rparr>) T = ids_ok s T" "ids_ok (s\<lparr>fph := a\<rparr>) T = ids_ok s T"
  "ids_ok (s\<lparr>fpt := a\<rparr>) T = ids_ok s T" "ids_ok (s\<lparr>is_freeing := f\<rparr>) T = ids_ok s T"
  by (simp_all add: ids_ok_def)

lemma leaves_alone_same:
  assumes "nodes s' = nodes s" and "HP s' = HP s" and "MAXHPSIZE s' = MAXHPSIZE s"
  shows "leaves_alone R H s q pl s' q pl"
  using assms by (intro leaves_aloneI) (simp_all add: next_is_def may_free_def data_is_def read_HP_def)

lemma leaves_alone_refl [simp]: "leaves_alone R H s q pl s q pl"
  by (rule leaves_alone_same) simp_all

text \<open>A new node, a write to a node the thread holds, a write that only adds a link or a mark.\<close>

lemma leaves_alone_fresh:
  assumes "nodes s x = None" and "heap_ok (nodes s) R' q pl" and "news R \<subseteq> news R'"
  shows "leaves_alone R H s q pl (s\<lparr>nodes := (nodes s)(x := v)\<rparr>) q pl"
proof (rule leaves_aloneI)
  have "x \<notin> news R" using assms heap_dom [OF assms(2), of x] by auto
  then show "nodes (s\<lparr>nodes := (nodes s)(x := v)\<rparr>) y = nodes s y" if "y \<in> news R" for y using that by auto
qed (use assms(1) in \<open>auto simp: next_is_def may_free_def data_is_def\<close>)

lemma leaves_alone_own:
  assumes "x \<notin> news R" and "x \<notin> retireds R" and "x \<notin> set q" and "x \<notin> set pl" and "q \<noteq> []" and "pl \<noteq> []"
    and "\<And>d. x \<in> claims R \<Longrightarrow> data_is s x d \<Longrightarrow> \<exists>n. v = Some n \<and> n_data n = d"
  shows "leaves_alone R H s q pl (s\<lparr>nodes := (nodes s)(x := v)\<rparr>) q pl"
proof -
  have "x \<noteq> hd q" "x \<noteq> hd pl" using assms(3-6) by auto
  then show ?thesis
    by (intro leaves_aloneI) (use assms(1,2,7) in \<open>auto simp: next_is_def may_free_def data_is_def\<close>)
qed

lemma leaves_alone_evolve:
  assumes "nodes s x = Some n" and "x \<notin> news R" and "n_data n' = n_data n"
    and "n_next n = NULL \<or> n_next n' = n_next n" and "x \<in> retireds R \<Longrightarrow> n_next n' = n_next n"
    and "n_can_free n \<noteq> 0 \<Longrightarrow> n_can_free n' \<noteq> 0"
  shows "leaves_alone R H s q pl (s\<lparr>nodes := (nodes s)(x \<mapsto> n')\<rparr>) q pl"
  by (rule leaves_aloneI) (use assms in \<open>auto simp: next_is_def may_free_def data_is_def\<close>)

section \<open>Steps of the reclaimer\<close>

definition free_good ::
  "resource set \<Rightarrow> (int \<times> addr) set \<Rightarrow> lfq \<Rightarrow> addr list \<Rightarrow> addr list \<Rightarrow> free_pc \<Rightarrow> bool" where
  "free_good R H s q pl fp \<longleftrightarrow>
     shared_ok s (R \<union> free_held fp) H q pl \<and> R \<inter> free_held fp = {} \<and> free_knows s H pl fp"

text \<open>The pool after the next step of a thread.\<close>

fun pool_after_free :: "free_pc \<Rightarrow> addr list \<Rightarrow> addr list" where
  "pool_after_free (Ep_xchg x) pl = pl @ [x]"
| "pool_after_free (Fp_set_head i p n) pl = tl pl"
| "pool_after_free _ pl = pl"

definition free_steps_well ::
  "resource set \<Rightarrow> (int \<times> addr) set \<Rightarrow> lfq \<Rightarrow> addr list \<Rightarrow> addr list \<Rightarrow> free_pc \<Rightarrow> bool" where
  "free_steps_well R H s q pl fp \<longleftrightarrow>
     (\<exists>fp' s'. free_step fp s = Some (fp', s') \<and> free_good R H s' q (pool_after_free fp pl) fp' \<and>
        leaves_alone R H s q pl s' q (pool_after_free fp pl) \<and> HP s' = HP s \<and> tid_map s' = tid_map s)"

lemmas free_simps = free_steps_well_def free_good_def shared_ok_def load_def store_def free_node_def

lemma shared_okD:
  assumes "shared_ok s R H q pl"
  shows "heap_ok (nodes s) R q pl" and "ends_ok s q pl" and "lock_ok s R" and "ids_ok s (tids R)"
    and "hazards_ok s (tids R) (news R) H q"
  using assms by (simp_all add: shared_ok_def)

lemma read_HP_in:
  assumes "ids_ok s T" and "0 \<le> i" and "i < MAXHPSIZE s"
  shows "\<exists>p. read_HP s i = Some p"
  using assms by (auto simp: ids_ok_def read_HP_def aread_def)

lemma hazard_read: "hazards_ok s T N H q \<Longrightarrow> (t, x) \<in> H \<Longrightarrow> read_HP s t = Some x \<and> t \<in> T"
  by (auto simp: hazards_ok_def)

lemma scanned_step:
  assumes "scanned H x i" and "hazards_ok s T N H q" and "read_HP s i = Some p" and "p \<noteq> x"
  shows "scanned H x (i + 1)"
proof -
  have "t \<noteq> i" if "(t, x) \<in> H" for t using hazard_read [OF assms(2) that] assms(3,4) by auto
  with assms(1) show ?thesis by (fastforce simp: scanned_def)
qed

lemma scanned_all:
  assumes "scanned H x i" and "hazards_ok s T N H q" and "ids_ok s T" and "\<not> i < MAXHPSIZE s"
  shows "unread H x"
  unfolding unread_def
proof (intro allI notI)
  fix t assume h: "(t, x) \<in> H"
  then have "t \<in> T" using hazard_read [OF assms(2)] by blast
  then have "t < MAXHPSIZE s" using assms(3) by (auto simp: ids_ok_def)
  moreover have "i \<le> t" using assms(1) h by (simp add: scanned_def)
  ultimately show False using assms(4) by simp
qed

lemma scanned_0: "ids_ok s T \<Longrightarrow> hazards_ok s T N H q \<Longrightarrow> scanned H x 0"
  by (fastforce simp: ids_ok_def hazards_ok_def scanned_def)

lemma free_goodD:
  assumes "free_good R H s q pl fp"
  shows "heap_ok (nodes s) (R \<union> free_held fp) q pl" and "ends_ok s q pl" and "lock_ok s (R \<union> free_held fp)"
    and "ids_ok s (tids (R \<union> free_held fp))" and "hazards_ok s (tids (R \<union> free_held fp)) (news (R \<union> free_held fp)) H q"
    and "R \<inter> free_held fp = {}" and "free_knows s H pl fp"
  using assms by (simp_all add: free_good_def shared_ok_def)

text \<open>A step that changes nothing but the place in the code.\<close>

lemma free_stays:
  assumes "free_good R H s q pl fp" and "free_step fp s = Some (fp', s)" and "free_held fp' = free_held fp"
    and "free_knows s H pl fp'" and "pool_after_free fp pl = pl"
  shows "free_steps_well R H s q pl fp"
  using assms by (simp add: free_steps_well_def free_good_def)

lemma retired_allocated:
  assumes "heap_ok h R q pl" and "x \<in> retireds R"
  shows "\<exists>n. h x = Some n"
  using heap_dom [OF assms(1), of x] assms(2) by auto

lemma pool_allocated:
  assumes "heap_ok h R q pl"
  shows "pl \<noteq> []" and "hd pl \<in> set pl" and "\<exists>n. h (hd pl) = Some n"
proof -
  show "pl \<noteq> []" using heap_pl [OF assms] by auto
  then show "hd pl \<in> set pl" by simp
  then show "\<exists>n. h (hd pl) = Some n" using heap_dom [OF assms, of "hd pl"] by auto
qed

lemma step_Sf_can_free:
  assumes "free_good R H s q pl (Sf_can_free x)"
  shows "free_steps_well R H s q pl (Sf_can_free x)"
proof -
  note ok = free_goodD [OF assms]
  obtain n where n: "nodes s x = Some n" using retired_allocated [OF ok(1), of x] by auto
  show ?thesis
  proof (cases "n_can_free n = 0")
    case True
    with n show ?thesis by (intro free_stays [OF assms, of "Ep_null x"]) (simp_all add: load_def)
  next
    case False
    moreover have "scanned H x 0" using ok(4,5) by (rule scanned_0)
    ultimately show ?thesis using n
      by (intro free_stays [OF assms, of "Sf_scan x 0"]) (simp_all add: load_def may_free_def)
  qed
qed

lemma step_Sf_scan:
  assumes "free_good R H s q pl (Sf_scan x i)"
  shows "free_steps_well R H s q pl (Sf_scan x i)"
proof -
  note ok = free_goodD [OF assms]
  have kn: "may_free s x" "scanned H x i" using ok(7) by simp_all
  show ?thesis
  proof (cases "i < MAXHPSIZE s")
    case True
    moreover have "0 \<le> i" using kn(2) by (simp add: scanned_def)
    ultimately obtain p where p: "read_HP s i = Some p" using read_HP_in [OF ok(4)] by blast
    show ?thesis
    proof (cases "p = x")
      case eq: True
      with True p show ?thesis by (intro free_stays [OF assms, of "Ep_null x"]) simp_all
    next
      case False
      with True p kn scanned_step [OF kn(2) ok(5) p False] show ?thesis
        by (intro free_stays [OF assms, of "Sf_scan x (i + 1)"]) simp_all
    qed
  next
    case False
    with kn scanned_all [OF kn(2) ok(5,4) False] show ?thesis
      by (intro free_stays [OF assms, of "Sf_lock x"]) simp_all
  qed
qed

text \<open>Taking the lock.\<close>

lemma lock_taken: "lock_ok s R \<Longrightarrow> is_freeing s = 0 \<Longrightarrow> lock_ok (s\<lparr>is_freeing := 1\<rparr>) (insert Lock R) \<and> Lock \<notin> R"
  by (auto simp: lock_ok_def split: if_splits)

lemma hazards_ok_upd [simp]:
  "hazards_ok (s\<lparr>is_freeing := f\<rparr>) T N H q = hazards_ok s T N H q" "hazards_ok (s\<lparr>head := a\<rparr>) T N H q = hazards_ok s T N H q"
  "hazards_ok (s\<lparr>tail := a\<rparr>) T N H q = hazards_ok s T N H q" "hazards_ok (s\<lparr>fph := a\<rparr>) T N H q = hazards_ok s T N H q"
  "hazards_ok (s\<lparr>fpt := a\<rparr>) T N H q = hazards_ok s T N H q" "hazards_ok (s\<lparr>tid_map := m\<rparr>) T N H q = hazards_ok s T N H q"
  by (simp_all add: hazards_ok_def)

lemma knows_upd [simp]:
  "may_free (s\<lparr>is_freeing := f\<rparr>) x = may_free s x" "may_free (s\<lparr>fph := a\<rparr>) x = may_free s x"
  "next_is (s\<lparr>is_freeing := f\<rparr>) x y = next_is s x y" "next_is (s\<lparr>fph := a\<rparr>) x y = next_is s x y"
  by (simp_all add: may_free_def next_is_def)

lemma step_Sf_lock:
  assumes "free_good R H s q pl (Sf_lock x)"
  shows "free_steps_well R H s q pl (Sf_lock x)"
proof (cases "is_freeing s = 0")
  case True
  note ok = free_goodD [OF assms]
  from True lock_taken [of s "insert (Retired x) R"] ok show ?thesis
    by (simp add: free_steps_well_def free_good_def shared_ok_def leaves_alone_same insert_commute)
next
  case False
  then have "free_step (Sf_lock x) s = Some (Ep_null x, s)" by simp
  from free_stays [OF assms this] show ?thesis by simp
qed

lemma step_Fp_lock:
  assumes "free_good R H s q pl Fp_lock"
  shows "free_steps_well R H s q pl Fp_lock"
proof (cases "is_freeing s = 0")
  case True
  note ok = free_goodD [OF assms]
  from True lock_taken [of s R] ok show ?thesis
    by (simp add: free_steps_well_def free_good_def shared_ok_def leaves_alone_same)
next
  case False
  then have "free_step Fp_lock s = Some (Fp_return, s)" by simp
  from free_stays [OF assms this] show ?thesis by simp
qed

text \<open>Writing the link of a retired node.\<close>

lemma heap_ok_insert2 [simp]:
  "heap_ok h (insert a (insert Lock R)) q pl = heap_ok h (insert a R) q pl"
  "heap_ok h (insert a (insert (Tid t) R)) q pl = heap_ok h (insert a R) q pl"
  by (cases a; rule heap_ok_cong; simp)+

lemma heap_ok_insert3 [simp]:
  "heap_ok h (insert a (insert b (insert (Tid t) R))) q pl = heap_ok h (insert a (insert b R)) q pl"
  by (cases a; cases b; rule heap_ok_cong; simp)

lemma hazards_ok_nodes:
  "hazards_ok s T N H q \<Longrightarrow> (\<And>t x. (t, x) \<in> H \<Longrightarrow> nodes s x \<noteq> None \<Longrightarrow> h x \<noteq> None) \<Longrightarrow> hazards_ok (s\<lparr>nodes := h\<rparr>) T N H q"
  by (fastforce simp: hazards_ok_def)

lemma hazards_ok_write:
  "hazards_ok s T N H q \<Longrightarrow> hazards_ok (s\<lparr>nodes := (nodes s)(x \<mapsto> n)\<rparr>) T N H q"
  by (rule hazards_ok_nodes) auto

lemma own_retired:
  assumes "heap_ok (nodes s) (insert (Retired x) R) q pl" and "x \<notin> retireds R"
    and "\<And>d. x \<in> claims R \<Longrightarrow> data_is s x d \<Longrightarrow> \<exists>n. v = Some n \<and> n_data n = d"
  shows "leaves_alone R H s q pl (s\<lparr>nodes := (nodes s)(x := v)\<rparr>) q pl"
proof (rule leaves_alone_own)
  note ok = heap_okD [OF assms(1)]
  show "x \<notin> news R" using ok(10) [of x] by auto
  show "x \<notin> set q" "x \<notin> set pl" using ok(9) [of x] by auto
  show "q \<noteq> []" "pl \<noteq> []" using ok(4,5) by auto
qed (use assms(2,3) in auto)

lemma write_next:
  assumes "heap_ok (nodes s) (insert (Retired x) R) q pl" and "x \<notin> retireds R" and "nodes s x = Some n"
  shows "leaves_alone R H s q pl (s\<lparr>nodes := (nodes s)(x \<mapsto> n\<lparr>n_next := v\<rparr>)\<rparr>) q pl"
  by (rule own_retired [OF assms(1,2)]) (use assms(3) in \<open>auto simp: data_is_def\<close>)

lemma step_Sf_poison:
  assumes "free_good R H s q pl (Sf_poison x)"
  shows "free_steps_well R H s q pl (Sf_poison x)"
proof -
  note ok = free_goodD [OF assms]
  obtain n where n: "nodes s x = Some n" using retired_allocated [OF ok(1), of x] by auto
  let ?n = "n\<lparr>n_next := MINUS_ONE\<rparr>" and ?R = "insert (Retired x) R"
  have R: "x \<notin> retireds R" using ok(6) by auto
  have heap: "heap_ok (nodes s) ?R q pl" using ok(1) by simp
  have "heap_ok ((nodes s)(x \<mapsto> ?n)) ?R q pl" using heap n by (intro heap_write_retired) auto
  moreover have "hazards_ok (s\<lparr>nodes := (nodes s)(x \<mapsto> ?n)\<rparr>) (tids R) (news R) H q" using ok(5) by (intro hazards_ok_write) simp
  moreover have "leaves_alone R H s q pl (s\<lparr>nodes := (nodes s)(x \<mapsto> ?n)\<rparr>) q pl"
    by (rule write_next [OF heap R n])
  moreover have "may_free (s\<lparr>nodes := (nodes s)(x \<mapsto> ?n)\<rparr>) x" "unread H x"
    using ok(7) n by (auto simp: may_free_def)
  ultimately show ?thesis using ok n by (simp add: free_simps del: fun_upd_apply)
qed

lemma step_Ep_null:
  assumes "free_good R H s q pl (Ep_null x)"
  shows "free_steps_well R H s q pl (Ep_null x)"
proof -
  note ok = free_goodD [OF assms]
  obtain n where n: "nodes s x = Some n" using retired_allocated [OF ok(1), of x] by auto
  let ?n = "n\<lparr>n_next := NULL\<rparr>" and ?R = "insert (Retired x) R"
  have R: "x \<notin> retireds R" using ok(6) by auto
  have heap: "heap_ok (nodes s) ?R q pl" using ok(1) by simp
  have "heap_ok ((nodes s)(x \<mapsto> ?n)) ?R q pl" using heap n by (intro heap_write_retired) auto
  moreover have "hazards_ok (s\<lparr>nodes := (nodes s)(x \<mapsto> ?n)\<rparr>) (tids R) (news R) H q" using ok(5) by (intro hazards_ok_write) simp
  moreover have "leaves_alone R H s q pl (s\<lparr>nodes := (nodes s)(x \<mapsto> ?n)\<rparr>) q pl"
    by (rule write_next [OF heap R n])
  moreover have "next_is (s\<lparr>nodes := (nodes s)(x \<mapsto> ?n)\<rparr>) x NULL" by (simp add: next_is_def)
  ultimately show ?thesis using ok n by (simp add: free_simps del: fun_upd_apply)
qed

text \<open>Freeing a node that nobody reads.\<close>

lemma free_one:
  assumes "heap_ok (nodes s) (insert (Retired x) R) q pl" and "x \<notin> retireds R" and "may_free s x"
    and "hazards_ok s T N H q" and "unread H x"
  shows "x \<noteq> NULL" and "\<exists>n. nodes s x = Some n" and "heap_ok ((nodes s)(x := None)) R q pl"
    and "hazards_ok (s\<lparr>nodes := (nodes s)(x := None)\<rparr>) T N H q"
    and "leaves_alone R H s q pl (s\<lparr>nodes := (nodes s)(x := None)\<rparr>) q pl"
proof -
  note ok = heap_okD [OF assms(1)]
  obtain n where n: "nodes s x = Some n" "n_can_free n \<noteq> 0" using assms(3) by (auto simp: may_free_def)
  show "x \<noteq> NULL" using n ok(8) by auto
  show "\<exists>n. nodes s x = Some n" using n by simp
  show "heap_ok ((nodes s)(x := None)) R q pl" by (rule heap_free [OF assms(1,2) n])
  show "hazards_ok (s\<lparr>nodes := (nodes s)(x := None)\<rparr>) T N H q"
    by (rule hazards_ok_nodes [OF assms(4)]) (use assms(5) in \<open>auto simp: unread_def\<close>)
  have "x \<notin> claims R" using ok(13) [OF n(1)] n(2) by (auto split: if_splits)
  then show "leaves_alone R H s q pl (s\<lparr>nodes := (nodes s)(x := None)\<rparr>) q pl"
    by (intro own_retired [OF assms(1,2)]) simp
qed

lemma step_Sf_free:
  assumes "free_good R H s q pl (Sf_free x)"
  shows "free_steps_well R H s q pl (Sf_free x)"
proof -
  note ok = free_goodD [OF assms]
  have "x \<notin> retireds R" using ok(6) by auto
  with ok have "free_step (Sf_free x) s = Some (Sf_unlock, s\<lparr>nodes := (nodes s)(x := None)\<rparr>)"
    "heap_ok ((nodes s)(x := None)) R q pl" "hazards_ok (s\<lparr>nodes := (nodes s)(x := None)\<rparr>) (tids R) (news R) H q"
    "leaves_alone R H s q pl (s\<lparr>nodes := (nodes s)(x := None)\<rparr>) q pl"
    using free_one [of s x R q pl "tids R" "news R" H] by (auto simp: free_node_def)
  with ok show ?thesis by (simp add: free_steps_well_def free_good_def shared_ok_def)
qed

lemma step_Fp_free:
  assumes "free_good R H s q pl (Fp_free i p)"
  shows "free_steps_well R H s q pl (Fp_free i p)"
proof -
  note ok = free_goodD [OF assms]
  have "p \<notin> retireds R" using ok(6) by auto
  with ok have "free_step (Fp_free i p) s = Some (Fp_head (i + 1), s\<lparr>nodes := (nodes s)(p := None)\<rparr>)"
    "heap_ok ((nodes s)(p := None)) R q pl" "hazards_ok (s\<lparr>nodes := (nodes s)(p := None)\<rparr>) (tids R) (news R) H q"
    "leaves_alone R H s q pl (s\<lparr>nodes := (nodes s)(p := None)\<rparr>) q pl"
    using free_one [of s p R q pl "tids R" "news R" H] by (auto simp: free_node_def)
  with ok show ?thesis by (simp add: free_steps_well_def free_good_def shared_ok_def)
qed

lemma lock_released: "lock_ok s (insert Lock R) \<Longrightarrow> Lock \<notin> R \<Longrightarrow> lock_ok (s\<lparr>is_freeing := 0\<rparr>) R"
  by (simp add: lock_ok_def)

lemma step_unlock:
  assumes "free_good R H s q pl fp" and "fp = Sf_unlock \<or> fp = Fp_unlock"
  shows "free_steps_well R H s q pl fp"
  using assms(2) free_goodD [OF assms(1)] lock_released [of s R]
  by (auto simp: free_steps_well_def free_good_def shared_ok_def leaves_alone_same)

lemma step_Ep_xchg:
  assumes "free_good R H s q pl (Ep_xchg x)"
  shows "free_steps_well R H s q pl (Ep_xchg x)"
proof -
  note ok = free_goodD [OF assms]
  have heap: "heap_ok (nodes s) (insert (Retired x) R) q pl" and x: "x \<notin> retireds R" using ok(1,6) by auto
  obtain n where n: "nodes s x = Some n" "n_next n = NULL" using ok(7) by (auto simp: next_is_def)
  have pl: "pl \<noteq> []" by (rule pool_allocated(1) [OF heap])
  have "last pl \<notin> links R" using chain_last [OF heap_pl [OF heap]] by simp
  moreover have "heap_ok (nodes s) (insert (Link (last pl)) R) q (pl @ [x])" by (rule heap_enpool [OF heap x n])
  moreover have "ends_ok (s\<lparr>fpt := x\<rparr>) q (pl @ [x])" using ok(2) pl by (simp add: ends_ok_def)
  moreover have "succ_in (pl @ [x]) (last pl) x" using pl by (simp add: succ_in_snoc)
  moreover have "leaves_alone R H s q pl (s\<lparr>fpt := x\<rparr>) q (pl @ [x])"
    using pl by (intro leaves_aloneI) (simp_all add: succ_in_snoc next_is_def may_free_def data_is_def)
  ultimately show ?thesis using ok by (simp add: free_steps_well_def free_good_def shared_ok_def ends_ok_def)
qed

text \<open>Setting a link.\<close>

lemma link_one:
  assumes "heap_ok (nodes s) (insert (Link x) R) q pl" and "x \<notin> links R"
    and "succ_in q x y \<or> succ_in pl x y" and "hazards_ok s T N H q"
  shows "\<exists>n. nodes s x = Some n \<and> heap_ok ((nodes s)(x \<mapsto> n\<lparr>n_next := y\<rparr>)) R q pl \<and>
     hazards_ok (s\<lparr>nodes := (nodes s)(x \<mapsto> n\<lparr>n_next := y\<rparr>)\<rparr>) T N H q \<and>
     leaves_alone R H s q pl (s\<lparr>nodes := (nodes s)(x \<mapsto> n\<lparr>n_next := y\<rparr>)\<rparr>) q pl"
proof -
  note ok = heap_okD [OF assms(1)]
  have x: "x \<in> set q \<union> set pl" using ok(6) by simp
  then obtain n where n: "nodes s x = Some n" using ok(7) [of x] by auto
  have "chain (nodes s) (insert x (links R)) xs \<Longrightarrow> x \<in> set xs \<Longrightarrow> n_next n = NULL" for xs
    by (induction "nodes s" "insert x (links R)" xs rule: chain.induct) (use n in auto)
  with x ok(4,5) have nxt: "n_next n = NULL" by auto
  have "x \<notin> news R" "x \<notin> retireds R" using ok(9) [of x] x by auto
  then have "leaves_alone R H s q pl (s\<lparr>nodes := (nodes s)(x \<mapsto> n\<lparr>n_next := y\<rparr>)\<rparr>) q pl"
    using nxt by (intro leaves_alone_evolve [OF n]) auto
  then show ?thesis using heap_link [OF assms(1-3) n] hazards_ok_write [OF assms(4)] n by blast
qed

lemma step_Ep_link:
  assumes "free_good R H s q pl (Ep_link x old)"
  shows "free_steps_well R H s q pl (Ep_link x old)"
proof -
  note ok = free_goodD [OF assms]
  have "heap_ok (nodes s) (insert (Link old) R) q pl" "old \<notin> links R" "hazards_ok s (tids R) (news R) H q" "succ_in pl old x"
    using ok(1,5,6,7) by auto
  from link_one [OF this(1,2) _ this(3)] this(4) obtain n where n: "nodes s old = Some n"
    "heap_ok ((nodes s)(old \<mapsto> n\<lparr>n_next := x\<rparr>)) R q pl"
    "hazards_ok (s\<lparr>nodes := (nodes s)(old \<mapsto> n\<lparr>n_next := x\<rparr>)\<rparr>) (tids R) (news R) H q"
    "leaves_alone R H s q pl (s\<lparr>nodes := (nodes s)(old \<mapsto> n\<lparr>n_next := x\<rparr>)\<rparr>) q pl" by blast
  then show ?thesis using ok by (simp add: free_simps del: fun_upd_apply)
qed

lemma step_Fp_look:
  assumes good: "free_good R H s q pl fp"
    and "fp = Fp_head i \<or> fp = Fp_can_free i p \<or> fp = Fp_free_next i p \<or> fp = Fp_next i p \<or> fp = Fp_return"
  shows "free_steps_well R H s q pl fp"
proof -
  note ok = free_goodD [OF good]
  obtain n where n: "nodes s (hd pl) = Some n" using pool_allocated(3) [OF ok(1)] by blast
  have "\<exists>fp'. free_step fp s = Some (fp', s) \<and> free_held fp' = free_held fp \<and> free_knows s H pl fp'"
    using assms(2) ok(2,7) scanned_0 [OF ok(4,5)] n
    by (auto simp: ends_ok_def load_def may_free_def linked_def next_is_def)
  then show ?thesis using free_stays [OF good] assms(2) by force
qed

lemma step_Fp_scan:
  assumes "free_good R H s q pl (Fp_scan i p j)"
  shows "free_steps_well R H s q pl (Fp_scan i p j)"
proof -
  note ok = free_goodD [OF assms]
  have kn: "p = hd pl" "may_free s p" "linked s p" "scanned H p j" using ok(7) by auto
  show ?thesis
  proof (cases "j < MAXHPSIZE s")
    case True
    moreover have "0 \<le> j" using kn(4) by (simp add: scanned_def)
    ultimately obtain h where h: "read_HP s j = Some h" using read_HP_in [OF ok(4)] by blast
    show ?thesis
    proof (cases "h = p")
      case eq: True
      with True h show ?thesis by (intro free_stays [OF assms, of Fp_unlock]) simp_all
    next
      case False
      with True h kn scanned_step [OF kn(4) ok(5) h False] show ?thesis
        by (intro free_stays [OF assms, of "Fp_scan i p (j + 1)"]) simp_all
    qed
  next
    case False
    with kn scanned_all [OF kn(4) ok(5,4) False] show ?thesis
      by (intro free_stays [OF assms, of "Fp_next i p"]) simp_all
  qed
qed

lemma chain_head:
  assumes "chain h P xs" and "h (hd xs) = Some n" and "n_next n \<noteq> NULL"
  shows "\<exists>r. xs = hd xs # n_next n # r \<and> hd xs \<notin> P"
  using assms by (cases "(h, P, xs)" rule: chain.cases) (auto split: if_splits)

lemma step_Fp_set_head:
  assumes "free_good R H s q pl (Fp_set_head i p m)"
  shows "free_steps_well R H s q pl (Fp_set_head i p m)"
proof -
  note ok = free_goodD [OF assms]
  have heap: "heap_ok (nodes s) R q pl" using ok(1) by simp
  have kn: "p = hd pl" "may_free s p" "unread H p" "next_is s p m" "m \<noteq> NULL" using ok(7) by auto
  then obtain r where pl: "pl = p # m # r" "p \<notin> links R"
    using chain_head [OF heap_pl [OF heap]] by (auto simp: next_is_def)
  have "p \<notin> retireds R" using heap_held [OF heap, of p] pl by auto
  moreover have "heap_ok (nodes s) (insert (Retired p) R) q (m # r)"
    by (rule heap_unpool) (use heap pl in auto)
  moreover have "ends_ok (s\<lparr>fph := m\<rparr>) q (m # r)" using ok(2) pl by (simp add: ends_ok_def)
  moreover have "leaves_alone R H s q pl (s\<lparr>fph := m\<rparr>) q (m # r)"
    by (rule leaves_aloneI) (use ok(6) pl in \<open>auto simp: next_is_def may_free_def data_is_def read_HP_def\<close>)
  ultimately show ?thesis using ok(3-6) kn(2,3) unfolding pl(1) by (simp add: free_steps_well_def free_good_def shared_ok_def)
qed

text \<open>Whatever the reclaimer does next.\<close>

lemma free_steps:
  assumes "free_good R H s q pl fp"
  shows "free_steps_well R H s q pl fp"
proof (cases fp)
  case (Sf_can_free x) then show ?thesis using assms step_Sf_can_free by simp
next
  case (Sf_scan x i) then show ?thesis using assms step_Sf_scan by simp
next
  case (Sf_lock x) then show ?thesis using assms step_Sf_lock by simp
next
  case (Sf_poison x) then show ?thesis using assms step_Sf_poison by simp
next
  case (Sf_free x) then show ?thesis using assms step_Sf_free by simp
next
  case (Ep_null x) then show ?thesis using assms step_Ep_null by simp
next
  case (Ep_xchg x) then show ?thesis using assms step_Ep_xchg by simp
next
  case (Ep_link x old) then show ?thesis using assms step_Ep_link by simp
next
  case Fp_lock then show ?thesis using assms step_Fp_lock by simp
next
  case (Fp_scan i p j) then show ?thesis using assms step_Fp_scan by simp
next
  case (Fp_set_head i p n) then show ?thesis using assms step_Fp_set_head by simp
next
  case (Fp_free i p) then show ?thesis using assms step_Fp_free by simp
qed (use step_unlock [OF assms] step_Fp_look [OF assms] in simp_all)

section \<open>Steps of enqueue and dequeue\<close>

definition good :: "resource set \<Rightarrow> (int \<times> addr) set \<Rightarrow> lfq \<Rightarrow> addr list \<Rightarrow> addr list \<Rightarrow> pc \<Rightarrow> bool" where
  "good R H s q pl pc \<longleftrightarrow>
     shared_ok s (R \<union> held pc) (H \<union> hazards pc) q pl \<and> R \<inter> held pc = {} \<and>
     knows s (H \<union> hazards pc) q pl pc \<and> fst ` H \<subseteq> tids R"

text \<open>The queue and the pool after the next step of a thread.\<close>

fun queue_after :: "lfq \<Rightarrow> pc \<Rightarrow> addr list \<Rightarrow> addr list" where
  "queue_after s (Enq_xchg a d) q = q @ [a]"
| "queue_after s (Deq_cas t oh nh) q = (if head s = oh then tl q else q)"
| "queue_after s _ q = q"

fun pool_after :: "pc \<Rightarrow> addr list \<Rightarrow> addr list" where
  "pool_after (Deq_safe_free t ret fp) pl = pool_after_free fp pl"
| "pool_after _ pl = pl"

definition steps_well ::
  "addr \<Rightarrow> resource set \<Rightarrow> (int \<times> addr) set \<Rightarrow> lfq \<Rightarrow> addr list \<Rightarrow> addr list \<Rightarrow> pc \<Rightarrow> bool" where
  "steps_well a R H s q pl pc \<longleftrightarrow>
     (\<exists>pc' s'. thread_step a pc s = Some (pc', s') \<and>
        good R H s' (queue_after s pc q) (pool_after pc pl) pc' \<and>
        leaves_alone R H s q pl s' (queue_after s pc q) (pool_after pc pl) \<and>
        (\<forall>(t, x) \<in> hazards pc'. (t, x) \<in> hazards pc \<or> x \<in> set (queue_after s pc q)))"

lemma goodD:
  assumes "good R H s q pl pc"
  shows "heap_ok (nodes s) (R \<union> held pc) q pl" and "ends_ok s q pl" and "lock_ok s (R \<union> held pc)"
    and "ids_ok s (tids (R \<union> held pc))" and "hazards_ok s (tids (R \<union> held pc)) (news (R \<union> held pc)) (H \<union> hazards pc) q"
    and "R \<inter> held pc = {}" and "knows s (H \<union> hazards pc) q pl pc" and "fst ` H \<subseteq> tids R"
  using assms by (simp_all add: good_def shared_ok_def)

lemma stays:
  assumes "good R H s q pl pc" and "thread_step a pc s = Some (pc', s)" and "held pc' = held pc"
    and "knows s (H \<union> hazards pc) q pl pc'" and "queue_after s pc q = q" and "pool_after pc pl = pl"
    and "hazards pc' = hazards pc"
  shows "steps_well a R H s q pl pc"
  using assms by (auto simp: steps_well_def good_def)

lemma step_Enq_calloc:
  assumes "good R H s q pl (Enq_calloc d)" and "nodes s a = None"
  shows "steps_well a R H s q pl (Enq_calloc d)"
proof (cases "a = NULL")
  case True
  then have "thread_step a (Enq_calloc d) s = Some (Enq_ret (- ENOMEM), s)" by (simp add: thread_step_def)
  from stays [OF assms(1) this] show ?thesis by simp
next
  case False
  note ok = goodD [OF assms(1)]
  have heap: "heap_ok (nodes s) R q pl" using ok(1) by simp
  have "a \<notin> news R" using heap_dom [OF heap, of a] assms(2) by auto
  moreover have "heap_ok ((nodes s)(a \<mapsto> zero_node)) (insert (New a) R) q pl"
    by (rule heap_calloc [OF heap assms(2) False])
  moreover have "hazards_ok (s\<lparr>nodes := (nodes s)(a \<mapsto> zero_node)\<rparr>) (tids R) (insert a (news R)) H q"
    using ok(5) assms(2) by (auto simp: hazards_ok_def)
  moreover have "leaves_alone R H s q pl (s\<lparr>nodes := (nodes s)(a \<mapsto> zero_node)\<rparr>) q pl"
    by (rule leaves_alone_fresh [OF assms(2) heap]) simp
  ultimately show ?thesis using ok False
    by (simp add: steps_well_def good_def shared_ok_def thread_step_def calloc_node_def)
qed

lemma step_Enq_data:
  assumes "good R H s q pl (Enq_data n d)"
  shows "steps_well a R H s q pl (Enq_data n d)"
proof -
  note ok = goodD [OF assms]
  let ?n = "\<lparr>n_data = d, n_next = NULL, n_can_free = 0\<rparr>"
  have heap: "heap_ok (nodes s) (insert (New n) R) q pl" and n: "n \<notin> news R" using ok(1,6) by auto
  have "heap_ok ((nodes s)(n \<mapsto> ?n)) (insert (New n) R) q pl" by (rule heap_write_new [OF heap]) simp
  moreover have "hazards_ok (s\<lparr>nodes := (nodes s)(n \<mapsto> ?n)\<rparr>) (tids R) (insert n (news R)) H q"
    using ok(5) by (intro hazards_ok_write) simp
  moreover have "leaves_alone R H s q pl (s\<lparr>nodes := (nodes s)(n \<mapsto> ?n)\<rparr>) q pl"
  proof (rule leaves_alone_own [OF n])
    show "n \<notin> retireds R" using heap_new [OF heap, of n] by simp
    show "n \<notin> set q" "n \<notin> set pl" using heap_held [OF heap, of n] by simp_all
    show "q \<noteq> []" "pl \<noteq> []" using heap_q [OF heap] heap_pl [OF heap] by auto
    show "\<exists>m. Some ?n = Some m \<and> n_data m = d'" if "n \<in> claims R" for d'
      using that heap_new [OF heap, of n] by simp
  qed
  ultimately show ?thesis using ok
    by (simp add: steps_well_def good_def shared_ok_def thread_step_def store_def zero_node_def)
qed

lemma step_Enq_xchg:
  assumes "good R H s q pl (Enq_xchg n d)"
  shows "steps_well a R H s q pl (Enq_xchg n d)"
proof -
  note ok = goodD [OF assms]
  have heap: "heap_ok (nodes s) (insert (New n) R) q pl" and n: "n \<notin> news R" using ok(1,6) by auto
  have nd: "nodes s n = Some \<lparr>n_data = d, n_next = NULL, n_can_free = 0\<rparr>" using ok(7) by simp
  have q: "q \<noteq> []" using heap_q [OF heap] by auto
  have "last q \<notin> links R" using chain_last [OF heap_q [OF heap]] by simp
  moreover have "heap_ok (nodes s) (insert (Link (last q)) R) (q @ [n]) pl"
    by (rule heap_enqueue [OF heap n nd]) simp
  moreover have "ends_ok (s\<lparr>tail := n\<rparr>) (q @ [n]) pl" using ok(2) q by (simp add: ends_ok_def)
  moreover have "succ_in (q @ [n]) (last q) n" using q by (simp add: succ_in_snoc)
  moreover have "hazards_ok (s\<lparr>tail := n\<rparr>) (tids R) (news R) H (q @ [n])"
    using ok(5) q by (fastforce simp: hazards_ok_def)
  moreover have "leaves_alone R H s q pl (s\<lparr>tail := n\<rparr>) (q @ [n]) pl"
    using q by (intro leaves_aloneI) (simp_all add: succ_in_snoc next_is_def may_free_def data_is_def)
  ultimately show ?thesis using ok by (simp add: steps_well_def good_def shared_ok_def thread_step_def ends_ok_def)
qed

lemma step_Enq_link:
  assumes "good R H s q pl (Enq_link n old)"
  shows "steps_well a R H s q pl (Enq_link n old)"
proof -
  note ok = goodD [OF assms]
  have "heap_ok (nodes s) (insert (Link old) R) q pl" "old \<notin> links R" "hazards_ok s (tids R) (news R) H q"
    "succ_in q old n"
    using ok(1,5,6,7) by auto
  from link_one [OF this(1,2) _ this(3)] this(4) obtain m where m: "nodes s old = Some m"
    "heap_ok ((nodes s)(old \<mapsto> m\<lparr>n_next := n\<rparr>)) R q pl"
    "hazards_ok (s\<lparr>nodes := (nodes s)(old \<mapsto> m\<lparr>n_next := n\<rparr>)\<rparr>) (tids R) (news R) H q"
    "leaves_alone R H s q pl (s\<lparr>nodes := (nodes s)(old \<mapsto> m\<lparr>n_next := n\<rparr>)\<rparr>) q pl" by blast
  then show ?thesis using ok
    by (simp add: steps_well_def good_def shared_ok_def thread_step_def store_def del: fun_upd_apply)
qed

text \<open>Thread ids.\<close>

lemma read_tid_map_in:
  assumes "ids_ok s T" and "0 \<le> i" and "i < MAXHPSIZE s"
  shows "read_tid_map s i = Some (if i \<in> T then 1 else 0)"
  using assms by (auto simp: ids_ok_def read_tid_map_def aread_def)

lemma write_tid_map_ok:
  assumes "ids_ok s T" and "0 \<le> i" and "i < MAXHPSIZE s" and "v = (if i \<in> T' then 1 else 0)"
    and "T' - {i} = T - {i}" and "i \<in> T' \<or> read_HP s i = Some NULL"
  obtains m where "write_tid_map i v s = Some (s\<lparr>tid_map := m\<rparr>)" and "ids_ok (s\<lparr>tid_map := m\<rparr>) T'"
proof -
  obtain hp tm where ids: "HP s = Some hp" "tid_map s = Some tm" "0 < MAXHPSIZE s"
    "MAXHPSIZE s \<le> int (length hp)" "MAXHPSIZE s \<le> int (length tm)" "T \<subseteq> {0..<MAXHPSIZE s}"
    "\<forall>i < length tm. tm ! i = (if int i \<in> T then 1 else 0)"
    "\<forall>i < length hp. int i \<notin> T \<longrightarrow> hp ! i = NULL"
    using assms(1) unfolding ids_ok_def by blast
  have T': "j \<in> T' \<longleftrightarrow> j \<in> T" if "j \<noteq> i" for j using assms(5) that by blast
  let ?m = "Some (tm[nat i := v])"
  have "write_tid_map i v s = Some (s\<lparr>tid_map := ?m\<rparr>)"
    using ids assms(2,3) by (simp add: write_tid_map_def awrite_def)
  moreover have "T' \<subseteq> {0..<MAXHPSIZE s}" using assms(2,3,5) ids(6) by auto
  moreover have "tm[nat i := v] ! j = (if int j \<in> T' then 1 else 0)" if "j < length tm" for j
    using that ids(7) T' [of "int j"] assms(2,4) by (cases "int j = i") auto
  moreover have "hp ! j = NULL" if "j < length hp" "int j \<notin> T'" for j
    using that ids(1,8) T' [of "int j"] assms(2,6) by (cases "int j = i") (auto simp: read_HP_def aread_def)
  ultimately show ?thesis using ids by (intro that [of ?m]) (auto simp: ids_ok_def)
qed

lemma write_HP_ok:
  assumes "ids_ok s T" and "t \<in> T"
  obtains hp where "write_HP t p s = Some (s\<lparr>HP := hp\<rparr>)" and "ids_ok (s\<lparr>HP := hp\<rparr>) T"
    and "read_HP (s\<lparr>HP := hp\<rparr>) t = Some p" and "\<forall>u. u \<noteq> t \<longrightarrow> read_HP (s\<lparr>HP := hp\<rparr>) u = read_HP s u"
proof -
  obtain hp tm where ids: "HP s = Some hp" "tid_map s = Some tm" "0 < MAXHPSIZE s"
    "MAXHPSIZE s \<le> int (length hp)" "MAXHPSIZE s \<le> int (length tm)" "T \<subseteq> {0..<MAXHPSIZE s}"
    "\<forall>i < length tm. tm ! i = (if int i \<in> T then 1 else 0)"
    "\<forall>i < length hp. int i \<notin> T \<longrightarrow> hp ! i = NULL"
    using assms(1) unfolding ids_ok_def by blast
  have "0 \<le> t \<and> t < MAXHPSIZE s" using ids(6) assms(2) by auto
  with ids(4) have t: "0 \<le> t" "nat t < length hp" by linarith+
  let ?hp = "Some (hp[nat t := p])"
  have "write_HP t p s = Some (s\<lparr>HP := ?hp\<rparr>)" using ids(1) t by (simp add: write_HP_def awrite_def)
  moreover have "ids_ok (s\<lparr>HP := ?hp\<rparr>) T"
    using ids assms(2) t by (auto simp: ids_ok_def nth_list_update)
  moreover have "read_HP (s\<lparr>HP := ?hp\<rparr>) t = Some p" using t by (simp add: read_HP_def aread_def)
  moreover have "read_HP (s\<lparr>HP := ?hp\<rparr>) u = read_HP s u" if "u \<noteq> t" for u
    using that t(1) ids(1) by (auto simp: read_HP_def aread_def)
  ultimately show ?thesis by (intro that [of ?hp]) auto
qed

lemma hazards_ok_HP:
  assumes "hazards_ok s T N H q" and "t \<notin> fst ` H" and "\<And>u. u \<noteq> t \<Longrightarrow> read_HP (s\<lparr>HP := hp\<rparr>) u = read_HP s u"
  shows "hazards_ok (s\<lparr>HP := hp\<rparr>) T N H q"
  using assms by (fastforce simp: hazards_ok_def)

lemma leaves_alone_HP:
  assumes "t \<notin> tids R" and "\<And>u. u \<noteq> t \<Longrightarrow> read_HP (s\<lparr>HP := hp\<rparr>) u = read_HP s u"
  shows "leaves_alone R H s q pl (s\<lparr>HP := hp\<rparr>) q pl"
proof (rule leaves_aloneI)
  show "read_HP (s\<lparr>HP := hp\<rparr>) u = read_HP s u" if "u \<in> tids R" for u
    using that assms by (cases "u = t") auto
qed (simp_all add: next_is_def may_free_def data_is_def)

text \<open>The step of a dequeue that writes its hazard pointer.\<close>

lemma step_writes_HP:
  assumes good: "good R H s q pl pc" and "Tid t \<in> held pc" and "held pc' = held pc"
    and hz: "hazards pc' = {}" and "hazards pc = {}"
    and step: "\<And>hp. write_HP t p s = Some (s\<lparr>HP := hp\<rparr>) \<Longrightarrow> thread_step a pc s = Some (pc', s\<lparr>HP := hp\<rparr>)"
    and kn: "\<And>hp. read_HP (s\<lparr>HP := hp\<rparr>) t = Some p \<Longrightarrow> knows (s\<lparr>HP := hp\<rparr>) H q pl pc'"
    and "queue_after s pc q = q" and "pool_after pc pl = pl"
  shows "steps_well a R H s q pl pc"
proof -
  note ok = goodD [OF good]
  have "Tid t \<notin> R" using assms(2) ok(6) by blast
  with assms(2) have t: "t \<in> tids (R \<union> held pc)" "t \<notin> tids R" by simp_all
  then have "t \<notin> fst ` H" using ok(8) by blast
  obtain hp where hp: "write_HP t p s = Some (s\<lparr>HP := hp\<rparr>)" "ids_ok (s\<lparr>HP := hp\<rparr>) (tids (R \<union> held pc))"
    "read_HP (s\<lparr>HP := hp\<rparr>) t = Some p" and o: "\<forall>u. u \<noteq> t \<longrightarrow> read_HP (s\<lparr>HP := hp\<rparr>) u = read_HP s u"
    by (rule write_HP_ok [OF ok(4) t(1), of p])
  have hp4: "read_HP (s\<lparr>HP := hp\<rparr>) u = read_HP s u" if "u \<noteq> t" for u using o that by simp
  have "hazards_ok s (tids (R \<union> held pc)) (news (R \<union> held pc)) H q" using ok(5) assms(5) by simp
  from hazards_ok_HP [OF this \<open>t \<notin> fst ` H\<close> hp4]
  have "hazards_ok (s\<lparr>HP := hp\<rparr>) (tids (R \<union> held pc)) (news (R \<union> held pc)) H q" .
  with hp ok(1-3,6,8) assms(3,8,9) hz kn step leaves_alone_HP [OF t(2) hp4] show ?thesis
    unfolding steps_well_def good_def shared_ok_def by (intro exI [of _ pc'] exI [of _ "s\<lparr>HP := hp\<rparr>"]) simp
qed

lemma step_Tid_read:
  assumes "good R H s q pl (Tid_read i)"
  shows "steps_well a R H s q pl (Tid_read i)"
proof -
  note ok = goodD [OF assms]
  have i: "0 \<le> i" using ok(7) by simp
  show ?thesis
  proof (cases "i < MAXHPSIZE s")
    case True
    with i read_tid_map_in [OF ok(4) i True] obtain pc' where
      "thread_step a (Tid_read i) s = Some (pc', s)" "pc' = Tid_cas i \<or> pc' = Tid_read (i + 1)"
      by (auto simp: thread_step_def)
    with i True stays [OF assms this(1)] show ?thesis by auto
  next
    case False
    then have "thread_step a (Tid_read i) s = Some (Deq_ret MINUS_ONE, s)" by (simp add: thread_step_def)
    from stays [OF assms this] show ?thesis by simp
  qed
qed

lemma step_Tid_cas:
  assumes "good R H s q pl (Tid_cas i)"
  shows "steps_well a R H s q pl (Tid_cas i)"
proof -
  note ok = goodD [OF assms]
  have i: "0 \<le> i" "i < MAXHPSIZE s" and ids: "ids_ok s (tids R)" using ok(4,7) by simp_all
  have rd: "read_tid_map s i = Some (if i \<in> tids R then 1 else 0)" by (rule read_tid_map_in [OF ids i])
  have la: "leaves_alone R H s q pl (s\<lparr>tid_map := m\<rparr>) q pl" for m by (rule leaves_alone_same) simp_all
  show ?thesis
  proof (cases "i \<in> tids R")
    case True
    obtain m where "write_tid_map i 1 s = Some (s\<lparr>tid_map := m\<rparr>)" "ids_ok (s\<lparr>tid_map := m\<rparr>) (tids R)"
      by (rule write_tid_map_ok [OF ids i, of 1 "tids R"]) (use True in auto)
    with True i ok rd la show ?thesis
      by (simp add: steps_well_def good_def shared_ok_def thread_step_def CAS_def)
  next
    case False
    obtain m where "write_tid_map i 1 s = Some (s\<lparr>tid_map := m\<rparr>)" "ids_ok (s\<lparr>tid_map := m\<rparr>) (insert i (tids R))"
      by (rule write_tid_map_ok [OF ids i, of 1 "insert i (tids R)"]) auto
    moreover have "hazards_ok s (insert i (tids R)) (news R) H q" using ok(5) by (auto simp: hazards_ok_def)
    ultimately show ?thesis using False i ok rd la
      by (simp add: steps_well_def good_def shared_ok_def thread_step_def CAS_def)
  qed
qed

lemma step_Deq_head:
  assumes "good R H s q pl (Deq_head t)"
  shows "steps_well a R H s q pl (Deq_head t)"
proof -
  have "thread_step a (Deq_head t) s = Some (Deq_hp t (head s), s)" by (simp add: thread_step_def)
  from stays [OF assms this] show ?thesis by simp
qed

lemma step_Deq_hp:
  assumes "good R H s q pl (Deq_hp t oh)"
  shows "steps_well a R H s q pl (Deq_hp t oh)"
  by (rule step_writes_HP [OF assms, where pc' = "Deq_check t oh" and t = t and p = oh]) (simp_all add: thread_step_def)

lemma step_Deq_clear:
  assumes "good R H s q pl (Deq_clear t oh nh)"
  shows "steps_well a R H s q pl (Deq_clear t oh nh)"
  by (rule step_writes_HP [OF assms, where pc' = "Deq_data t oh nh" and t = t and p = NULL])
    (simp_all add: thread_step_def)

lemma step_Deq_empty:
  assumes "good R H s q pl (Deq_empty t)"
  shows "steps_well a R H s q pl (Deq_empty t)"
  by (rule step_writes_HP [OF assms, where pc' = "Tid_free t NULL" and t = t and p = NULL])
    (simp_all add: thread_step_def)

lemma queue_allocated:
  assumes "heap_ok h R q pl"
  shows "q \<noteq> []" and "hd q \<in> set q" and "h (hd q) \<noteq> None" and "hd q \<notin> set (tl q)" and "hd q \<notin> news R"
proof -
  show q: "q \<noteq> []" using heap_q [OF assms] by auto
  then show h: "hd q \<in> set q" by simp
  then show "h (hd q) \<noteq> None" using heap_dom [OF assms, of "hd q"] by auto
  show "hd q \<notin> set (tl q)" using q heap_distinct(1) [OF assms] by (cases q) auto
  show "hd q \<notin> news R" using h heap_held [OF assms, of "hd q"] by auto
qed

lemma step_Deq_check:
  assumes "good R H s q pl (Deq_check t oh)"
  shows "steps_well a R H s q pl (Deq_check t oh)"
proof (cases "oh = head s")
  case False
  then have "thread_step a (Deq_check t oh) s = Some (Deq_head t, s)" by (simp add: thread_step_def)
  from stays [OF assms this] show ?thesis by simp
next
  case True
  note ok = goodD [OF assms]
  have oh: "oh = hd q" using True ok(2) by (simp add: ends_ok_def)
  have "hazards_ok s (insert t (tids R)) (news R) (insert (t, oh) H) q"
    using ok(5,7) queue_allocated [OF ok(1)] oh by (simp add: hazards_ok_def)
  moreover have "oh \<in> set q" using queue_allocated(2) [OF ok(1)] oh by simp
  ultimately show ?thesis using ok True by (simp add: steps_well_def good_def shared_ok_def thread_step_def)
qed

lemma step_Deq_next:
  assumes "good R H s q pl (Deq_next t oh)"
  shows "steps_well a R H s q pl (Deq_next t oh)"
proof -
  note ok = goodD [OF assms]
  obtain n where n: "nodes s oh = Some n" using ok(5) by (auto simp: hazards_ok_def)
  show ?thesis
  proof (cases "n_next n = NULL")
    case True
    then have "thread_step a (Deq_next t oh) s = Some (Deq_empty t, s)" using n by (simp add: thread_step_def load_def)
    moreover have "hazards_ok s (insert t (tids R)) (news R) H q" using ok(5) by (simp add: hazards_ok_def)
    ultimately show ?thesis using ok by (simp add: steps_well_def good_def shared_ok_def)
  next
    case False
    then have "thread_step a (Deq_next t oh) s = Some (Deq_cas t oh (n_next n), s)"
      using n by (simp add: thread_step_def load_def)
    from stays [OF assms this] False n show ?thesis by (simp add: next_is_def)
  qed
qed

lemma step_Deq_cas:
  assumes "good R H s q pl (Deq_cas t oh nh)"
  shows "steps_well a R H s q pl (Deq_cas t oh nh)"
proof -
  note ok = goodD [OF assms]
  have hz: "hazards_ok s (insert t (tids R)) (news R) H q" using ok(5) by (simp add: hazards_ok_def)
  show ?thesis
  proof (cases "head s = oh")
    case False
    then have "thread_step a (Deq_cas t oh nh) s = Some (Deq_head t, s)" by (simp add: thread_step_def)
    then show ?thesis using ok hz False by (simp add: steps_well_def good_def shared_ok_def)
  next
    case True
    have heap: "heap_ok (nodes s) R q pl" using ok(1) by simp
    have oh: "hd q = oh" using True ok(2) by (simp add: ends_ok_def)
    with ok(7) obtain n where "nodes s (hd q) = Some n" "n_next n = nh" "nh \<noteq> NULL" by (auto simp: next_is_def)
    with chain_head [OF heap_q [OF heap]] oh obtain r where q: "q = oh # nh # r" "oh \<notin> links R" by blast
    have "oh \<notin> retireds R" "nh \<notin> claims R" using heap_held [OF heap, of oh] heap_claims(2) [OF heap, of nh] q by auto
    moreover have "heap_ok (nodes s) (insert (Retired oh) (insert (Claim nh) R)) (nh # r) pl"
      using heap_dequeue heap q by blast
    moreover have "ends_ok (s\<lparr>head := nh\<rparr>) (nh # r) pl" using ok(2) q by (simp add: ends_ok_def)
    moreover have "hazards_ok s (insert t (tids R)) (news R) H (nh # r)" using hz q by (auto simp: hazards_ok_def)
    moreover have "leaves_alone R H s q pl (s\<lparr>head := nh\<rparr>) (nh # r) pl"
      by (rule leaves_aloneI)
         (use hz q in \<open>auto simp: next_is_def may_free_def data_is_def read_HP_def hazards_ok_def\<close>)
    ultimately show ?thesis using ok True unfolding q(1)
      by (simp add: steps_well_def good_def shared_ok_def thread_step_def insert_commute)
  qed
qed

lemma step_Deq_data:
  assumes "good R H s q pl (Deq_data t oh nh)"
  shows "steps_well a R H s q pl (Deq_data t oh nh)"
proof -
  note ok = goodD [OF assms]
  have "nh \<in> set q \<union> set pl \<union> retireds (R \<union> held (Deq_data t oh nh))" using heap_claims(1) [OF ok(1)] by auto
  then obtain n where "nodes s nh = Some n" using heap_dom [OF ok(1), of nh] by auto
  then have "thread_step a (Deq_data t oh nh) s = Some (Deq_can_free t oh nh (n_data n), s)"
    by (simp add: thread_step_def load_def)
  from stays [OF assms this] show ?thesis using ok(7) by simp
qed

lemma step_Deq_can_free:
  assumes "good R H s q pl (Deq_can_free t oh nh ret)"
  shows "steps_well a R H s q pl (Deq_can_free t oh nh ret)"
proof -
  note ok = goodD [OF assms]
  have heap: "heap_ok (nodes s) (insert (Claim nh) (insert (Retired oh) R)) q pl" and nh: "nh \<notin> claims R"
    using ok(1,6) by (auto simp: insert_commute)
  have "nh \<in> set q \<union> set pl \<union> insert oh (retireds R)" using heap_claims(1) [OF heap] by auto
  then obtain n where n: "nodes s nh = Some n" using heap_dom [OF heap, of nh] by auto
  have "nh \<notin> news R" using heap_new [OF heap, of nh] by auto
  have "heap_ok ((nodes s)(nh \<mapsto> n\<lparr>n_can_free := 1\<rparr>)) (insert (Retired oh) R) q pl"
    by (rule heap_mark [OF heap _ n]) (use nh in simp)
  moreover have "hazards_ok (s\<lparr>nodes := (nodes s)(nh \<mapsto> n\<lparr>n_can_free := 1\<rparr>)\<rparr>) (insert t (tids R)) (news R) H q"
    using ok(5) by (intro hazards_ok_write) simp
  moreover have "leaves_alone R H s q pl (s\<lparr>nodes := (nodes s)(nh \<mapsto> n\<lparr>n_can_free := 1\<rparr>)\<rparr>) q pl"
    using \<open>nh \<notin> news R\<close> by (intro leaves_alone_evolve [OF n]) auto
  ultimately show ?thesis using ok n
    by (simp add: steps_well_def good_def shared_ok_def thread_step_def store_def del: fun_upd_apply)
qed

lemma step_Deq_safe_free:
  assumes "good R H s q pl (Deq_safe_free t ret fp)"
  shows "steps_well a R H s q pl (Deq_safe_free t ret fp)"
proof (cases "fp = Fp_return")
  case True
  then have "thread_step a (Deq_safe_free t ret fp) s = Some (Tid_free t ret, s)" by (simp add: thread_step_def)
  from stays [OF assms this] show ?thesis using True goodD(7) [OF assms] by simp
next
  case False
  note ok = goodD [OF assms]
  have "free_good (insert (Tid t) R) H s q pl fp"
    using ok by (cases fp) (simp_all add: free_good_def shared_ok_def)
  from free_steps [OF this] obtain fp' s' where st: "free_step fp s = Some (fp', s')"
    "free_good (insert (Tid t) R) H s' q (pool_after_free fp pl) fp'"
    "leaves_alone (insert (Tid t) R) H s q pl s' q (pool_after_free fp pl)" "HP s' = HP s" "tid_map s' = tid_map s"
    unfolding free_steps_well_def by blast
  have "t \<notin> tids R" using ok(6) by auto
  have "good R H s' q (pool_after_free fp pl) (Deq_safe_free t ret fp')"
    using st(2,4) ok(7,8) \<open>t \<notin> tids R\<close> by (auto simp: good_def free_good_def read_HP_def)
  moreover have "leaves_alone R H s q pl s' q (pool_after_free fp pl)"
    using st(3) by (rule leaves_alone_mono) auto
  ultimately show ?thesis using st(1) False by (simp add: steps_well_def thread_step_def)
qed

lemma step_Tid_free:
  assumes "good R H s q pl (Tid_free t ret)"
  shows "steps_well a R H s q pl (Tid_free t ret)"
proof -
  note ok = goodD [OF assms]
  have ids: "ids_ok s (insert t (tids R))" and t: "t \<notin> tids R" "read_HP s t = Some NULL" using ok(4,6,7) by auto
  have i: "0 \<le> t" "t < MAXHPSIZE s" using ids by (auto simp: ids_ok_def)
  obtain m where "write_tid_map t 0 s = Some (s\<lparr>tid_map := m\<rparr>)" "ids_ok (s\<lparr>tid_map := m\<rparr>) (tids R)"
    by (rule write_tid_map_ok [OF ids i, of 0 "tids R"]) (use t in auto)
  moreover have "hazards_ok s (tids R) (news R) H q" using ok(5,8) t(1) by (fastforce simp: hazards_ok_def)
  moreover have "leaves_alone R H s q pl (s\<lparr>tid_map := m\<rparr>) q pl" by (rule leaves_alone_same) simp_all
  ultimately show ?thesis using ok by (simp add: steps_well_def good_def shared_ok_def thread_step_def)
qed

text \<open>Whatever a thread does next.\<close>

lemma thread_steps:
  assumes "good R H s q pl pc" and "running pc" and "nodes s a = None"
  shows "steps_well a R H s q pl pc"
proof (cases pc)
  case (Enq_calloc d) then show ?thesis using assms step_Enq_calloc by simp
next
  case (Enq_data n d) then show ?thesis using assms step_Enq_data by simp
next
  case (Enq_xchg n d) then show ?thesis using assms step_Enq_xchg by simp
next
  case (Enq_link n old) then show ?thesis using assms step_Enq_link by simp
next
  case (Tid_read i) then show ?thesis using assms step_Tid_read by simp
next
  case (Tid_cas i) then show ?thesis using assms step_Tid_cas by simp
next
  case (Deq_head t) then show ?thesis using assms step_Deq_head by simp
next
  case (Deq_hp t oh) then show ?thesis using assms step_Deq_hp by simp
next
  case (Deq_check t oh) then show ?thesis using assms step_Deq_check by simp
next
  case (Deq_next t oh) then show ?thesis using assms step_Deq_next by simp
next
  case (Deq_empty t) then show ?thesis using assms step_Deq_empty by simp
next
  case (Deq_cas t oh nh) then show ?thesis using assms step_Deq_cas by simp
next
  case (Deq_clear t oh nh) then show ?thesis using assms step_Deq_clear by simp
next
  case (Deq_data t oh nh) then show ?thesis using assms step_Deq_data by simp
next
  case (Deq_can_free t oh nh ret) then show ?thesis using assms step_Deq_can_free by simp
next
  case (Deq_safe_free t ret fp) then show ?thesis using assms step_Deq_safe_free by simp
next
  case (Tid_free t ret) then show ?thesis using assms step_Tid_free by simp
qed (use assms in simp_all)

end
