(* ===== verification/Lfq_Threads_Refine.thy ===== *)
theory Lfq_Threads_Refine
  imports Lfq_Threads_Steps Lfq_Seq
begin

text \<open>
  The queue that several threads use, against a queue whose operations are atomic: the invariant of all threads
  together, the atomic queue, the simulation between the two, and the return to the sequential
  invariant when no thread is inside an operation.
\<close>

section \<open>All threads together\<close>

definition all_held :: "threads \<Rightarrow> resource set" where "all_held c = (\<Union>u. held (pcs c u))"
definition all_hazards :: "threads \<Rightarrow> (int \<times> addr) set" where "all_hazards c = (\<Union>u. hazards (pcs c u))"
definition held_by_others :: "nat \<Rightarrow> threads \<Rightarrow> resource set" where
  "held_by_others t c = (\<Union>u \<in> - {t}. held (pcs c u))"
definition hazards_of_others :: "nat \<Rightarrow> threads \<Rightarrow> (int \<times> addr) set" where
  "hazards_of_others t c = (\<Union>u \<in> - {t}. hazards (pcs c u))"

definition threads_ok :: "threads \<Rightarrow> addr list \<Rightarrow> addr list \<Rightarrow> bool" where
  "threads_ok c q pl \<longleftrightarrow>
     shared_ok (queue c) (all_held c) (all_hazards c) q pl \<and>
     (\<forall>u v. u \<noteq> v \<longrightarrow> held (pcs c u) \<inter> held (pcs c v) = {}) \<and>
     (\<forall>u. knows (queue c) (all_hazards c) q pl (pcs c u))"

lemma all_held_split: "all_held c = held_by_others t c \<union> held (pcs c t)"
  by (auto simp: all_held_def held_by_others_def simp del: held_in_iff)

lemma all_hazards_split: "all_hazards c = hazards_of_others t c \<union> hazards (pcs c t)"
  by (auto simp: all_hazards_def hazards_of_others_def)

lemma hazards_held: "(i, x) \<in> hazards pc \<Longrightarrow> Tid i \<in> held pc"
  by (cases pc) auto

lemma goto_simps [simp]:
  "queue (goto t pc c) = queue c" "pcs (goto t pc c) = (pcs c)(t := pc)"
  "held_by_others t (goto t pc c) = held_by_others t c" "hazards_of_others t (goto t pc c) = hazards_of_others t c"
  "held_by_others t (c\<lparr>queue := s\<rparr>) = held_by_others t c" "hazards_of_others t (c\<lparr>queue := s\<rparr>) = hazards_of_others t c"
  by (simp_all add: goto_def held_by_others_def hazards_of_others_def)

lemma hazards_of_others_held: "fst ` hazards_of_others t c \<subseteq> tids (held_by_others t c)"
proof
  fix i assume "i \<in> fst ` hazards_of_others t c"
  then obtain x u where "u \<noteq> t" "(i, x) \<in> hazards (pcs c u)" unfolding hazards_of_others_def by force
  then have "Tid i \<in> held_by_others t c" using hazards_held unfolding held_by_others_def by blast
  then show "i \<in> tids (held_by_others t c)" by simp
qed

lemma threads_ok_good:
  assumes "threads_ok c q pl"
  shows "good (held_by_others t c) (hazards_of_others t c) (queue c) q pl (pcs c t)"
proof -
  have "held_by_others t c \<inter> held (pcs c t) = {}"
    using assms unfolding threads_ok_def held_by_others_def by blast
  then show ?thesis
    using assms hazards_of_others_held [of t c] all_held_split [of c t] all_hazards_split [of c t]
    by (simp add: good_def threads_ok_def)
qed

text \<open>A thread moves on by itself.\<close>

lemma threads_ok_move:
  assumes ok: "threads_ok c q pl"
    and good: "good (held_by_others t c) (hazards_of_others t c) s q' pl' pc"
    and la: "leaves_alone (held_by_others t c) (hazards_of_others t c) (queue c) q pl s q' pl'"
    and hz: "\<forall>(i, x) \<in> hazards pc. (i, x) \<in> hazards (pcs c t) \<or> x \<in> set q'"
  shows "threads_ok (goto t pc c\<lparr>queue := s\<rparr>) q' pl'"
proof -
  let ?c = "goto t pc c\<lparr>queue := s\<rparr>"
  have split: "all_held ?c = held_by_others t c \<union> held pc" "all_hazards ?c = hazards_of_others t c \<union> hazards pc"
    using all_held_split [of ?c t] all_hazards_split [of ?c t] by simp_all
  have g: "shared_ok s (all_held ?c) (all_hazards ?c) q' pl'" "held_by_others t c \<inter> held pc = {}"
    "knows s (all_hazards ?c) q' pl' pc"
    using good unfolding good_def split by simp_all
  have others: "held (pcs c u) \<subseteq> held_by_others t c" "hazards (pcs c u) \<subseteq> hazards_of_others t c" if "u \<noteq> t" for u
    using that by (auto simp: held_by_others_def hazards_of_others_def simp del: held_in_iff)
  have "knows s (all_hazards ?c) q' pl' (pcs c u)" if "u \<noteq> t" for u
  proof (rule knows_stable)
    show "knows (queue c) (all_hazards c) q pl (pcs c u)" using ok by (simp add: threads_ok_def)
    show "leaves_alone (held (pcs c u)) (hazards (pcs c u)) (queue c) q pl s q' pl'"
      using la others [OF that] by (rule leaves_alone_mono)
    show "heap_ok (nodes s) (all_held ?c) q' pl'" using g(1) by (simp add: shared_ok_def)
    show "held (pcs c u) \<subseteq> all_held ?c" using others(1) [OF that] unfolding split by blast
    show "(i, x) \<in> all_hazards c \<or> x \<in> set q'" if "(i, x) \<in> all_hazards ?c" for i x
      using that hz unfolding split all_hazards_split [of c t] by auto
  qed
  moreover have "held (pcs ?c u) \<inter> held (pcs ?c v) = {}" if "u \<noteq> v" for u v
  proof -
    have "held (pcs c u) \<inter> held (pcs c v) = {}" using ok that unfolding threads_ok_def by blast
    moreover have "held pc \<inter> held (pcs c w) = {}" if "w \<noteq> t" for w using g(2) others(1) [OF that] by blast
    ultimately show ?thesis using that by (simp add: Int_commute)
  qed
  ultimately show ?thesis using g(1,3) by (simp add: threads_ok_def)
qed

text \<open>A call or a return: the thread holds nothing before and after.\<close>

lemma threads_ok_goto:
  assumes "threads_ok c q pl" and "held (pcs c t) = {}" and "hazards (pcs c t) = {}"
    and "held pc = {}" and "hazards pc = {}" and "\<And>s H. knows s H q pl pc"
  shows "threads_ok (goto t pc c) q pl"
proof -
  have "good (held_by_others t c) (hazards_of_others t c) (queue c) q pl pc"
    using threads_ok_good [OF assms(1), of t] assms(2-) by (simp add: good_def)
  from threads_ok_move [OF assms(1) this] assms(5) show ?thesis by (simp add: goto_def)
qed

lemma threads_ok_run:
  assumes "threads_ok c q pl" and "running (pcs c t)" and "nodes (queue c) a = None"
  obtains pc s where "thread_step a (pcs c t) (queue c) = Some (pc, s)"
    and "threads_ok (goto t pc c\<lparr>queue := s\<rparr>) (queue_after (queue c) (pcs c t) q) (pool_after (pcs c t) pl)"
    and "leaves_alone (held_by_others t c) (hazards_of_others t c) (queue c) q pl s
           (queue_after (queue c) (pcs c t) q) (pool_after (pcs c t) pl)"
proof -
  from thread_steps [OF threads_ok_good [OF assms(1)] assms(2,3)] threads_ok_move [OF assms(1)] that
  show ?thesis unfolding steps_well_def by blast
qed

lemma threads_ok_step:
  assumes "threads_step c l c'" and "threads_ok c q pl"
  shows "\<exists>q' pl'. threads_ok c' q' pl'"
  using assms
proof cases
  case (call_enqueue t d)
  then have "threads_ok c' q pl" using threads_ok_goto [OF assms(2), of t "Enq_calloc d"] by simp
  then show ?thesis by blast
next
  case (call_dequeue t)
  then have "threads_ok c' q pl" using threads_ok_goto [OF assms(2), of t "Tid_read 0"] by simp
  then show ?thesis by blast
next
  case (return_enqueue t r)
  then have "threads_ok c' q pl" using threads_ok_goto [OF assms(2), of t Idle] by simp
  then show ?thesis by blast
next
  case (return_dequeue t v)
  then have "threads_ok c' q pl" using threads_ok_goto [OF assms(2), of t Idle] by simp
  then show ?thesis by blast
next
  case (run t a pc s)
  from threads_ok_run [OF assms(2) this(3,4)] this show ?thesis by (metis option.inject prod.inject)
qed

lemma threads_ok_runs:
  assumes "runs threads_step c ls c'" and "threads_ok c q pl"
  shows "\<exists>q' pl'. threads_ok c' q' pl'"
  using assms by (induction rule: runs.induct) (blast dest: threads_ok_step)+

section \<open>The atomic queue\<close>

text \<open>
  Where a thread stands: outside, in an enqueue before or after it takes effect, in a dequeue before or after.
  The flag says that another dequeue has taken an element since this one was called.
\<close>

datatype status =
    S_idle
  | S_enqueue addr
  | S_enqueued int
  | S_dequeue bool
  | S_dequeued addr

fun overtaken :: "status \<Rightarrow> status" where
  "overtaken (S_dequeue b) = S_dequeue True"
| "overtaken st = st"

record fifo_threads =
  items :: "addr list"
  status :: "nat \<Rightarrow> status"

definition become :: "nat \<Rightarrow> status \<Rightarrow> fifo_threads \<Rightarrow> fifo_threads" where
  "become t st f = f\<lparr>status := (status f)(t := st)\<rparr>"

text \<open>
  A dequeue may answer \<open>NULL\<close> when the queue is empty; if \<open>lax\<close>, also when another dequeue has overtaken it or
  while an enqueue has taken effect and not returned.  It may answer -1 when it finds no thread id.
\<close>

inductive fifo_step :: "bool \<Rightarrow> fifo_threads \<Rightarrow> label \<Rightarrow> fifo_threads \<Rightarrow> bool" for lax where
  fifo_call_enqueue: "status f t = S_idle \<Longrightarrow> fifo_step lax f (Call_enqueue t d) (become t (S_enqueue d) f)"
| fifo_call_dequeue: "status f t = S_idle \<Longrightarrow> fifo_step lax f (Call_dequeue t) (become t (S_dequeue False) f)"
| fifo_return_enqueue: "status f t = S_enqueued r \<Longrightarrow> fifo_step lax f (Return_enqueue t r) (become t S_idle f)"
| fifo_return_dequeue: "status f t = S_dequeued v \<Longrightarrow> fifo_step lax f (Return_dequeue t v) (become t S_idle f)"
| fifo_enqueue: "status f t = S_enqueue d \<Longrightarrow>
    fifo_step lax f Tau (become t (S_enqueued 0) f\<lparr>items := items f @ [d]\<rparr>)"
| fifo_enqueue_fails: "status f t = S_enqueue d \<Longrightarrow> fifo_step lax f Tau (become t (S_enqueued (- ENOMEM)) f)"
| fifo_dequeue: "status f t = S_dequeue b \<Longrightarrow> items f = d # ds \<Longrightarrow>
    fifo_step lax f Tau (become t (S_dequeued d) (f\<lparr>items := ds, status := overtaken \<circ> status f\<rparr>))"
| fifo_dequeue_empty: "status f t = S_dequeue b \<Longrightarrow> items f = [] \<or> lax \<and> (b \<or> (\<exists>u. status f u = S_enqueued 0)) \<Longrightarrow>
    fifo_step lax f Tau (become t (S_dequeued NULL) f)"
| fifo_dequeue_busy: "status f t = S_dequeue b \<Longrightarrow> fifo_step lax f Tau (become t (S_dequeued MINUS_ONE) f)"

definition fifo_start :: "addr list \<Rightarrow> fifo_threads" where
  "fifo_start xs = \<lparr>items = xs, status = (\<lambda>t. S_idle)\<rparr>"

lemma become_simps [simp]:
  "items (become t st f) = items f" "status (become t st f) = (status f)(t := st)"
  by (simp_all add: become_def)

section \<open>Simulation\<close>

text \<open>Every step of the one is a step of the other or leaves it where it is.\<close>

locale simulation =
  fixes cstep :: "'c \<Rightarrow> label \<Rightarrow> 'c \<Rightarrow> bool"
    and astep :: "'a \<Rightarrow> label \<Rightarrow> 'a \<Rightarrow> bool"
    and sim :: "'c \<Rightarrow> 'a \<Rightarrow> bool"
  assumes sim_step: "sim c a \<Longrightarrow> cstep c l c' \<Longrightarrow> (\<exists>a'. astep a l a' \<and> sim c' a') \<or> l = Tau \<and> sim c' a"
begin

lemma runs_simulated:
  assumes "runs cstep c ls c'" and "sim c a"
  shows "\<exists>a'. runs astep a ls a' \<and> sim c' a'"
  using assms
proof (induction rule: runs.induct)
  case (runs_nil c)
  then show ?case by (blast intro: runs.runs_nil)
next
  case (runs_tau c ls c' c'')
  then obtain a' where "runs astep a ls a'" "sim c' a'" by blast
  with sim_step [OF this(2) runs_tau.hyps(2)] show ?case by (blast intro: runs.runs_tau)
next
  case (runs_label c ls c' l c'')
  then obtain a' where "runs astep a ls a'" "sim c' a'" by blast
  with sim_step [OF this(2) runs_label.hyps(2)] runs_label.hyps(3) show ?case by (blast intro: runs.runs_label)
qed

end

text \<open>The status of a thread by its place in the code; a dequeue whose \<open>old_head\<close> is not the head has been overtaken.\<close>

fun status_ok :: "lfq \<Rightarrow> addr list \<Rightarrow> pc \<Rightarrow> status \<Rightarrow> bool" where
  "status_ok s q Idle st = (st = S_idle)"
| "status_ok s q (Enq_calloc d) st = (st = S_enqueue d)"
| "status_ok s q (Enq_data n d) st = (st = S_enqueue d)"
| "status_ok s q (Enq_xchg n d) st = (st = S_enqueue d)"
| "status_ok s q (Enq_link n old) st = (st = S_enqueued 0)"
| "status_ok s q (Enq_ret r) st = (st = S_enqueued r)"
| "status_ok s q (Deq_hp t oh) st = (\<exists>b. st = S_dequeue b \<and> (hd q = oh \<or> b))"
| "status_ok s q (Deq_check t oh) st = (\<exists>b. st = S_dequeue b \<and> (hd q = oh \<or> b))"
| "status_ok s q (Deq_next t oh) st = (\<exists>b. st = S_dequeue b \<and> (hd q = oh \<or> b))"
| "status_ok s q (Deq_empty t) st = (st = S_dequeued NULL)"
| "status_ok s q (Deq_clear t oh nh) st = (\<exists>v. data_is s nh v \<and> st = S_dequeued v)"
| "status_ok s q (Deq_data t oh nh) st = (\<exists>v. data_is s nh v \<and> st = S_dequeued v)"
| "status_ok s q (Deq_can_free t oh nh ret) st = (st = S_dequeued ret)"
| "status_ok s q (Deq_safe_free t ret fp) st = (st = S_dequeued ret)"
| "status_ok s q (Tid_free t ret) st = (st = S_dequeued ret)"
| "status_ok s q (Deq_ret ret) st = (st = S_dequeued ret)"
| "status_ok s q _ st = (\<exists>b. st = S_dequeue b)"

definition node_data :: "lfq \<Rightarrow> addr \<Rightarrow> addr" where
  "node_data s x = n_data (the (nodes s x))"

definition fifo_sim :: "threads \<Rightarrow> fifo_threads \<Rightarrow> bool" where
  "fifo_sim c f \<longleftrightarrow>
     (\<exists>q pl. threads_ok c q pl \<and> items f = map (node_data (queue c)) (tl q) \<and>
        (\<forall>t. status_ok (queue c) q (pcs c t) (status f t)))"

lemma status_ok_stable:
  assumes "status_ok s q pc st" and la: "leaves_alone (held pc) H s q pl s' q' pl'" and "hd q' = hd q"
  shows "status_ok s' q' pc st"
  using assms(1,3) leaves_aloneD(5) [OF la] by (cases pc) auto

lemma status_ok_overtaken:
  assumes "status_ok s q pc st" and la: "leaves_alone (held pc) H s q pl s' q' pl'"
  shows "status_ok s' q' pc (overtaken st)"
  using assms(1) leaves_aloneD(5) [OF la] by (cases pc) auto

text \<open>No step changes the data of a node, except for a new one that its thread holds.\<close>

lemma free_step_data:
  assumes "free_step fp s = Some (fp', s')" and "nodes s x = Some n" and "nodes s' x = Some n'"
  shows "n_data n' = n_data n"
  using assms by (cases "(fp, s)" rule: free_step.cases)
    (auto simp: load_def store_def free_node_def CAS_def split: if_splits option.splits bind_splits)

lemma thread_step_data:
  assumes "thread_step a pc s = Some (pc', s')" and "nodes s a = None" and "New x \<notin> held pc"
    and "nodes s x = Some n" and "nodes s' x = Some n'"
  shows "n_data n' = n_data n"
proof (cases pc)
  case (Deq_safe_free t ret fp)
  with assms free_step_data [of fp s _ s' x n n'] show ?thesis
    by (auto simp: thread_step_def split: if_splits bind_splits)
qed (use assms in \<open>auto simp: thread_step_def calloc_node_def store_def load_def write_HP_def write_tid_map_def
        CAS_def split: if_splits option.splits bind_splits\<close>)

text \<open>The status of the thread that moves: unchanged, or one of the three answers that change no element.\<close>

lemma own_status:
  assumes "thread_step a pc s = Some (pc', s')" and "status_ok s q pc st" and "ends_ok s q pl" and "q \<noteq> []"
    and "running pc" and "queue_after s pc q = q"
  shows "status_ok s' q pc' st \<or> (\<exists>d. st = S_enqueue d \<and> pc' = Enq_ret (- ENOMEM)) \<or>
     (\<exists>b. st = S_dequeue b \<and> pc' = Deq_ret MINUS_ONE) \<or>
     (\<exists>b t oh. st = S_dequeue b \<and> pc = Deq_next t oh \<and> pc' = Deq_empty t \<and> next_is s oh NULL \<and> (hd q = oh \<or> b))"
proof (cases pc)
  case (Deq_safe_free t ret fp)
  with assms(1,2) show ?thesis by (cases "fp = Fp_return") (auto simp: thread_step_def split: bind_splits)
next
  case (Deq_cas t oh nh)
  with assms(4,6) have "head s \<noteq> oh" by (cases q) auto
  with assms(1,2) Deq_cas show ?thesis by (auto simp: thread_step_def)
next
  case (Tid_read i)
  with assms(1,2) show ?thesis by (auto simp: thread_step_def split: if_splits bind_splits)
next
  case (Deq_next t oh)
  with assms(1,2) show ?thesis
    by (auto simp: thread_step_def load_def next_is_def split: if_splits bind_splits)
qed (use assms in \<open>auto simp: thread_step_def ends_ok_def load_def data_is_def write_HP_def
        write_tid_map_def store_def CAS_def split: if_splits option.splits bind_splits\<close>)

text \<open>A thread that reads no successor at the head: the queue is empty, or some enqueue has still to set the link.\<close>

lemma succ_of_empty:
  assumes ok: "threads_ok c q pl" and "next_is (queue c) (hd q) NULL"
  shows "tl q = [] \<or> (\<exists>u n old. pcs c u = Enq_link n old)"
proof (cases "tl q")
  case (Cons y r)
  have heap: "heap_ok (nodes (queue c)) (all_held c) q pl" using ok by (simp add: threads_ok_def shared_ok_def)
  obtain x where q: "q = x # y # r" using Cons queue_allocated(1) [OF heap] by (cases q) auto
  have "y \<noteq> NULL" using heap_dom [OF heap, of y] heap_null [OF heap] q by auto
  then have "x \<in> links (all_held c)"
    using heap_q [OF heap] assms(2) q by (auto simp: next_is_def split: if_splits)
  then obtain u where u: "Link x \<in> held (pcs c u)" by (auto simp: links_def all_held_def simp del: held_in_iff)
  have kn: "knows (queue c) (all_hazards c) q pl (pcs c u)" using ok by (simp add: threads_ok_def)
  have "x \<notin> set pl" using heap_distinct(3) [OF heap] q by auto
  then show ?thesis
  proof (cases "pcs c u")
    case (Deq_safe_free t ret fp)
    with u kn \<open>x \<notin> set pl\<close> show ?thesis by (cases fp) (auto dest: succ_in_set)
  qed (use u in auto)
qed simp

lemma queue_data_kept:
  assumes ok: "threads_ok c q pl" and ok': "threads_ok (goto t pc c\<lparr>queue := s\<rparr>) q' pl'"
    and step: "thread_step a (pcs c t) (queue c) = Some (pc, s)" and a: "nodes (queue c) a = None"
    and "set xs \<subseteq> set q" and "set xs \<subseteq> set q'"
  shows "map (node_data s) xs = map (node_data (queue c)) xs"
proof (rule map_cong [OF refl])
  fix x assume "x \<in> set xs"
  then have x: "x \<in> set q" "x \<in> set q'" using assms(5,6) by auto
  have heap: "heap_ok (nodes (queue c)) (all_held c) q pl" using ok by (simp add: threads_ok_def shared_ok_def)
  have heap': "heap_ok (nodes s) (all_held (goto t pc c\<lparr>queue := s\<rparr>)) q' pl'"
    using ok' by (simp add: threads_ok_def shared_ok_def)
  obtain n n' where n: "nodes (queue c) x = Some n" "nodes s x = Some n'"
    using heap_dom [OF heap, of x] heap_dom [OF heap', of x] x by auto
  have "x \<notin> news (all_held c)" using heap_held [OF heap, of x] x by auto
  then have "New x \<notin> held (pcs c t)" unfolding all_held_split [of c t] by simp
  from thread_step_data [OF step a this n] show "node_data s x = node_data (queue c) x"
    using n by (simp add: node_data_def)
qed

lemma become_status:
  assumes "\<And>u. u \<noteq> t \<Longrightarrow> status_ok s q (pcs c u) (status f u)" and "status_ok s q pc st"
  shows "\<forall>u. status_ok s q (pcs (goto t pc c\<lparr>queue := s\<rparr>) u) (status (become t st f) u)"
  using assms by simp

lemma run_simulated:
  assumes ok: "threads_ok c q pl" and items: "items f = map (node_data (queue c)) (tl q)"
    and st: "\<And>u. status_ok (queue c) q (pcs c u) (status f u)"
    and run: "running (pcs c t)" and a: "nodes (queue c) a = None"
    and step: "thread_step a (pcs c t) (queue c) = Some (pc, s)"
  shows "(\<exists>f'. fifo_step True f Tau f' \<and> fifo_sim (goto t pc c\<lparr>queue := s\<rparr>) f') \<or>
    fifo_sim (goto t pc c\<lparr>queue := s\<rparr>) f"
proof -
  let ?s = "queue c" and ?c = "goto t pc c\<lparr>queue := s\<rparr>"
  define q' where "q' = queue_after ?s (pcs c t) q"
  define pl' where "pl' = pool_after (pcs c t) pl"
  obtain ok': "threads_ok ?c q' pl'"
    and la: "leaves_alone (held_by_others t c) (hazards_of_others t c) ?s q pl s q' pl'"
    using threads_ok_run [OF ok run a] step unfolding q'_def pl'_def by (metis option.inject prod.inject)
  have lau: "leaves_alone (held (pcs c u)) {} ?s q pl s q' pl'" if "u \<noteq> t" for u
    using la by (rule leaves_alone_mono) (use that in \<open>auto simp: held_by_others_def simp del: held_in_iff\<close>)
  have heap: "heap_ok (nodes ?s) (all_held c) q pl" and ends: "ends_ok ?s q pl"
    using ok by (simp_all add: threads_ok_def shared_ok_def)
  have q: "q \<noteq> []" by (rule queue_allocated(1) [OF heap])
  have kept: "map (node_data s) xs = map (node_data ?s) xs" if "set xs \<subseteq> set q" "set xs \<subseteq> set q'" for xs
    by (rule queue_data_kept [OF ok ok' step a that])
  consider (enq) n d where "pcs c t = Enq_xchg n d" | (deq) i oh nh where "pcs c t = Deq_cas i oh nh" "head ?s = oh"
    | (stay) "q' = q"
  proof (cases "pcs c t")
    case (Deq_cas i oh nh)
    with that show ?thesis by (cases "head ?s = oh") (simp_all add: q'_def)
  qed (use that in \<open>simp_all add: q'_def\<close>)
  then show ?thesis
  proof cases
    case enq
    then have q': "q' = q @ [n]" "tl q' = tl q @ [n]" "hd q' = hd q" using q by (simp_all add: q'_def)
    have pc: "pc = Enq_link n (tail ?s)" "nodes s = nodes ?s" using step enq by (auto simp: thread_step_def)
    have "knows ?s (all_hazards c) q pl (pcs c t)" using ok by (simp add: threads_ok_def)
    then have d: "node_data ?s n = d" using enq by (simp add: node_data_def)
    let ?f = "become t (S_enqueued 0) f\<lparr>items := items f @ [d]\<rparr>"
    have "fifo_step True f Tau ?f" using st [of t] enq by (intro fifo_enqueue) simp
    moreover have "items ?f = map (node_data s) (tl q')"
      using items d pc(2) by (simp add: q'(2) node_data_def)
    moreover have "status_ok s q' (pcs c u) (status f u)" if "u \<noteq> t" for u
      using status_ok_stable [OF st lau [OF that] q'(3)] .
    then have "\<forall>u. status_ok s q' (pcs ?c u) (status ?f u)" using pc(1) by simp
    ultimately have "fifo_sim ?c ?f" unfolding fifo_sim_def using ok' by (intro exI [of _ q'] exI [of _ pl']) simp
    with \<open>fifo_step True f Tau ?f\<close> show ?thesis by blast
  next
    case deq
    have "knows ?s (all_hazards c) q pl (pcs c t)" using ok by (simp add: threads_ok_def)
    then obtain n where "nodes ?s (hd q) = Some n" "n_next n = nh" "nh \<noteq> NULL"
      using deq ends by (auto simp: ends_ok_def next_is_def)
    with chain_head [OF heap_q [OF heap]] obtain r where qr: "q = hd q # nh # r" by blast
    then have q': "q' = nh # r" using deq by (simp add: q'_def) (metis list.sel(3))
    have pc: "pc = Deq_clear i oh nh" "nodes s = nodes ?s" using step deq by (auto simp: thread_step_def)
    obtain b where b: "status f t = S_dequeue b" using st [of t] deq by auto
    have it: "items f = node_data ?s nh # map (node_data ?s) r" using items qr by (metis list.sel(3) list.simps(9))
    let ?f = "become t (S_dequeued (node_data ?s nh)) (f\<lparr>items := map (node_data ?s) r, status := overtaken \<circ> status f\<rparr>)"
    have "fifo_step True f Tau ?f" by (rule fifo_dequeue [OF b it])
    moreover have "items ?f = map (node_data s) (tl q')" using pc(2) by (simp add: q' node_data_def)
    moreover have "status_ok s q' (pcs c u) (overtaken (status f u))" if "u \<noteq> t" for u
      using status_ok_overtaken [OF st lau [OF that]] .
    moreover have "nodes ?s nh \<noteq> None" using heap_dom [OF heap, of nh] qr by (metis UnI1 list.set_intros)
    ultimately have "\<forall>u. status_ok s q' (pcs ?c u) (status ?f u)"
      using pc by (auto simp: data_is_def node_data_def)
    then have "fifo_sim ?c ?f" unfolding fifo_sim_def
      using ok' \<open>items ?f = _\<close> by (intro exI [of _ q'] exI [of _ pl']) simp
    with \<open>fifo_step True f Tau ?f\<close> show ?thesis by blast
  next
    case stay
    have it: "items f = map (node_data s) (tl q')"
      using items kept [of "tl q"] stay by (simp add: list.set_sel(2) [OF q] subsetI)
    have others: "status_ok s q' (pcs c u) (status f u)" if "u \<noteq> t" for u
      using status_ok_stable [OF st lau [OF that]] stay by simp
    have sim: "fifo_sim ?c (become t st' f)" if "status_ok s q' pc st'" for st'
      using ok' it become_status [of t s q' c f pc st'] others that unfolding fifo_sim_def
      by (intro exI [of _ q'] exI [of _ pl']) simp
    have keep: "become t (status f t) f = f" by (simp add: become_def)
    from own_status [OF step st ends q run] stay
    consider (same) "status_ok s q' pc (status f t)"
      | (fails) d where "status f t = S_enqueue d" "pc = Enq_ret (- ENOMEM)"
      | (busy) b where "status f t = S_dequeue b" "pc = Deq_ret MINUS_ONE"
      | (empty) b i oh where "status f t = S_dequeue b" "pcs c t = Deq_next i oh" "pc = Deq_empty i"
          "next_is ?s oh NULL" "hd q = oh \<or> b"
      unfolding q'_def [symmetric] by blast
    then show ?thesis
    proof cases
      case same
      then show ?thesis using sim [of "status f t"] keep by simp
    next
      case fails
      then show ?thesis using sim [of "S_enqueued (- ENOMEM)"] fifo_enqueue_fails by fastforce
    next
      case busy
      then show ?thesis using sim [of "S_dequeued MINUS_ONE"] fifo_dequeue_busy by fastforce
    next
      case empty
      have "items f = [] \<or> b \<or> (\<exists>u. status f u = S_enqueued 0)"
      proof (cases b)
        case False
        with empty have "next_is ?s (hd q) NULL" by simp
        from succ_of_empty [OF ok this] show ?thesis using items st by (metis list.simps(8) status_ok.simps(5))
      qed simp
      with fifo_dequeue_empty [OF empty(1), of True] empty(3) sim [of "S_dequeued NULL"] show ?thesis by auto
    qed
  qed
qed

lemma fifo_sim_step:
  assumes "fifo_sim c f" and "threads_step c l c'"
  shows "(\<exists>f'. fifo_step True f l f' \<and> fifo_sim c' f') \<or> l = Tau \<and> fifo_sim c' f"
proof -
  obtain q pl where ok: "threads_ok c q pl" and items: "items f = map (node_data (queue c)) (tl q)"
    and st: "\<And>u. status_ok (queue c) q (pcs c u) (status f u)"
    using assms(1) unfolding fifo_sim_def by blast
  have move: "fifo_sim (goto t pc c) (become t s f)"
    if "threads_ok (goto t pc c) q pl" "status_ok (queue c) q pc s" for t pc s
    using that items st unfolding fifo_sim_def by (intro exI [of _ q] exI [of _ pl]) simp
  from assms(2) show ?thesis
  proof cases
    case (call_enqueue t d)
    then have "threads_ok c' q pl" using threads_ok_goto [OF ok, of t "Enq_calloc d"] by simp
    with call_enqueue move [of t "Enq_calloc d" "S_enqueue d"] st [of t] fifo_call_enqueue [of f t True d]
    show ?thesis by fastforce
  next
    case (call_dequeue t)
    then have "threads_ok c' q pl" using threads_ok_goto [OF ok, of t "Tid_read 0"] by simp
    with call_dequeue move [of t "Tid_read 0" "S_dequeue False"] st [of t] fifo_call_dequeue [of f t True]
    show ?thesis by fastforce
  next
    case (return_enqueue t r)
    then have "threads_ok c' q pl" using threads_ok_goto [OF ok, of t Idle] by simp
    with return_enqueue move [of t Idle S_idle] st [of t] fifo_return_enqueue [of f t r True]
    show ?thesis by fastforce
  next
    case (return_dequeue t v)
    then have "threads_ok c' q pl" using threads_ok_goto [OF ok, of t Idle] by simp
    with return_dequeue move [of t Idle S_idle] st [of t] fifo_return_dequeue [of f t v True]
    show ?thesis by fastforce
  next
    case (run t a pc s)
    from run_simulated [OF ok items st run(3-5)] run(1,2) show ?thesis by blast
  qed
qed

interpretation lfq_threads: simulation threads_step "fifo_step True" fifo_sim
  by unfold_locales (rule fifo_sim_step)

section \<open>Start, and when all threads are outside\<close>

lemma seg_chain:
  assumes "seg h cs NULL" and "cs \<noteq> []"
  shows "chain h {} (map fst cs)"
  using assms
proof (induction cs)
  case (Cons c cs)
  obtain a d e where c: "c = (a, d, e)" by (cases c)
  show ?case
  proof (cases cs)
    case Nil
    with Cons.prems c show ?thesis by auto
  next
    case (Cons c' cs')
    obtain a' d' e' where "c' = (a', d', e')" by (cases c')
    with Cons Cons.IH Cons.prems c show ?thesis by auto
  qed
qed simp

lemma chain_seg:
  assumes "chain h {} xs" and "\<And>x n. x \<in> set xs \<Longrightarrow> h x = Some n \<Longrightarrow> n_data n = d x \<and> n_can_free n = e x"
  shows "seg h (map (\<lambda>x. (x, d x, e x)) xs) NULL"
  using assms
proof (induction h "{} :: addr set" xs rule: chain.induct)
  case (2 h x)
  then obtain n where "h x = Some n" "n_next n = NULL" by auto
  with "2.prems"(2) [of x n] show ?case by (cases n) auto
next
  case (3 h x y xs)
  then obtain n where "h x = Some n" "n_next n = y" by auto
  moreover from this(1) "3.prems"(2) [of x n] have "n_data n = d x" "n_can_free n = e x" by simp_all
  moreover have "seg h (map (\<lambda>x. (x, d x, e x)) (y # xs)) NULL" using 3 by (intro "3.hyps") auto
  ultimately show ?case by (cases n) auto
qed simp

lemma seg_can_free: "seg h cs q \<Longrightarrow> (a, d, e) \<in> set cs \<Longrightarrow> \<exists>n. h a = Some n \<and> n_data n = d \<and> n_can_free n = e"
  by (induction cs) auto

lemma start_holds [simp]:
  "all_held (threads_start s) = {}" "all_hazards (threads_start s) = {}" "queue (threads_start s) = s"
  "pcs (threads_start s) t = Idle"
  by (simp_all add: all_held_def all_hazards_def threads_start_def)

lemma threads_start_ok:
  assumes "lfq_shape s z ns ps"
  shows "threads_ok (threads_start s) (fst z # map fst ns) (map fst ps)"
proof -
  note sh = lfq_shapeD [OF assms]
  have qc: "map fst (queue_cells z ns) = fst z # map fst ns" "queue_cells z ns \<noteq> []" by (simp_all add: queue_cells_def split_beta)
  have pool: "seg (nodes s) (pool_cells ps) NULL" "ps \<noteq> []" "fph s = first_addr (pool_cells ps) NULL"
    "fpt s = fst (last (pool_cells ps))" using sh(4) by (simp_all add: pool_ok_def)
  have "first_addr (pool_cells ps) NULL = hd (map fst ps)"
    using pool(2) by (cases ps) (auto simp: pool_cells_def split: prod.splits)
  moreover have "fst (last (pool_cells ps)) = last (map fst ps)"
    using pool(2) by (simp add: pool_cells_def last_map split_beta)
  ultimately have ends: "fph s = hd (map fst ps)" "fpt s = last (map fst ps)" using pool(3,4) by simp_all
  have dom: "nodes s x = None \<longleftrightarrow> x \<notin> insert (fst z) (fst ` set ns \<union> fst ` set ps)" for x
    using sh(7) by (auto simp: domIff simp flip: domIff)
  have cf: "n_can_free n = (if x \<in> fst ` set ns then 0 else 1)" if n: "nodes s x = Some n" for x n
  proof -
    have "x \<in> insert (fst z) (fst ` set ns \<union> fst ` set ps)" using dom [of x] n by auto
    then consider "x = fst z" | d where "(x, d) \<in> set ns" | d where "(x, d) \<in> set ps" by auto
    then show ?thesis
    proof cases
      case 1
      then show ?thesis using seg_can_free [OF sh(3), of x "snd z" 1] n sh(5) by (auto simp: queue_cells_def)
    next
      case 2
      then have "(x, d, 0) \<in> set (queue_cells z ns)" by (force simp: queue_cells_def)
      from seg_can_free [OF sh(3) this] n have "n_can_free n = 0" by auto
      moreover have "x \<in> fst ` set ns" using 2 by force
      ultimately show ?thesis by simp
    next
      case 3
      then have "(x, d, 1) \<in> set (pool_cells ps)" by (force simp: pool_cells_def)
      moreover have "x \<notin> fst ` set ns" using 3 sh(5) by (force simp: image_iff)
      ultimately show ?thesis using seg_can_free [OF pool(1)] n by fastforce
    qed
  qed
  have "heap_ok (nodes s) {} (fst z # map fst ns) (map fst ps)"
  proof (rule heap_okI)
    show "chain (nodes s) (links {}) (fst z # map fst ns)" using seg_chain [OF sh(3) qc(2)] by (simp add: qc(1))
    show "chain (nodes s) (links {}) (map fst ps)" using seg_chain [OF pool(1)] pool(2) by simp
    show "nodes s NULL = None" using dom [of NULL] sh(6) by auto
  qed (use sh(5) dom cf in \<open>auto simp: disjoint_iff\<close>)
  moreover have "ends_ok s (fst z # map fst ns) (map fst ps)"
    using sh(1,2) ends by (simp add: ends_ok_def last_map)
  moreover have "lock_ok s {}" "ids_ok s {}"
    using sh(8) by (auto simp: lock_ok_def ids_ok_def quiet_def split: option.splits)
  ultimately show ?thesis by (simp add: threads_ok_def shared_ok_def hazards_ok_def)
qed

lemma idle_held:
  assumes "\<And>t. pcs c t = Idle"
  shows "all_held c = {}" and "all_hazards c = {}"
  using assms by (simp_all add: all_held_def all_hazards_def)

lemma idle_shape:
  assumes ok: "threads_ok c q pl" and idle: "\<And>t. pcs c t = Idle"
  shows "lfq_shape (queue c) (hd q, node_data (queue c) (hd q))
    (map (\<lambda>x. (x, node_data (queue c) x)) (tl q)) (map (\<lambda>x. (x, node_data (queue c) x)) pl)"
proof -
  let ?s = "queue c" and ?d = "node_data (queue c)"
  have heap: "heap_ok (nodes ?s) {} q pl" and ends: "ends_ok ?s q pl" and lock: "lock_ok ?s {}" and ids: "ids_ok ?s {}"
    using ok idle_held [OF idle] by (simp_all add: threads_ok_def shared_ok_def)
  note h = heap_okD [OF heap]
  have q: "q = hd q # tl q" using queue_allocated(1) [OF heap] by simp
  have hd: "hd q \<notin> set (tl q)" by (rule queue_allocated(4) [OF heap])
  have pl: "pl \<noteq> []" by (rule pool_allocated(1) [OF heap])
  have cf: "n_data n = ?d x \<and> n_can_free n = (if x \<in> set (tl q) then 0 else 1)" if "nodes ?s x = Some n" for x n
    using h(13) [OF that] that by (simp add: node_data_def)
  have set_q: "set q = insert (hd q) (set (tl q))" by (subst q) simp
  have "seg (nodes ?s) (map (\<lambda>x. (x, ?d x, if x \<in> set (tl q) then 0 else 1)) q) NULL"
    using h(4) cf by (intro chain_seg) auto
  moreover have "map (\<lambda>x. (x, ?d x, if x \<in> set (tl q) then 0 else 1)) q =
      queue_cells (hd q, ?d (hd q)) (map (\<lambda>x. (x, ?d x)) (tl q))"
    using hd queue_allocated(1) [OF heap] by (cases q) (auto simp: queue_cells_def)
  ultimately have sq: "seg (nodes ?s) (queue_cells (hd q, ?d (hd q)) (map (\<lambda>x. (x, ?d x)) (tl q))) NULL" by simp
  have "seg (nodes ?s) (map (\<lambda>x. (x, ?d x, if x \<in> set (tl q) then 0 else 1)) pl) NULL"
    using h(5) cf by (intro chain_seg) auto
  moreover have "map (\<lambda>x. (x, ?d x, if x \<in> set (tl q) then 0 else 1)) pl = pool_cells (map (\<lambda>x. (x, ?d x)) pl)"
    using h(3) set_q by (auto simp: pool_cells_def disjoint_iff)
  ultimately have sp: "seg (nodes ?s) (pool_cells (map (\<lambda>x. (x, ?d x)) pl)) NULL" by simp
  have fst: "fst ` set (map (\<lambda>x. (x, ?d x)) xs) = set xs" "map fst (map (\<lambda>x. (x, ?d x)) xs) = xs" for xs
    by (force, simp add: comp_def)
  have quiet: "quiet ?s"
  proof -
    obtain hp tm where ar: "HP ?s = Some hp" "tid_map ?s = Some tm" "0 < MAXHPSIZE ?s"
      "MAXHPSIZE ?s \<le> int (length hp)" "MAXHPSIZE ?s \<le> int (length tm)"
      "\<forall>i < length tm. tm ! i = 0" "\<forall>i < length hp. hp ! i = NULL"
      using ids unfolding ids_ok_def by auto
    then show ?thesis using lock by (auto simp: quiet_def lock_ok_def in_set_conv_nth)
  qed
  have "NULL \<notin> set q" "NULL \<notin> set pl" using h(7) [of NULL] h(8) by auto
  then have null: "NULL \<notin> insert (hd q) (set (tl q) \<union> set pl)" unfolding set_q by simp
  have "pool_ok ?s (pool_cells (map (\<lambda>x. (x, ?d x)) pl))"
    unfolding pool_ok_def
  proof (intro conjI)
    show "fph ?s = first_addr (pool_cells (map (\<lambda>x. (x, ?d x)) pl)) NULL"
      using ends pl by (cases pl) (simp_all add: ends_ok_def pool_cells_def)
    show "fpt ?s = fst (last (pool_cells (map (\<lambda>x. (x, ?d x)) pl)))"
      using ends pl by (simp add: ends_ok_def pool_cells_def last_map)
    show "distinct (map fst (pool_cells (map (\<lambda>x. (x, ?d x)) pl)))" using h(2) fst by simp
    show "NULL \<notin> addrs (pool_cells (map (\<lambda>x. (x, ?d x)) pl))" using null fst by simp
  qed (use sp pl quiet lock in \<open>simp_all add: quiet_no_hazard lock_ok_def\<close>)
  moreover have "dom (nodes ?s) = insert (hd q) (set (tl q) \<union> set pl)"
  proof (rule set_eqI)
    show "x \<in> dom (nodes ?s) \<longleftrightarrow> x \<in> insert (hd q) (set (tl q) \<union> set pl)" for x
      using h(7) [of x] unfolding domIff set_q by simp
  qed
  moreover have "head ?s = hd q" "tail ?s = last (hd q # tl q)" using ends q by (simp_all add: ends_ok_def)
  moreover have "last (map fst ((hd q, ?d (hd q)) # map (\<lambda>x. (x, ?d x)) (tl q))) = last (hd q # tl q)"
    using fst(2) by simp
  then have "fst (last ((hd q, ?d (hd q)) # map (\<lambda>x. (x, ?d x)) (tl q))) = last (hd q # tl q)"
    by (subst last_map_fst) simp_all
  moreover have "distinct (hd q # tl q @ pl)" using h(1-3) hd set_q q by (metis append_Cons distinct_append)
  ultimately show ?thesis using sq null quiet fst unfolding lfq_shape_def by (simp add: image_Un)
qed

lemma idle_rep:
  assumes "threads_ok c q pl" and "\<And>t. pcs c t = Idle"
  shows "lfq_rep (queue c) (map (node_data (queue c)) (tl q))"
  using idle_shape [OF assms] unfolding lfq_rep_def by (fastforce simp: comp_def)

lemma fifo_sim_start: "lfq_rep s xs \<Longrightarrow> fifo_sim (threads_start s) (fifo_start xs)"
proof -
  assume "lfq_rep s xs"
  then obtain z ns ps where sh: "lfq_shape s z ns ps" and xs: "xs = map snd ns" by (auto simp: lfq_rep_def)
  have "node_data s a = d" if "(a, d) \<in> set ns" for a d
  proof -
    have "(a, d, 0) \<in> set (queue_cells z ns)" using that by (force simp: queue_cells_def)
    from seg_can_free [OF lfq_shape_seg [OF sh] this] show ?thesis by (auto simp: node_data_def)
  qed
  then have "xs = map (node_data s) (map fst ns)" unfolding xs by auto
  then show ?thesis using threads_start_ok [OF sh] unfolding fifo_sim_def
    by (intro exI [of _ "fst z # map fst ns"] exI [of _ "map fst ps"]) (simp add: fifo_start_def)
qed

end
