(* ===== verification/Lfq_Schedules.thy ===== *)
theory Lfq_Schedules
  imports Lfq_Threads_Refine Lfq_Props
begin

text \<open>
  Two schedules in which a dequeue answers \<open>NULL\<close> though the queue is not empty at any moment of the call, run
  step by step, and the proof that a queue with atomic operations has no such runs.
\<close>

section \<open>Schedules\<close>

text \<open>
  A schedule lets a thread call or return, or take up to \<open>n\<close> steps, with \<open>a\<close> as the answer of \<open>calloc\<close>.
\<close>

datatype act = Say label | Go nat nat addr

fun calloc_answer :: "pc \<Rightarrow> addr \<Rightarrow> addr" where
  "calloc_answer (Enq_calloc d) a = a"
| "calloc_answer pc a = NULL"

fun go :: "nat \<Rightarrow> nat \<Rightarrow> addr \<Rightarrow> threads \<Rightarrow> threads option" where
  "go t 0 a c = Some c"
| "go t (Suc n) a c =
     (let b = calloc_answer (pcs c t) a
      in if running (pcs c t) \<and> nodes (queue c) b = None
         then case thread_step b (pcs c t) (queue c) of
                None \<Rightarrow> None
              | Some (pc, s) \<Rightarrow> go t n a (goto t pc c\<lparr>queue := s\<rparr>)
         else Some c)"

fun say :: "label \<Rightarrow> threads \<Rightarrow> threads option" where
  "say (Call_enqueue t d) c = (if pcs c t = Idle then Some (goto t (Enq_calloc d) c) else None)"
| "say (Call_dequeue t) c = (if pcs c t = Idle then Some (goto t (Tid_read 0) c) else None)"
| "say (Return_enqueue t r) c = (if pcs c t = Enq_ret r then Some (goto t Idle c) else None)"
| "say (Return_dequeue t v) c = (if pcs c t = Deq_ret v then Some (goto t Idle c) else None)"
| "say Tau c = None"

fun schedule :: "act list \<Rightarrow> threads \<Rightarrow> (label list \<times> threads) option" where
  "schedule [] c = Some ([], c)"
| "schedule (Say l # as) c = do { c \<leftarrow> say l c; (ls, c) \<leftarrow> schedule as c; Some (l # ls, c) }"
| "schedule (Go t n a # as) c = do { c \<leftarrow> go t n a c; schedule as c }"

lemma go_runs: "go t n a c = Some c' \<Longrightarrow> runs threads_step c0 ls c \<Longrightarrow> runs threads_step c0 ls c'"
proof (induction n arbitrary: c)
  case (Suc n)
  show ?case
  proof (cases "running (pcs c t) \<and> nodes (queue c) (calloc_answer (pcs c t) a) = None")
    case True
    with Suc.prems(1) obtain pc s where st: "thread_step (calloc_answer (pcs c t) a) (pcs c t) (queue c) = Some (pc, s)"
      "go t n a (goto t pc c\<lparr>queue := s\<rparr>) = Some c'" by (auto simp: Let_def split: option.splits)
    with True have "threads_step c Tau (goto t pc c\<lparr>queue := s\<rparr>)" by (intro threads_step.run) auto
    with Suc.prems(2) have "runs threads_step c0 ls (goto t pc c\<lparr>queue := s\<rparr>)" by (rule runs_tau)
    with Suc.IH st(2) show ?thesis by blast
  next
    case False
    with Suc.prems show ?thesis by (auto simp: Let_def split: if_splits)
  qed
qed simp

lemma say_step: "say l c = Some c' \<Longrightarrow> threads_step c l c' \<and> l \<noteq> Tau"
  by (cases l) (auto intro: threads_step.intros split: if_splits)

lemma schedule_runs:
  "schedule as c = Some (ls, c') \<Longrightarrow> runs threads_step c0 ls0 c \<Longrightarrow> runs threads_step c0 (ls0 @ ls) c'"
proof (induction as arbitrary: c ls ls0)
  case (Cons act as)
  show ?case
  proof (cases act)
    case (Say l)
    with Cons.prems(1) obtain c1 ls1 where st: "say l c = Some c1" "schedule as c1 = Some (ls1, c')" "ls = l # ls1"
      by (auto split: bind_splits)
    from say_step [OF st(1)] Cons.prems(2) have "runs threads_step c0 (ls0 @ [l]) c1" by (blast intro: runs_label)
    from Cons.IH [OF st(2) this] st(3) show ?thesis by simp
  next
    case (Go t n a)
    with Cons.prems(1) obtain c1 where "go t n a c = Some c1" "schedule as c1 = Some (ls, c')"
      by (auto split: bind_splits)
    with Cons go_runs show ?thesis by blast
  qed
qed simp

text \<open>A queue for two consumer threads: empty, and with the elements 11 and 22.\<close>

definition empty_queue :: lfq where
  "empty_queue = snd (the (lfq_init 16 32 True True 2 lfq_blank))"

definition two_queue :: lfq where
  "two_queue = snd (the (lfq_enqueue 64 22 (snd (the (lfq_enqueue 48 11 empty_queue)))))"

lemma empty_queue_shape: "lfq_shape empty_queue (16, NULL) [] [(32, NULL)]"
  by (rule lfq_init_shape [of lfq_blank 16 32 2]) (auto simp: empty_queue_def)

lemma two_queue_shape: "lfq_shape two_queue (16, NULL) [(48, 11), (64, 22)] [(32, NULL)]"
proof -
  have "nodes empty_queue 48 = None" by (rule fresh_sample [OF empty_queue_shape]) simp
  then obtain s1 where 1: "lfq_enqueue 48 11 empty_queue = Some (0, s1)"
    "lfq_shape s1 (16, NULL) [(48, 11)] [(32, NULL)]"
    using lfq_enqueue_shape [OF empty_queue_shape, of 48 11] by auto
  have "nodes s1 64 = None" by (rule fresh_sample [OF 1(2)]) simp
  then obtain s2 where "lfq_enqueue 64 22 s1 = Some (0, s2)"
    "lfq_shape s2 (16, NULL) [(48, 11), (64, 22)] [(32, NULL)]"
    using lfq_enqueue_shape [OF 1(2), of 64 22] by auto
  with 1(1) show ?thesis by (simp add: two_queue_def)
qed

lemma sample_reps: "lfq_rep empty_queue []" "lfq_rep two_queue [11, 22]"
  using lfq_repI [OF empty_queue_shape] lfq_repI [OF two_queue_shape] by simp_all

definition overtaken_acts :: "act list" where
  "overtaken_acts =
     [Say (Call_dequeue 1), Go 1 5 NULL, Say (Call_dequeue 2), Go 2 60 NULL, Say (Return_dequeue 2 11),
      Go 1 60 NULL, Say (Return_dequeue 1 NULL)]"

definition overtaken_trace :: "label list" where
  "overtaken_trace = [Call_dequeue 1, Call_dequeue 2, Return_dequeue 2 11, Return_dequeue 1 NULL]"

definition stalled_acts :: "act list" where
  "stalled_acts =
     [Say (Call_enqueue 0 11), Go 0 3 48, Say (Call_enqueue 1 22), Go 1 4 64, Say (Return_enqueue 1 0),
      Say (Call_dequeue 2), Go 2 60 NULL, Say (Return_dequeue 2 NULL)]"

definition stalled_trace :: "label list" where
  "stalled_trace = [Call_enqueue 0 11, Call_enqueue 1 22, Return_enqueue 1 0, Call_dequeue 2, Return_dequeue 2 NULL]"

lemma overtaken_schedule: "map_option fst (schedule overtaken_acts (threads_start two_queue)) = Some overtaken_trace"
  by code_simp

lemma stalled_schedule: "map_option fst (schedule stalled_acts (threads_start empty_queue)) = Some stalled_trace"
  by code_simp

lemma schedule_others:
  "schedule as c = Some (ls, c') \<Longrightarrow> \<forall>act \<in> set as. case act of Go u n a \<Rightarrow> u \<noteq> t | Say (Call_enqueue u d) \<Rightarrow> u \<noteq> t
     | Say (Call_dequeue u) \<Rightarrow> u \<noteq> t | Say (Return_enqueue u r) \<Rightarrow> u \<noteq> t | Say (Return_dequeue u v) \<Rightarrow> u \<noteq> t
     | Say Tau \<Rightarrow> True \<Longrightarrow> pcs c' t = pcs c t"
proof (induction as arbitrary: c ls)
  case (Cons act as)
  have go: "go u n a c = Some c' \<Longrightarrow> u \<noteq> t \<Longrightarrow> pcs c' t = pcs c t" for u n a c c'
    by (induction n arbitrary: c) (auto simp: Let_def split: if_splits option.splits)
  show ?case
  proof (cases act)
    case (Say l)
    with Cons.prems(1) obtain c1 ls1 where st: "say l c = Some c1" "schedule as c1 = Some (ls1, c')"
      by (auto split: bind_splits)
    have "pcs c1 t = pcs c t" using st(1) Cons.prems(2) Say by (cases l) (auto split: if_splits)
    with Cons.IH [OF st(2)] Cons.prems(2) show ?thesis by simp
  next
    case (Go u n a)
    with Cons.prems(1) obtain c1 where st: "go u n a c = Some c1" "schedule as c1 = Some (ls, c')"
      by (auto split: bind_splits)
    with Cons.IH [OF st(2)] Cons.prems(2) go [OF st(1)] Go show ?thesis by simp
  qed
qed simp

lemma overtaken_run:
  obtains c where "runs threads_step (threads_start two_queue) overtaken_trace c" and "\<forall>t. pcs c t = Idle"
proof -
  have "map_option (\<lambda>(ls, c). (ls, pcs c 1, pcs c 2)) (schedule overtaken_acts (threads_start two_queue)) =
      Some (overtaken_trace, Idle, Idle)" by code_simp
  then obtain c where c: "schedule overtaken_acts (threads_start two_queue) = Some (overtaken_trace, c)"
    "pcs c 1 = Idle" "pcs c 2 = Idle" by auto
  have "runs threads_step (threads_start two_queue) overtaken_trace c"
    using schedule_runs [OF c(1) runs_nil] by simp
  moreover have "pcs c t = Idle" for t
    using c(2,3) schedule_others [OF c(1), of t] by (cases "t = 1 \<or> t = 2") (auto simp: overtaken_acts_def)
  ultimately show ?thesis using that by blast
qed

lemma stalled_run: "\<exists>c. runs threads_step (threads_start empty_queue) stalled_trace c"
  using stalled_schedule schedule_runs [OF _ runs_nil [of threads_step "threads_start empty_queue"]] by fastforce

section \<open>What the atomic queue cannot do\<close>

text \<open>
  A property of the states a trace leads to, by its length: kept by \<open>Tau\<close> and carried on by the next label.
\<close>

lemma runs_phases:
  assumes "runs step f0 ls f" and "J 0 f0"
    and "\<And>k f f'. J k f \<Longrightarrow> step f Tau f' \<Longrightarrow> J k f'"
    and "\<And>k f f'. k < length tr \<Longrightarrow> J k f \<Longrightarrow> step f (tr ! k) f' \<Longrightarrow> J (Suc k) f'"
    and "\<exists>ls'. tr = ls @ ls'"
  shows "J (length ls) f"
  using assms(1,2,5)
proof (induction rule: runs.induct)
  case (runs_label c ls c' l c'')
  then obtain ls' where tr: "tr = ls @ l # ls'" by auto
  then have "J (length ls) c'" using runs_label.IH runs_label.prems by blast
  moreover have "tr ! length ls = l" "length ls < length tr" using tr by simp_all
  ultimately show ?case using assms(4) [of "length ls" c' c''] runs_label.hyps(2) by simp
next
  case (runs_tau c ls c' c'')
  then show ?case using assms(3) [of "length ls" c' c''] by blast
qed simp

inductive_simps fifo_label_simps:
  "fifo_step lax f (Call_enqueue t d) f'"
  "fifo_step lax f (Call_dequeue t) f'"
  "fifo_step lax f (Return_enqueue t r) f'"
  "fifo_step lax f (Return_dequeue t v) f'"

text \<open>A dequeue that has not taken an element, and one that has taken \<open>v\<close>.\<close>

definition waits :: "status \<Rightarrow> bool" where
  "waits st \<longleftrightarrow> st = S_idle \<or> (\<exists>b. st = S_dequeue b) \<or> st = S_dequeued MINUS_ONE"

definition overtaken_phase :: "nat \<Rightarrow> fifo_threads \<Rightarrow> bool" where
  "overtaken_phase k f \<longleftrightarrow> (\<forall>u. u \<noteq> 1 \<and> u \<noteq> 2 \<longrightarrow> status f u = S_idle) \<and>
     (if k \<le> 2 then
        items f = [11, 22] \<and> waits (status f 1) \<and> waits (status f 2) \<or>
        items f = [22] \<and> status f 1 = S_dequeued 11 \<and> waits (status f 2) \<or>
        items f = [22] \<and> status f 2 = S_dequeued 11 \<and> waits (status f 1) \<or>
        items f = [] \<and> status f 1 = S_dequeued 11 \<and> status f 2 = S_dequeued 22 \<or>
        items f = [] \<and> status f 1 = S_dequeued 22 \<and> status f 2 = S_dequeued 11
      else if k = 3 then
        status f 2 = S_idle \<and> (items f = [22] \<and> waits (status f 1) \<or> items f = [] \<and> status f 1 = S_dequeued 22)
      else False)"

lemma waits_simps [simp]:
  "waits S_idle" "waits (S_dequeue b)" "waits (S_dequeued v) \<longleftrightarrow> v = MINUS_ONE" "\<not> waits (S_enqueue d)"
  "\<not> waits (S_enqueued r)" "waits (overtaken st) = waits st"
  by (auto simp: waits_def) (cases st; simp)+

lemma not_overtaken: "\<not> runs (fifo_step False) (fifo_start [11, 22]) overtaken_trace f"
proof
  assume run: "runs (fifo_step False) (fifo_start [11, 22]) overtaken_trace f"
  have "overtaken_phase (length overtaken_trace) f"
  proof (rule runs_phases [OF run, where tr = overtaken_trace])
    show "overtaken_phase 0 (fifo_start [11, 22])" by (simp add: overtaken_phase_def fifo_start_def)
    show "overtaken_phase k f'" if "overtaken_phase k f" "fifo_step False f Tau f'" for k f f'
    proof -
      have ph: "\<forall>u. u \<noteq> 1 \<and> u \<noteq> 2 \<longrightarrow> status f u = S_idle" using that(1) by (simp add: overtaken_phase_def)
      then have t: "t = 1 \<or> t = 2" if "status f t \<noteq> S_idle" for t using that by blast
      from that(2) show ?thesis
      proof cases
        case (fifo_enqueue t d)
        with t [of t] that(1) show ?thesis by (auto simp: overtaken_phase_def split: if_splits)
      next
        case (fifo_enqueue_fails t d)
        with t [of t] that(1) show ?thesis by (auto simp: overtaken_phase_def split: if_splits)
      next
        case (fifo_dequeue t b d ds)
        with t [of t] that(1) show ?thesis by (auto simp: overtaken_phase_def split: if_splits)
      next
        case (fifo_dequeue_empty t b)
        with t [of t] that(1) show ?thesis by (auto simp: overtaken_phase_def split: if_splits)
      next
        case (fifo_dequeue_busy t b)
        with t [of t] that(1) show ?thesis by (auto simp: overtaken_phase_def split: if_splits)
      qed
    qed
    show "overtaken_phase (Suc k) f'"
      if "k < length overtaken_trace" "overtaken_phase k f" "fifo_step False f (overtaken_trace ! k) f'" for k f f'
    proof -
      from that(1) consider "k = 0" | "k = 1" | "k = 2" | "k = 3" by (fastforce simp: overtaken_trace_def)
      then show ?thesis
      proof cases
        case 1
        with that(3) have f': "status f 1 = S_idle" "f' = become 1 (S_dequeue False) f"
          by (simp_all add: overtaken_trace_def fifo_label_simps)
        show ?thesis using that(2) f'(1) unfolding f'(2) 1 by (simp add: overtaken_phase_def)
      next
        case 2
        with that(3) have f': "status f 2 = S_idle" "f' = become 2 (S_dequeue False) f"
          by (simp_all add: overtaken_trace_def fifo_label_simps)
        show ?thesis using that(2) f'(1) unfolding f'(2) 2 by (simp add: overtaken_phase_def)
      next
        case 3
        with that(3) have f': "status f 2 = S_dequeued 11" "f' = become 2 S_idle f"
          by (simp_all add: overtaken_trace_def fifo_label_simps)
        show ?thesis using that(2) f'(1) unfolding f'(2) 3 by (simp add: overtaken_phase_def)
      next
        case 4
        with that(3) have "status f 1 = S_dequeued NULL" by (simp add: overtaken_trace_def fifo_label_simps)
        with that(2) 4 show ?thesis by (simp add: overtaken_phase_def)
      qed
    qed
  qed simp
  then show False by (simp add: overtaken_phase_def overtaken_trace_def)
qed

text \<open>An enqueue of \<open>d\<close> that has not returned, or not been called.\<close>

definition enqueues :: "addr \<Rightarrow> status \<Rightarrow> bool" where
  "enqueues d st \<longleftrightarrow> st = S_idle \<or> st = S_enqueue d \<or> (\<exists>r. st = S_enqueued r)"

lemma enqueues_simps [simp]:
  "enqueues d S_idle" "enqueues d (S_enqueue e) \<longleftrightarrow> e = d" "enqueues d (S_enqueued r)" "\<not> enqueues d (S_dequeue b)"
  "\<not> enqueues d (S_dequeued v)" "enqueues d (overtaken st) = enqueues d st"
  by (auto simp: enqueues_def) (cases st; simp)+

definition stalled_phase :: "nat \<Rightarrow> fifo_threads \<Rightarrow> bool" where
  "stalled_phase k f \<longleftrightarrow>
     (\<forall>u. u \<noteq> 0 \<and> u \<noteq> 1 \<and> u \<noteq> 2 \<longrightarrow> status f u = S_idle) \<and> set (items f) \<subseteq> {11, 22} \<and> enqueues 11 (status f 0) \<and>
     (if k \<le> 2 then status f 2 = S_idle \<and> enqueues 22 (status f 1) \<and> (status f 1 = S_enqueued 0 \<longrightarrow> 22 \<in> set (items f))
      else if k = 3 then status f 2 = S_idle \<and> status f 1 = S_idle \<and> 22 \<in> set (items f)
      else if k = 4 then status f 1 = S_idle \<and>
        (status f 2 \<noteq> S_idle \<and> waits (status f 2) \<and> 22 \<in> set (items f) \<or> (\<exists>v \<in> {11, 22}. status f 2 = S_dequeued v))
      else False)"

lemma stalled_phase_tau:
  assumes "stalled_phase k f" and "fifo_step False f Tau f'"
  shows "stalled_phase k f'"
proof -
  have ph: "\<forall>u. u \<noteq> 0 \<and> u \<noteq> 1 \<and> u \<noteq> 2 \<longrightarrow> status f u = S_idle" using assms(1) by (simp add: stalled_phase_def)
  then have t: "t = 0 \<or> t = 1 \<or> t = 2" if "status f t \<noteq> S_idle" for t using that by blast
  from assms(2) show ?thesis
  proof cases
    case (fifo_enqueue t d)
    with t [of t] assms(1) show ?thesis by (auto simp: stalled_phase_def split: if_splits)
  next
    case (fifo_enqueue_fails t d)
    with t [of t] assms(1) show ?thesis by (auto simp: stalled_phase_def split: if_splits)
  next
    case (fifo_dequeue t b d ds)
    with t [of t] assms(1) show ?thesis by (auto simp: stalled_phase_def split: if_splits)
  next
    case (fifo_dequeue_empty t b)
    with t [of t] assms(1) show ?thesis by (auto simp: stalled_phase_def split: if_splits)
  next
    case (fifo_dequeue_busy t b)
    with t [of t] assms(1) show ?thesis by (auto simp: stalled_phase_def split: if_splits)
  qed
qed

lemma stalled_phase_label:
  assumes "stalled_phase k f" and "k < length stalled_trace" and "fifo_step False f (stalled_trace ! k) f'"
  shows "stalled_phase (Suc k) f'"
proof -
  from assms(2) consider "k = 0" | "k = 1" | "k = 2" | "k = 3" | "k = 4" by (fastforce simp: stalled_trace_def)
  then show ?thesis
  proof cases
    case 1
    with assms(3) have f': "f' = become 0 (S_enqueue 11) f" by (simp add: stalled_trace_def fifo_label_simps)
    show ?thesis using assms(1) unfolding f' 1 by (simp add: stalled_phase_def)
  next
    case 2
    with assms(3) have f': "f' = become 1 (S_enqueue 22) f" by (simp add: stalled_trace_def fifo_label_simps)
    show ?thesis using assms(1) unfolding f' 2 by (simp add: stalled_phase_def)
  next
    case 3
    with assms(3) have f': "status f 1 = S_enqueued 0" "f' = become 1 S_idle f"
      by (simp_all add: stalled_trace_def fifo_label_simps)
    show ?thesis using assms(1) f'(1) unfolding f'(2) 3 by (simp add: stalled_phase_def)
  next
    case 4
    with assms(3) have f': "f' = become 2 (S_dequeue False) f" by (simp add: stalled_trace_def fifo_label_simps)
    show ?thesis using assms(1) unfolding f' 4 by (simp add: stalled_phase_def)
  next
    case 5
    with assms(3) have "status f 2 = S_dequeued NULL" by (simp add: stalled_trace_def fifo_label_simps)
    with assms(1) 5 show ?thesis by (simp add: stalled_phase_def)
  qed
qed

lemma not_stalled: "\<not> runs (fifo_step False) (fifo_start []) stalled_trace f"
proof
  assume run: "runs (fifo_step False) (fifo_start []) stalled_trace f"
  have "stalled_phase (length stalled_trace) f"
  proof (rule runs_phases [OF run, where tr = stalled_trace])
    show "stalled_phase 0 (fifo_start [])" by (simp add: stalled_phase_def fifo_start_def)
  qed (use stalled_phase_tau stalled_phase_label in auto)
  then show False by (simp add: stalled_phase_def stalled_trace_def)
qed

end
