(* ===== verification/Lfq_Alone.thy ===== *)
theory Lfq_Alone
  imports Lfq_Threads
begin

text \<open>
  A thread that is not interrupted: its steps one after the other make up the operations of \<open>Lfq\<close>.
\<close>

inductive alone :: "addr \<Rightarrow> pc \<times> lfq \<Rightarrow> pc \<times> lfq \<Rightarrow> bool" for a where
  alone_refl [simp, intro]: "alone a cfg cfg"
| alone_step: "running pc \<Longrightarrow> thread_step a pc s = Some cfg \<Longrightarrow> alone a cfg cfg' \<Longrightarrow> alone a (pc, s) cfg'"

lemma alone_trans: "alone a x y \<Longrightarrow> alone a y z \<Longrightarrow> alone a x z"
  by (induction rule: alone.induct) (auto intro: alone_step)

lemma alone_one: "running pc \<Longrightarrow> thread_step a pc s = Some (pc', s') \<Longrightarrow> alone a (pc, s) (pc', s')"
  by (rule alone_step) auto

text \<open>The reclaimer by itself, and inside a dequeue.\<close>

inductive free_alone :: "free_pc \<times> lfq \<Rightarrow> free_pc \<times> lfq \<Rightarrow> bool" where
  free_alone_refl [simp, intro]: "free_alone cfg cfg"
| free_alone_step: "free_step fp s = Some cfg \<Longrightarrow> fp \<noteq> Fp_return \<Longrightarrow> free_alone cfg cfg' \<Longrightarrow> free_alone (fp, s) cfg'"

lemma free_alone_trans: "free_alone x y \<Longrightarrow> free_alone y z \<Longrightarrow> free_alone x z"
  by (induction rule: free_alone.induct) (auto intro: free_alone_step)

lemma alone_safe_free:
  assumes "free_alone (fp, s) (fp', s')"
  shows "alone a (Deq_safe_free t ret fp, s) (Deq_safe_free t ret fp', s')"
  using assms
proof (induction "(fp, s)" "(fp', s')" arbitrary: fp s rule: free_alone.induct)
  case (free_alone_step fp s cfg)
  obtain fq sq where cfg: "cfg = (fq, sq)" by (cases cfg)
  have "alone a (Deq_safe_free t ret fq, sq) (Deq_safe_free t ret fp', s')"
    by (rule free_alone_step.hyps(4) [OF cfg])
  moreover have "thread_step a (Deq_safe_free t ret fp) s = Some (Deq_safe_free t ret fq, sq)"
    using free_alone_step.hyps(1,2) cfg by (simp add: thread_step_def)
  ultimately show ?case by (intro alone_step [of "Deq_safe_free t ret fp"]) simp_all
qed simp

section \<open>The loops\<close>

lemma free_next:
  "free_alone (fq, sq) cfg \<Longrightarrow> free_step fp s = Some (fq, sq) \<Longrightarrow> fp \<noteq> Fp_return \<Longrightarrow> free_alone (fp, s) cfg"
  by (rule free_alone_step)

lemma inHP_from_Some:
  assumes "inHP_from s x i = Some b"
  shows "i < MAXHPSIZE s \<Longrightarrow> \<exists>p. read_HP s i = Some p \<and> (p = x \<and> b \<or> p \<noteq> x \<and> inHP_from s x (i + 1) = Some b)"
    and "\<not> i < MAXHPSIZE s \<Longrightarrow> \<not> b"
  using assms by (auto simp: inHP_from.simps [of s x i] split: bind_splits if_splits)

lemma scan_alone:
  assumes "inHP_from s x i = Some b"
  shows "free_alone (Sf_scan x i, s) (if b then Ep_null x else Sf_lock x, s) \<and>
    free_alone (Fp_scan k x i, s) (if b then Fp_unlock else Fp_next k x, s)"
  using assms
proof (induction s x i rule: inHP_from.induct)
  case (1 s x i)
  show ?case
  proof (cases "i < MAXHPSIZE s")
    case True
    obtain p where p: "read_HP s i = Some p" "p = x \<and> b \<or> p \<noteq> x \<and> inHP_from s x (i + 1) = Some b"
      using inHP_from_Some(1) [OF "1.prems" True] by blast
    show ?thesis
    proof (cases "p = x")
      case eq: True
      with True p show ?thesis
        by (auto intro: free_next [OF free_alone_refl])
    next
      case False
      with True p "1.IH" [OF True p(1)]
      have "free_alone (Sf_scan x (i + 1), s) (if b then Ep_null x else Sf_lock x, s)"
        "free_alone (Fp_scan k x (i + 1), s) (if b then Fp_unlock else Fp_next k x, s)" by simp_all
      then show ?thesis using True False p(1) by (auto elim!: free_next)
    qed
  next
    case False
    with inHP_from_Some(2) [OF "1.prems" False] show ?thesis
      by (auto intro: free_next [OF free_alone_refl])
  qed
qed

lemma free_pool_loop_alone:
  assumes "free_pool_loop False i s = Some s'"
  shows "free_alone (Fp_head i, s) (Fp_unlock, s')"
proof -
  have "\<not> freeall \<longrightarrow> free_alone (Fp_head i, s) (Fp_unlock, s')" if "free_pool_loop freeall i s = Some s'" for freeall
  proof (rule free_pool_loop.raw_induct [where P = "\<lambda>b i s s'. \<not> b \<longrightarrow> free_alone (Fp_head i, s) (Fp_unlock, s')",
        OF _ that], intro impI, goal_cases)
    case (1 loop freeall i s s')
    show ?case
    proof (cases "i < MAXFREE")
      case False
      with 1 show ?thesis by (auto intro: free_next [OF free_alone_refl])
    next
      case True
      then obtain n where n: "load (fph s) s = Some n" using 1 by (auto simp: Let_def split: bind_splits)
      have head: "free_alone (Fp_head i, s) cfg" if "free_alone (Fp_can_free i (fph s), s) cfg" for cfg
        using that by (rule free_next) (use True in simp_all)
      have cf: "free_alone (Fp_can_free i (fph s), s) cfg"
        if "free_alone (Fp_free_next i (fph s), s) cfg" "n_can_free n \<noteq> 0" for cfg
        using that(1) by (rule free_next) (use n that(2) in simp_all)
      consider (kept) "n_can_free n = 0" | (last) "n_can_free n \<noteq> 0" "n_next n = NULL"
        | (read) "n_can_free n \<noteq> 0" "n_next n \<noteq> NULL" "inHP s (fph s) = Some True"
        | (freed) s1 where "n_can_free n \<noteq> 0" "n_next n \<noteq> NULL" "inHP s (fph s) = Some False"
            "free_node (fph s) (s\<lparr>fph := n_next n\<rparr>) = Some s1" "loop freeall (i + 1) s1 = Some s'"
        using 1 True n by (auto simp: Let_def split: bind_splits if_splits)
      then show ?thesis
      proof cases
        case kept
        with 1 True n show ?thesis by (intro head) (auto simp: Let_def intro: free_next [OF free_alone_refl])
      next
        case last
        with 1 True n show ?thesis by (intro head cf) (auto simp: Let_def intro: free_next [OF free_alone_refl])
      next
        case read
        have "free_alone (Fp_scan i (fph s) 0, s) (Fp_unlock, s)"
          using scan_alone [of s "fph s" 0 True i] read(3) by (simp add: inHP_def)
        moreover have "s' = s" using 1 True n read by (simp add: Let_def)
        ultimately have "free_alone (Fp_free_next i (fph s), s) (Fp_unlock, s')"
          using n read by (auto elim!: free_next)
        with read show ?thesis by (intro head cf)
      next
        case freed
        have "free_alone (Fp_head (i + 1), s1) (Fp_unlock, s')" using 1 freed(5) by blast
        then have "free_alone (Fp_free i (fph s), s\<lparr>fph := n_next n\<rparr>) (Fp_unlock, s')"
          by (rule free_next) (use freed(4) in simp_all)
        then have "free_alone (Fp_set_head i (fph s) (n_next n), s) (Fp_unlock, s')" by (rule free_next) simp_all
        then have "free_alone (Fp_next i (fph s), s) (Fp_unlock, s')" by (rule free_next) (use n in simp_all)
        moreover have "free_alone (Fp_scan i (fph s) 0, s) (Fp_next i (fph s), s)"
          using scan_alone [of s "fph s" 0 False i] freed(3) by (simp add: inHP_def)
        ultimately have "free_alone (Fp_scan i (fph s) 0, s) (Fp_unlock, s')" by (blast intro: free_alone_trans)
        then have "free_alone (Fp_free_next i (fph s), s) (Fp_unlock, s')" by (rule free_next) (use n freed in simp_all)
        with freed show ?thesis by (intro head cf)
      qed
    qed
  qed
  with assms show ?thesis by blast
qed

lemma free_pool_alone: "free_pool False s = Some s' \<Longrightarrow> free_alone (Fp_lock, s) (Fp_return, s')"
proof -
  assume *: "free_pool False s = Some s'"
  show ?thesis
  proof (cases "is_freeing s = 0")
    case True
    with * obtain s1 where s1: "free_pool_loop False 0 (s\<lparr>is_freeing := 1\<rparr>) = Some s1" "s' = s1\<lparr>is_freeing := 0\<rparr>"
      by (auto simp: free_pool_def split: bind_splits)
    have "free_alone (Fp_unlock, s1) (Fp_return, s')" by (rule free_next [OF free_alone_refl]) (use s1 in simp_all)
    with free_pool_loop_alone [OF s1(1)] have "free_alone (Fp_head 0, s\<lparr>is_freeing := 1\<rparr>) (Fp_return, s')"
      by (rule free_alone_trans)
    then show ?thesis by (rule free_next) (use True in simp_all)
  next
    case False
    with * have "s' = s" by (simp add: free_pool_def)
    with False show ?thesis by (auto intro: free_next [OF free_alone_refl])
  qed
qed

lemma enpool_alone:
  assumes "enpool x s = Some s'"
  shows "free_alone (Ep_null x, s) (Fp_lock, s')"
proof -
  obtain s1 where s1: "store x (n_next_update (\<lambda>_. NULL)) s = Some s1"
    "store (fpt s1) (n_next_update (\<lambda>_. x)) (s1\<lparr>fpt := x\<rparr>) = Some s'"
    using assms by (auto simp: enpool_def Let_def split: bind_splits)
  have "free_alone (Ep_link x (fpt s1), s1\<lparr>fpt := x\<rparr>) (Fp_lock, s')"
    by (rule free_next [OF free_alone_refl]) (use s1(2) in simp_all)
  then have "free_alone (Ep_xchg x, s1) (Fp_lock, s')" by (rule free_next) simp_all
  then show ?thesis by (rule free_next) (use s1(1) in simp_all)
qed

lemma safe_free_alone:
  assumes "safe_free x s = Some s'"
  shows "free_alone (Sf_can_free x, s) (Fp_return, s')"
proof -
  obtain n where n: "load x s = Some n" using assms by (auto simp: safe_free_def split: bind_splits)
  have pool: "free_alone (Ep_null x, s) (Fp_return, s')" if "enpool x s = Some s1" "free_pool False s1 = Some s'" for s1
    using enpool_alone [OF that(1)] free_pool_alone [OF that(2)] by (rule free_alone_trans)
  consider (kept) s1 where "n_can_free n = 0" "enpool x s = Some s1" "free_pool False s1 = Some s'"
    | (read) s1 where "n_can_free n \<noteq> 0" "inHP s x = Some True" "enpool x s = Some s1" "free_pool False s1 = Some s'"
    | (busy) s1 where "n_can_free n \<noteq> 0" "inHP s x = Some False" "is_freeing s \<noteq> 0"
        "enpool x s = Some s1" "free_pool False s1 = Some s'"
    | (freed) s1 s2 where "n_can_free n \<noteq> 0" "inHP s x = Some False" "is_freeing s = 0"
        "store x (n_next_update (\<lambda>_. MINUS_ONE)) (s\<lparr>is_freeing := 1\<rparr>) = Some s1" "free_node x s1 = Some s2"
        "free_pool False (s2\<lparr>is_freeing := 0\<rparr>) = Some s'"
    using assms n unfolding safe_free_def
    by (cases "is_freeing s = 0") (auto simp: Let_def split: bind_splits if_splits)
  then show ?thesis
  proof cases
    case kept
    from pool [OF kept(2,3)] show ?thesis by (rule free_next) (use n kept in simp_all)
  next
    case read
    have "free_alone (Sf_scan x 0, s) (Ep_null x, s)"
      using scan_alone [of s x 0 True] read(2) by (simp add: inHP_def)
    from free_alone_trans [OF this pool [OF read(3,4)]] show ?thesis by (rule free_next) (use n read in simp_all)
  next
    case busy
    have "free_alone (Sf_scan x 0, s) (Sf_lock x, s)"
      using scan_alone [of s x 0 False] busy(2) by (simp add: inHP_def)
    moreover have "free_alone (Sf_lock x, s) (Fp_return, s')"
      using pool [OF busy(4,5)] by (rule free_next) (use busy(3) in simp_all)
    ultimately have "free_alone (Sf_scan x 0, s) (Fp_return, s')" by (rule free_alone_trans)
    then show ?thesis by (rule free_next) (use n busy in simp_all)
  next
    case freed
    have "free_alone (Sf_scan x 0, s) (Sf_lock x, s)"
      using scan_alone [of s x 0 False] freed(2) by (simp add: inHP_def)
    moreover have "free_alone (Sf_unlock, s2) (Fp_return, s')"
      using free_pool_alone [OF freed(6)] by (rule free_next) simp_all
    then have "free_alone (Sf_free x, s1) (Fp_return, s')" by (rule free_next) (use freed(5) in simp_all)
    then have "free_alone (Sf_poison x, s\<lparr>is_freeing := 1\<rparr>) (Fp_return, s')"
      by (rule free_next) (use freed(4) in simp_all)
    then have "free_alone (Sf_lock x, s) (Fp_return, s')" by (rule free_next) (use freed(3) in simp_all)
    ultimately have "free_alone (Sf_scan x 0, s) (Fp_return, s')" by (rule free_alone_trans)
    then show ?thesis by (rule free_next) (use n freed in simp_all)
  qed
qed

section \<open>Enqueue and dequeue\<close>

lemma alone_next:
  "alone a (pc', s') cfg \<Longrightarrow> thread_step a pc s = Some (pc', s') \<Longrightarrow> running pc \<Longrightarrow> alone a (pc, s) cfg"
  by (rule alone_step)

lemma enqueue_alone:
  assumes "lfq_enqueue a d s = Some (r, s')"
  shows "alone a (Enq_calloc d, s) (Enq_ret r, s')"
proof (cases "a = NULL")
  case True
  with assms have "r = - ENOMEM" "s' = s" by (simp_all add: lfq_enqueue_def)
  with True show ?thesis by (intro alone_next [OF alone_refl]) (simp_all add: thread_step_def)
next
  case False
  with assms obtain s1 where s1: "store a (n_data_update (\<lambda>_. d)) (calloc_node a s) = Some s1"
    "store (tail s1) (n_next_update (\<lambda>_. a)) (s1\<lparr>tail := a\<rparr>) = Some s'" "r = 0"
    by (auto simp: lfq_enqueue_def Let_def split: bind_splits)
  have "alone a (Enq_link a (tail s1), s1\<lparr>tail := a\<rparr>) (Enq_ret r, s')"
    by (rule alone_next [OF alone_refl]) (use s1 in \<open>simp_all add: thread_step_def\<close>)
  then have "alone a (Enq_xchg a d, s1) (Enq_ret r, s')" by (rule alone_next) (simp_all add: thread_step_def)
  then have "alone a (Enq_data a d, calloc_node a s) (Enq_ret r, s')"
    by (rule alone_next) (use s1 in \<open>simp_all add: thread_step_def\<close>)
  then show ?thesis by (rule alone_next) (use False in \<open>simp_all add: thread_step_def\<close>)
qed

lemma alloc_tid_alone:
  assumes "alloc_tid_from s i = Some (t, s')" and "0 \<le> i"
  shows "t = -1 \<and> s' = s \<and> alone a (Tid_read i, s) (Deq_ret MINUS_ONE, s) \<or>
    0 \<le> t \<and> alone a (Tid_read i, s) (Deq_head t, s')"
  using assms
proof (induction s i rule: alloc_tid_from.induct)
  case (1 s i)
  show ?case
  proof (cases "i < MAXHPSIZE s")
    case False
    with "1.prems" have "t = -1" "s' = s" by (simp_all add: alloc_tid_from.simps [of s i])
    moreover have "alone a (Tid_read i, s) (Deq_ret MINUS_ONE, s)"
      by (rule alone_next [OF alone_refl]) (use False in \<open>simp_all add: thread_step_def\<close>)
    ultimately show ?thesis by simp
  next
    case True
    with "1.prems" obtain v where v: "read_tid_map s i = Some v"
      by (auto simp: alloc_tid_from.simps [of s i] split: bind_splits)
    show ?thesis
    proof (cases "v = 0")
      case free: True
      with "1.prems" True v have w: "write_tid_map i 1 s = Some s'" "t = i"
        by (auto simp: alloc_tid_from.simps [of s i])
      have "alone a (Tid_cas i, s) (Deq_head i, s')"
        by (rule alone_next [OF alone_refl]) (use v free w in \<open>simp_all add: thread_step_def\<close>)
      then have "alone a (Tid_read i, s) (Deq_head i, s')"
        by (rule alone_next) (use True free v in \<open>simp_all add: thread_step_def\<close>)
      with w(2) "1.prems"(2) show ?thesis by simp
    next
      case False
      with "1.prems" True v have "alloc_tid_from s (i + 1) = Some (t, s')"
        by (simp add: alloc_tid_from.simps [of s i])
      with "1.IH"(2) [OF True v False] "1.prems"(2)
      have "t = -1 \<and> s' = s \<and> alone a (Tid_read (i + 1), s) (Deq_ret MINUS_ONE, s) \<or>
        0 \<le> t \<and> alone a (Tid_read (i + 1), s) (Deq_head t, s')" by simp
      moreover have "thread_step a (Tid_read i) s = Some (Tid_read (i + 1), s)"
        using True False v by (simp add: thread_step_def)
      ultimately show ?thesis by (auto intro: alone_next)
    qed
  qed
qed

text \<open>Where a dequeue stands when its claiming loop has ended.\<close>

fun claimed :: "int \<Rightarrow> (addr \<times> addr) option \<Rightarrow> pc" where
  "claimed t None = Tid_free t NULL"
| "claimed t (Some (oh, nh)) = Deq_clear t oh nh"

lemma dequeue_loop_alone:
  assumes "dequeue_loop t s = Some r"
  shows "alone a (Deq_head t, s) (claimed t (fst r), snd r)"
proof (rule dequeue_loop.raw_induct [where P = "\<lambda>t s r. alone a (Deq_head t, s) (claimed t (fst r), snd r)",
      OF _ assms], goal_cases)
  case (1 loop t s r)
  then obtain s1 where w: "write_HP t (head s) s = Some s1" by (auto simp: Let_def split: bind_splits)
  have same: "head s1 = head s" using w by (auto simp: write_HP_def split: option.splits)
  with 1 w obtain n where n: "load (head s) s1 = Some n" by (auto simp: Let_def split: bind_splits)
  have pre: "alone a (Deq_head t, s) cfg" if "alone a (Deq_next t (head s), s1) cfg" for cfg
  proof -
    have "alone a (Deq_check t (head s), s1) cfg"
      using that by (rule alone_next) (use same in \<open>simp_all add: thread_step_def\<close>)
    then have "alone a (Deq_hp t (head s), s) cfg"
      by (rule alone_next) (use w in \<open>simp_all add: thread_step_def\<close>)
    then show ?thesis by (rule alone_next) (simp_all add: thread_step_def)
  qed
  show ?case
  proof (cases "n_next n = NULL")
    case True
    with 1 w same n obtain s2 where s2: "write_HP t NULL s1 = Some s2" "r = (None, s2)"
      by (auto simp: Let_def split: bind_splits)
    have "alone a (Deq_empty t, s1) (Tid_free t NULL, s2)"
      by (rule alone_next [OF alone_refl]) (use s2 in \<open>simp_all add: thread_step_def\<close>)
    then have "alone a (Deq_next t (head s), s1) (Tid_free t NULL, s2)"
      by (rule alone_next) (use n True in \<open>simp_all add: thread_step_def\<close>)
    with s2(2) pre show ?thesis by simp
  next
    case False
    with 1 w same n have r: "r = (Some (head s, n_next n), s1\<lparr>head := n_next n\<rparr>)" by (auto simp: Let_def)
    have "alone a (Deq_cas t (head s) (n_next n), s1) (Deq_clear t (head s) (n_next n), s1\<lparr>head := n_next n\<rparr>)"
      by (rule alone_next [OF alone_refl]) (use same in \<open>simp_all add: thread_step_def\<close>)
    then have "alone a (Deq_next t (head s), s1) (Deq_clear t (head s) (n_next n), s1\<lparr>head := n_next n\<rparr>)"
      by (rule alone_next) (use n False in \<open>simp_all add: thread_step_def\<close>)
    with r pre show ?thesis by simp
  qed
qed

lemma dequeue_tid_alone:
  assumes "lfq_dequeue_tid t s = Some (ret, s')"
  shows "alone a (Deq_head t, s) (Tid_free t ret, s')"
proof -
  obtain claim s1 where c: "dequeue_loop t s = Some (claim, s1)"
    using assms by (auto simp: lfq_dequeue_tid_def split: bind_splits)
  have loop: "alone a (Deq_head t, s) (claimed t claim, s1)" using dequeue_loop_alone [OF c] by simp
  show ?thesis
  proof (cases claim)
    case None
    with assms c loop show ?thesis by (simp add: lfq_dequeue_tid_def)
  next
    case (Some hd_pair)
    obtain oh nh where hp: "hd_pair = (oh, nh)" by (cases hd_pair)
    with assms c Some obtain s2 n s3 where st: "write_HP t NULL s1 = Some s2" "load nh s2 = Some n" "ret = n_data n"
      "store nh (n_can_free_update (\<lambda>_. 1)) s2 = Some s3" "safe_free oh s3 = Some s'"
      by (auto simp: lfq_dequeue_tid_def Let_def split: bind_splits)
    have "alone a (Deq_safe_free t ret Fp_return, s') (Tid_free t ret, s')"
      by (rule alone_next [OF alone_refl]) (simp_all add: thread_step_def)
    with alone_safe_free [OF safe_free_alone [OF st(5)], of a t ret]
    have "alone a (Deq_safe_free t ret (Sf_can_free oh), s3) (Tid_free t ret, s')" by (rule alone_trans)
    then have "alone a (Deq_can_free t oh nh ret, s2) (Tid_free t ret, s')"
      by (rule alone_next) (use st in \<open>simp_all add: thread_step_def\<close>)
    then have "alone a (Deq_data t oh nh, s2) (Tid_free t ret, s')"
      by (rule alone_next) (use st in \<open>simp_all add: thread_step_def\<close>)
    then have "alone a (Deq_clear t oh nh, s1) (Tid_free t ret, s')"
      by (rule alone_next) (use st in \<open>simp_all add: thread_step_def\<close>)
    with loop Some hp show ?thesis by (auto intro: alone_trans)
  qed
qed

lemma dequeue_alone:
  assumes "lfq_dequeue s = Some (ret, s')"
  shows "alone a (Tid_read 0, s) (Deq_ret ret, s')"
proof -
  obtain t s1 where t: "alloc_tid_from s 0 = Some (t, s1)"
    using assms by (auto simp: lfq_dequeue_def alloc_tid_def split: bind_splits)
  from alloc_tid_alone [OF this, of a] consider (none) "t = -1" "s1 = s" "alone a (Tid_read 0, s) (Deq_ret MINUS_ONE, s)"
    | (got) "0 \<le> t" "alone a (Tid_read 0, s) (Deq_head t, s1)" by auto
  then show ?thesis
  proof cases
    case none
    with assms t show ?thesis by (simp add: lfq_dequeue_def alloc_tid_def)
  next
    case got
    with assms t obtain s2 where s2: "lfq_dequeue_tid t s1 = Some (ret, s2)" "write_tid_map t 0 s2 = Some s'"
      by (auto simp: lfq_dequeue_def alloc_tid_def free_tid_def split: bind_splits if_splits)
    have "alone a (Tid_free t ret, s2) (Deq_ret ret, s')"
      by (rule alone_next [OF alone_refl]) (use s2 in \<open>simp_all add: thread_step_def\<close>)
    with dequeue_tid_alone [OF s2(1), of a] got(2) show ?thesis by (blast intro: alone_trans)
  qed
qed

section \<open>How long it takes\<close>

text \<open>At most \<open>n\<close> steps of an uninterrupted thread, until its call is about to return.\<close>

fun alone_steps :: "nat \<Rightarrow> addr \<Rightarrow> pc \<times> lfq \<Rightarrow> (pc \<times> lfq) option" where
  "alone_steps 0 a cfg = Some cfg"
| "alone_steps (Suc n) a (pc, s) =
     (if running pc then do { cfg \<leftarrow> thread_step a pc s; alone_steps n a cfg } else Some (pc, s))"

text \<open>
  Bounds for the steps still to go, \<open>m\<close> being the number of hazard pointers: a round of \<open>free_pool\<close> scans them
  once, there are at most \<open>MAXFREE\<close> rounds, and a dequeue that is not interrupted goes round its claiming
  loop at most once more.
\<close>

definition rounds_left :: "nat \<Rightarrow> int \<Rightarrow> nat" where
  "rounds_left m i = nat (MAXFREE - i) * (m + 10)"

fun free_rank :: "nat \<Rightarrow> free_pc \<Rightarrow> nat" where
  "free_rank m Fp_return = 0"
| "free_rank m Fp_unlock = 1"
| "free_rank m (Fp_head i) = rounds_left m i + 2"
| "free_rank m (Fp_free i p) = rounds_left m (i + 1) + 3"
| "free_rank m (Fp_set_head i p n) = rounds_left m (i + 1) + 4"
| "free_rank m (Fp_next i p) = rounds_left m (i + 1) + 5"
| "free_rank m (Fp_scan i p j) = rounds_left m (i + 1) + 6 + nat (int m - j)"
| "free_rank m (Fp_free_next i p) = rounds_left m (i + 1) + 7 + m"
| "free_rank m (Fp_can_free i p) = rounds_left m (i + 1) + 8 + m"
| "free_rank m Fp_lock = rounds_left m 0 + 3"
| "free_rank m (Ep_link x old) = rounds_left m 0 + 4"
| "free_rank m (Ep_xchg x) = rounds_left m 0 + 5"
| "free_rank m (Ep_null x) = rounds_left m 0 + 6"
| "free_rank m Sf_unlock = rounds_left m 0 + 4"
| "free_rank m (Sf_free x) = rounds_left m 0 + 5"
| "free_rank m (Sf_poison x) = rounds_left m 0 + 6"
| "free_rank m (Sf_lock x) = rounds_left m 0 + 7"
| "free_rank m (Sf_scan x i) = rounds_left m 0 + 8 + nat (int m - i)"
| "free_rank m (Sf_can_free x) = rounds_left m 0 + 9 + m"

fun rank :: "nat \<Rightarrow> addr \<Rightarrow> pc \<Rightarrow> nat" where
  "rank m h (Enq_calloc d) = 4"
| "rank m h (Enq_data n d) = 3"
| "rank m h (Enq_xchg n d) = 2"
| "rank m h (Enq_link n old) = 1"
| "rank m h (Tid_free t ret) = 1"
| "rank m h (Deq_empty t) = 2"
| "rank m h (Deq_safe_free t ret fp) = free_rank m fp + 2"
| "rank m h (Deq_can_free t oh nh ret) = rounds_left m 0 + m + 12"
| "rank m h (Deq_data t oh nh) = rounds_left m 0 + m + 13"
| "rank m h (Deq_clear t oh nh) = rounds_left m 0 + m + 14"
| "rank m h (Deq_cas t oh nh) = rounds_left m 0 + m + (if h = oh then 15 else 20)"
| "rank m h (Deq_next t oh) = rounds_left m 0 + m + (if h = oh then 16 else 21)"
| "rank m h (Deq_check t oh) = rounds_left m 0 + m + (if h = oh then 17 else 20)"
| "rank m h (Deq_hp t oh) = rounds_left m 0 + m + (if h = oh then 18 else 21)"
| "rank m h (Deq_head t) = rounds_left m 0 + m + 19"
| "rank m h (Tid_cas i) = rounds_left m 0 + m + 21 + 2 * nat (int m - (i + 1))"
| "rank m h (Tid_read i) = rounds_left m 0 + m + 20 + 2 * nat (int m - i)"
| "rank m h _ = 0"

lemma rounds_left_step: "i < MAXFREE \<Longrightarrow> rounds_left m i = rounds_left m (i + 1) + (m + 10)"
proof -
  assume "i < MAXFREE"
  then have "nat (MAXFREE - i) = Suc (nat (MAXFREE - (i + 1)))" by simp
  then show ?thesis by (simp add: rounds_left_def)
qed

lemma free_step_ctx:
  assumes "free_step fp s = Some (fp', s')"
  shows "MAXHPSIZE s' = MAXHPSIZE s" and "head s' = head s"
  using assms by (cases "(fp, s)" rule: free_step.cases;
      auto simp: store_def free_node_def CAS_def split: if_splits option.splits bind_splits)+

lemma free_rank_decreases:
  assumes "free_step fp s = Some (fp', s')" and "fp \<noteq> Fp_return"
  shows "free_rank (nat (MAXHPSIZE s)) fp' < free_rank (nat (MAXHPSIZE s)) fp"
  using assms by (cases "(fp, s)" rule: free_step.cases)
    (auto simp: CAS_def rounds_left_step split: if_splits bind_splits)

lemma thread_step_ctx:
  assumes "thread_step a pc s = Some (pc', s')"
  shows "MAXHPSIZE s' = MAXHPSIZE s"
proof (cases pc)
  case (Deq_safe_free t ret fp)
  with assms show ?thesis by (auto simp: thread_step_def dest: free_step_ctx split: if_splits bind_splits)
qed (use assms in \<open>auto simp: thread_step_def calloc_node_def store_def load_def write_HP_def write_tid_map_def CAS_def
      split: if_splits option.splits bind_splits\<close>)

lemma rank_decreases:
  assumes "thread_step a pc s = Some (pc', s')" and "running pc"
  shows "rank (nat (MAXHPSIZE s)) (head s') pc' < rank (nat (MAXHPSIZE s)) (head s) pc"
proof (cases pc)
  case (Deq_safe_free t ret fp)
  with assms show ?thesis
    by (auto simp: thread_step_def dest: free_rank_decreases split: if_splits bind_splits)
qed (use assms in \<open>auto simp: thread_step_def calloc_node_def store_def load_def write_HP_def write_tid_map_def CAS_def
      split: if_splits option.splits bind_splits\<close>)

lemma rank_of_a_dequeue: "rank m h (Tid_read 0) = 153 * m + 1520"
  by (simp add: rounds_left_def MAXFREE_def)

lemma thread_step_alloc: "\<not> (\<exists>d. pc = Enq_calloc d) \<Longrightarrow> thread_step a pc s = thread_step b pc s"
  by (cases pc) (auto simp: thread_step_def)

lemma no_more_calloc: "thread_step a pc s = Some (pc', s') \<Longrightarrow> pc' \<noteq> Enq_calloc d"
  by (cases pc) (auto simp: thread_step_def CAS_def split: if_splits bind_splits)

lemma alone_steps_alloc: "\<not> (\<exists>d. pc = Enq_calloc d) \<Longrightarrow> alone_steps n a (pc, s) = alone_steps n b (pc, s)"
proof (induction n arbitrary: pc s)
  case (Suc n)
  show ?case
  proof (cases "running pc \<and> thread_step b pc s \<noteq> None")
    case True
    then obtain pc' s' where st: "thread_step b pc s = Some (pc', s')" by (cases "thread_step b pc s") auto
    with Suc.IH [of pc' s'] no_more_calloc [OF st] show ?thesis
      using thread_step_alloc [OF Suc.prems, of a s b] by simp
  next
    case False
    then show ?thesis using thread_step_alloc [OF Suc.prems, of a s b] by (cases "thread_step b pc s") auto
  qed
qed simp

end
