(* ===== verification/Lfq_Threads_Props.thy ===== *)
theory Lfq_Threads_Props
  imports Lfq_Schedules Lfq_Alone
begin

text \<open>
  The properties of the queue of \<open>lfq.c\<close> under threads: no interleaving makes it touch freed memory, it is a FIFO
  queue up to two ways in which a dequeue can miss elements, it is the sequential queue again when all threads
  are out, an uninterrupted call ends, and the steps of an uninterrupted thread are the operations of
  \<open>Lfq\<close>.
\<close>

section \<open>Reachable states\<close>

lemma reached_simulated:
  assumes "lfq_rep s xs" and "runs threads_step (threads_start s) ls c"
  obtains f where "runs (fifo_step True) (fifo_start xs) ls f" and "fifo_sim c f"
  using lfq_threads.runs_simulated [OF assms(2) fifo_sim_start [OF assms(1)]] by blast

lemma null_free:
  assumes "threads_ok c q pl"
  shows "nodes (queue c) NULL = None"
proof -
  have "heap_ok (nodes (queue c)) (all_held c) q pl" using assms by (simp add: threads_ok_def shared_ok_def)
  then show ?thesis by (rule heap_null)
qed

lemma rank_0: "rank m h pc = 0 \<Longrightarrow> \<not> running pc"
  by (cases pc) (auto split: if_splits)

lemma alone_ends:
  assumes "threads_ok c q pl" and "rank (nat (MAXHPSIZE (queue c))) (head (queue c)) (pcs c t) \<le> n"
    and "nodes (queue c) a = None"
  shows "\<exists>pc s. alone_steps n a (pcs c t, queue c) = Some (pc, s) \<and> \<not> running pc"
  using assms
proof (induction n arbitrary: c q pl a)
  case 0
  then show ?case using rank_0 by auto
next
  case (Suc n)
  show ?case
  proof (cases "running (pcs c t)")
    case True
    obtain pc s where st: "thread_step a (pcs c t) (queue c) = Some (pc, s)"
      and ok: "threads_ok (goto t pc c\<lparr>queue := s\<rparr>) (queue_after (queue c) (pcs c t) q) (pool_after (pcs c t) pl)"
      by (rule threads_ok_run [OF Suc.prems(1) True Suc.prems(3)])
    have m: "MAXHPSIZE s = MAXHPSIZE (queue c)" by (rule thread_step_ctx [OF st])
    have "rank (nat (MAXHPSIZE s)) (head s) pc \<le> n"
      using rank_decreases [OF st True] Suc.prems(2) m by simp
    then have "\<exists>pc' s'. alone_steps n NULL (pc, s) = Some (pc', s') \<and> \<not> running pc'"
      using Suc.IH [OF ok, of NULL] null_free [OF ok] by simp
    moreover have "alone_steps n a (pc, s) = alone_steps n NULL (pc, s)"
      by (rule alone_steps_alloc) (use no_more_calloc [OF st] in blast)
    ultimately show ?thesis using st True by simp
  next
    case False
    then show ?thesis by simp
  qed
qed

lemma alone_final:
  assumes "alone a x y" and "alone a x z" and "\<not> running (fst y)" and "\<not> running (fst z)"
  shows "y = z"
  using assms
proof (induction rule: alone.induct)
  case (alone_refl cfg)
  from alone_refl(1) show ?case by cases (use alone_refl(2) in auto)
next
  case (alone_step pc s cfg cfg')
  from alone_step.prems(1) show ?case
    by cases (use alone_step.prems(3) alone_step.hyps(1,2) alone_step.IH alone_step.prems(2) in auto)
qed

section \<open>The properties\<close>

text \<open>
  C6. However the enqueues and dequeues of any number of threads interleave, no step reads, writes or frees a node that is not
  allocated, or an array element that does not exist: hazard pointers, \<open>can_free\<close> and the lock of the pool
  together keep every node until its last reader is through.
\<close>

theorem threads_never_fault:
  assumes "lfq_rep s xs" and "runs threads_step (threads_start s) ls c"
    and "running (pcs c t)" and "nodes (queue c) a = None"
  shows "\<exists>pc s'. thread_step a (pcs c t) (queue c) = Some (pc, s')"
proof -
  obtain f where "fifo_sim c f" by (rule reached_simulated [OF assms(1,2)])
  then obtain q pl where "threads_ok c q pl" by (auto simp: fifo_sim_def)
  from threads_ok_run [OF this assms(3,4)] show ?thesis by blast
qed

theorem threads_never_fault_witness:
  "\<exists>pc s'. thread_step NULL (Tid_read 0) two_queue = Some (pc, s')"
proof -
  let ?c = "goto 1 (Tid_read 0) (threads_start two_queue)"
  have "runs threads_step (threads_start two_queue) ([] @ [Call_dequeue 1]) ?c"
    by (rule runs_label [OF runs_nil]) (auto intro: call_dequeue)
  moreover have "nodes two_queue NULL = None" by (rule fresh_sample [OF two_queue_shape]) simp
  ultimately show ?thesis using threads_never_fault [OF sample_reps(2), of "[Call_dequeue 1]" ?c 1 NULL] by simp
qed

text \<open>
  C3. The queue under threads behaves like a FIFO queue whose operations are atomic: for every interleaving there is a
  run of the atomic queue with the same calls and returns in the same order, in which every enqueue takes
  effect between its call and its return, and every dequeue that answers an element takes the oldest one between
  its call and its return.  A dequeue answers \<open>NULL\<close> when the queue is empty, when another dequeue has overtaken
  it, or while an enqueue is under way; it answers -1 when it finds no thread id.
\<close>

theorem threads_refine_fifo:
  assumes "lfq_rep s xs" and "runs threads_step (threads_start s) ls c"
  shows "\<exists>f. runs (fifo_step True) (fifo_start xs) ls f"
proof -
  obtain f where "runs (fifo_step True) (fifo_start xs) ls f" by (rule reached_simulated [OF assms])
  then show ?thesis by blast
qed

theorem threads_refine_fifo_witness:
  "\<exists>f. runs (fifo_step True) (fifo_start [11, 22]) overtaken_trace f"
proof -
  obtain c where "runs threads_step (threads_start two_queue) overtaken_trace c" by (rule overtaken_run)
  from threads_refine_fifo [OF sample_reps(2) this] show ?thesis .
qed

text \<open>
  C15. When no thread is inside an operation any more, the queue is again one of the sequential theorems' queues: it
  represents the elements the atomic queue holds, no node is lost or in two places (the store holds one
  dummy, one node per element and the free pool, which \<open>lfg_count_freelist\<close> counts), no hazard pointer, thread
  id or lock is left behind.
\<close>

theorem idle_threads_leave_queue:
  assumes "lfq_rep s xs" and "runs threads_step (threads_start s) ls c" and "\<forall>t. pcs c t = Idle"
  shows "\<exists>f k. runs (fifo_step True) (fifo_start xs) ls f \<and> lfq_rep (queue c) (items f) \<and>
           lfg_count_freelist (queue c) = Some k \<and> int (card (dom (nodes (queue c)))) = 1 + int (length (items f)) + k"
proof -
  obtain f where f: "runs (fifo_step True) (fifo_start xs) ls f" "fifo_sim c f" by (rule reached_simulated [OF assms(1,2)])
  then obtain q pl where ok: "threads_ok c q pl" and it: "items f = map (node_data (queue c)) (tl q)"
    by (auto simp: fifo_sim_def)
  have idle: "pcs c t = Idle" for t using assms(3) by blast
  note sh = idle_shape [OF ok idle]
  have "lfg_count_freelist (queue c) = Some (int (length pl))"
    using lfg_count_freelist_eq [OF lfq_shape_pool [OF sh]] by simp
  moreover have "card (dom (nodes (queue c))) = 1 + length (tl q) + length pl"
    using lfq_shape_dom [OF sh] distinct_card [OF lfq_shape_distinct [OF sh]] by (simp add: image_Un image_image)
  ultimately show ?thesis using f(1) idle_rep [OF ok idle] it by (intro exI [of _ f] exI [of _ "int (length pl)"]) simp
qed

theorem idle_threads_leave_queue_witness:
  "\<exists>f k s. runs (fifo_step True) (fifo_start [11, 22]) overtaken_trace f \<and> lfq_rep s (items f) \<and>
     lfg_count_freelist s = Some k \<and> int (card (dom (nodes s))) = 1 + int (length (items f)) + k"
proof -
  obtain c where "runs threads_step (threads_start two_queue) overtaken_trace c" "\<forall>t. pcs c t = Idle"
    by (rule overtaken_run)
  with idle_threads_leave_queue [OF sample_reps(2), of overtaken_trace c] show ?thesis by blast
qed

text \<open>
  C19. A dequeue can miss elements.  With 11 and 22 in the queue, one that is overtaken between reading the head and
  reading its successor finds the \<open>NULL\<close> that \<open>enpool\<close> wrote into the union of \<open>next\<close> and \<open>free_next\<close>, and answers
  \<open>NULL\<close> though 22 is there all the time; and one that comes after an enqueue of 22 has returned
  answers \<open>NULL\<close> while another enqueue, of 11, has swapped the tail and not yet set the link.  A queue with atomic
  operations that answers \<open>NULL\<close> only when it is empty has neither run.
\<close>

theorem dequeue_misses_elements:
  "lfq_rep two_queue [11, 22] \<and> lfq_rep empty_queue [] \<and>
   (\<exists>c. runs threads_step (threads_start two_queue) overtaken_trace c) \<and>
   \<not> (\<exists>f. runs (fifo_step False) (fifo_start [11, 22]) overtaken_trace f) \<and>
   (\<exists>c. runs threads_step (threads_start empty_queue) stalled_trace c) \<and>
   \<not> (\<exists>f. runs (fifo_step False) (fifo_start []) stalled_trace f)"
proof -
  obtain c where "runs threads_step (threads_start two_queue) overtaken_trace c" by (rule overtaken_run)
  then have "\<exists>c. runs threads_step (threads_start two_queue) overtaken_trace c" by (rule exI)
  then show ?thesis using sample_reps stalled_run not_overtaken not_stalled by (intro conjI notI) (auto elim: exE)
qed

text \<open>
  C20. Every call ends if its thread is not interrupted any more, wherever the other threads have been stopped: nobody waits
  for a lock or for another thread.  The number of steps left is bounded by \<open>rank\<close>, which for a whole dequeue
  is 1520 plus 153 for every hazard pointer.
\<close>

theorem uninterrupted_calls_end:
  assumes "lfq_rep s xs" and "runs threads_step (threads_start s) ls c" and "nodes (queue c) a = None"
  shows "\<exists>pc s'. alone_steps (rank (nat (MAXHPSIZE (queue c))) (head (queue c)) (pcs c t)) a (pcs c t, queue c)
           = Some (pc, s') \<and> \<not> running pc"
proof -
  obtain f where "fifo_sim c f" by (rule reached_simulated [OF assms(1,2)])
  then obtain q pl where "threads_ok c q pl" by (auto simp: fifo_sim_def)
  from alone_ends [OF this order_refl assms(3)] show ?thesis .
qed

theorem uninterrupted_calls_end_witness:
  "\<exists>pc s'. alone_steps 1826 NULL (Tid_read 0, two_queue) = Some (pc, s') \<and> \<not> running pc"
proof -
  let ?c = "goto 1 (Tid_read 0) (threads_start two_queue)"
  have "runs threads_step (threads_start two_queue) ([] @ [Call_dequeue 1]) ?c"
    by (rule runs_label [OF runs_nil]) (auto intro: call_dequeue)
  moreover have "nodes two_queue NULL = None" by (rule fresh_sample [OF two_queue_shape]) simp
  moreover have "MAXHPSIZE two_queue = 2" by code_simp
  ultimately show ?thesis
    using uninterrupted_calls_end [OF sample_reps(2), of "[Call_dequeue 1]" ?c NULL 1]
    by (simp add: rank_of_a_dequeue del: alone_steps.simps rank.simps)
qed

text \<open>
  C21. The steps of a thread that is not interrupted are the operations of the sequential theorems: it brings an enqueue or
  a dequeue to its return with a result and a queue exactly if \<open>lfq_enqueue\<close> or \<open>lfq_dequeue\<close> gives them.
\<close>

theorem alone_iff_operation:
  assumes "lfq_rep s xs" and "a = NULL \<or> nodes s a = None"
  shows "(alone a (Enq_calloc d, s) (Enq_ret r, s') \<longleftrightarrow> lfq_enqueue a d s = Some (r, s')) \<and>
    (alone a (Tid_read 0, s) (Deq_ret v, s') \<longleftrightarrow> lfq_dequeue s = Some (v, s'))"
proof -
  have "\<exists>r s'. lfq_enqueue a d s = Some (r, s')"
    using lfq_queue.enq_fail lfq_queue.enq_ok [OF assms(1), of a d] assms(2)
    by (cases "a = NULL") (auto simp: lfq_fresh_def)
  then obtain r1 s1 where e: "lfq_enqueue a d s = Some (r1, s1)" by blast
  have "\<exists>v s'. lfq_dequeue s = Some (v, s')"
    using lfq_queue.deq_empty lfq_queue.deq_cons assms(1) by (cases xs) blast+
  then obtain v2 s2 where q: "lfq_dequeue s = Some (v2, s2)" by blast
  have "alone a (Enq_calloc d, s) (Enq_ret r, s') \<longleftrightarrow> lfq_enqueue a d s = Some (r, s')"
    using alone_final [OF enqueue_alone [OF e], of "(Enq_ret r, s')"] enqueue_alone [OF e] e by auto
  moreover have "alone a (Tid_read 0, s) (Deq_ret v, s') \<longleftrightarrow> lfq_dequeue s = Some (v, s')"
    using alone_final [OF dequeue_alone [OF q], of a "(Deq_ret v, s')"] dequeue_alone [OF q, of a] q by auto
  ultimately show ?thesis by (rule conjI)
qed

theorem alone_iff_operation_witness:
  "\<forall>s'. alone 48 (Enq_calloc 11, empty_queue) (Enq_ret 0, s') \<longleftrightarrow> lfq_enqueue 48 11 empty_queue = Some (0, s')"
proof -
  have "nodes empty_queue 48 = None" by (rule fresh_sample [OF empty_queue_shape]) simp
  with alone_iff_operation [OF sample_reps(1), of 48 11 0] show ?thesis by blast
qed

section \<open>Cleaning beside a dequeue\<close>

text \<open>An empty queue in which a dequeue has published and checked its hazard pointer.\<close>

definition guarded_acts :: "act list" where
  "guarded_acts = [Say (Call_dequeue 1), Go 1 5 NULL]"

definition guarded :: lfq where
  "guarded = (case schedule guarded_acts (threads_start empty_queue) of Some (ls, c) \<Rightarrow> queue c)"

lemma guarded_eq:
  "guarded = \<lparr>head = 16, count = 0, HP = Some [16, NULL, NULL, NULL, NULL, NULL],
     tid_map = Some [1, 0, 0, 0, 0, 0, 0, 0, 0, 0, 0, 0], is_freeing = 0, fph = 32, fpt = 32, MAXHPSIZE = 2,
     tail = 16, nodes = nodes guarded\<rparr>"
  by code_simp

lemma guarded_nodes:
  "nodes guarded 16 = Some \<lparr>n_data = NULL, n_next = NULL, n_can_free = 1\<rparr>"
  "nodes guarded 32 = Some \<lparr>n_data = NULL, n_next = NULL, n_can_free = 1\<rparr>"
  by code_simp+

lemma guarded_run:
  obtains c where "runs threads_step (threads_start empty_queue) [Call_dequeue 1] c" "pcs c 1 = Deq_next 0 16"
    "queue c = guarded"
proof -
  have "map_option (\<lambda>(ls, c). (ls, pcs c 1)) (schedule guarded_acts (threads_start empty_queue)) =
      Some ([Call_dequeue 1], Deq_next 0 16)" by code_simp
  then obtain c where c: "schedule guarded_acts (threads_start empty_queue) = Some ([Call_dequeue 1], c)"
    "pcs c 1 = Deq_next 0 16" by auto
  from schedule_runs [OF c(1) runs_nil] that [of c] c show ?thesis by (simp add: guarded_def)
qed

text \<open>\<open>safe_free\<close> puts the guarded node into the pool, and \<open>lfq_clean\<close> frees the last node of the pool.\<close>

lemma guarded_clean: "\<exists>s. lfq_clean guarded = Some (0, s) \<and> nodes s 16 = None"
  by (subst guarded_eq)
    (simp add: lfq_clean_def lfq_clean_loop.simps safe_free_def inHP_def inHP_from.simps free_pool_def free_pool_loop.simps
      load_def store_def free_node_def guarded_nodes enpool_def read_HP_def aread_def zero_ctx_def)

text \<open>
  C37. \<open>lfq_clean\<close> must not run beside other threads, though it frees the nodes with \<open>safe_free\<close>: on an empty queue it frees
  the node a dequeue guards with its hazard pointer and returns 0, and the dequeue reads freed memory.
\<close>

theorem lfq_clean_ignores_hazard:
  "\<exists>c s. runs threads_step (threads_start empty_queue) [Call_dequeue 1] c
     \<and> pcs c 1 = Deq_next 0 16 \<and> read_HP (queue c) 0 = Some 16
     \<and> lfq_clean (queue c) = Some (0, s) \<and> thread_step a (pcs c 1) s = None"
proof -
  obtain c where c: "runs threads_step (threads_start empty_queue) [Call_dequeue 1] c" "pcs c 1 = Deq_next 0 16"
    "queue c = guarded" by (rule guarded_run)
  obtain s where s: "lfq_clean guarded = Some (0, s)" "nodes s 16 = None" using guarded_clean by blast
  have "read_HP guarded 0 = Some 16" by (subst guarded_eq) (simp add: read_HP_def aread_def)
  moreover have "thread_step a (Deq_next 0 16) s = None" using s(2) by (simp add: thread_step_def load_def)
  ultimately show ?thesis using c s(1) by (intro exI [of _ c] exI [of _ s]) simp
qed

end
