(* ===== verification/Nut.thy ===== *)
theory Nut
  imports Mixsim_Prelude
begin

text \<open>
  The name-to-address table of \<open>adaptor/name_udp_table.h\<close> and \<open>.c\<close>: which UDP endpoints wait for
  the data of a name.

  A C string pointer is the list of the bytes that may be read from it on, so a read beyond its
  end is undefined.  A \<open>nut_entry *\<close> is an index into the table's array.  What
  \<open>malloc(sizeof(nut_entry) * n)\<close> returns is given by a function \<open>mal\<close>: \<open>None\<close> for \<open>NULL\<close>,
  otherwise \<open>n\<close> entries of arbitrary content.
\<close>

section \<open>Data\<close>

record sockaddr_in =
  sin_family :: u16
  sin_port :: u16
  sin_addr :: u32

definition MAX_NAMELEN :: int where "MAX_NAMELEN = 1024"

definition MAX_ADDR_PERNAME :: int where "MAX_ADDR_PERNAME = 8"

record nut_entry =
  name_len :: u16
  addr_num :: u16
  deleted :: u16
  canstop :: u16
  e_name :: "char list"
  e_addr :: "sockaddr_in list"

text \<open>An \<open>entries\<close> pointer that is \<open>NULL\<close> gives access to no entry, like an empty array.\<close>

record nut =
  table_cap :: u32
  entry_num :: u32
  entries :: "nut_entry list"

type_synonym malloc = "int \<Rightarrow> nut_entry list option"

section \<open>Operations\<close>

definition nut_create :: "malloc \<Rightarrow> bool \<Rightarrow> int \<Rightarrow> nut option" where
  "nut_create mal tab_ok init_size =
     (let init_size = (if init_size \<le> 0 \<or> init_size \<ge> 32 then 32 else init_size)
      in if \<not> tab_ok then None
         else Some \<lparr>table_cap = word_of_int init_size, entry_num = 0,
                    entries = (case mal init_size of None \<Rightarrow> [] | Some b \<Rightarrow> b)\<rparr>)"

text \<open>The longest suffix of a name that an entry can hold, and its length.\<close>

definition truncate_name :: "char list \<Rightarrow> int \<Rightarrow> char list \<times> int" where
  "truncate_name nm nlen =
     (if nlen > MAX_NAMELEN then (drop (nat (nlen - MAX_NAMELEN)) nm, MAX_NAMELEN) else (nm, nlen))"

function namematch_loop :: "nut_entry \<Rightarrow> char list \<Rightarrow> int \<Rightarrow> int option" where
  "namematch_loop entry nm idx =
     (if idx \<ge> 0
      then do {
        c \<leftarrow> aread nm idx;
        d \<leftarrow> aread (e_name entry) idx;
        if c \<noteq> d then Some 0 else namematch_loop entry nm (idx - 1)
      }
      else Some 1)"
  by pat_completeness auto
termination
  by (relation "measure (\<lambda>(entry, nm, idx). nat (idx + 1))") auto

declare namematch_loop.simps [simp del]

definition nut_entry_namematch :: "nut_entry \<Rightarrow> char list \<Rightarrow> int \<Rightarrow> int option" where
  "nut_entry_namematch entry nm nlen =
     (let (nm, nlen) = truncate_name nm nlen
      in if nlen \<noteq> uint (name_len entry) then Some 0
         else namematch_loop entry nm (nlen - 1))"

function fdmatch_loop :: "nut_entry \<Rightarrow> sockaddr_in \<Rightarrow> int \<Rightarrow> int option" where
  "fdmatch_loop entry a idx =
     (if idx < uint (addr_num entry)
      then do {
        b \<leftarrow> aread (e_addr entry) idx;
        if sin_addr b = sin_addr a \<and> sin_port b = sin_port a then Some 1
        else fdmatch_loop entry a (idx + 1)
      }
      else Some 0)"
  by pat_completeness auto
termination
  by (relation "measure (\<lambda>(entry, a, idx). nat (uint (addr_num entry) - idx))") auto

declare fdmatch_loop.simps [simp del]

definition nut_entry_fdmatch :: "nut_entry \<Rightarrow> sockaddr_in \<Rightarrow> int option" where
  "nut_entry_fdmatch entry a = fdmatch_loop entry a 0"

definition nut_grow :: "malloc \<Rightarrow> nut \<Rightarrow> nut option" where
  "nut_grow mal table = do {
     let target_cap = (if table_cap table < 256 then sint (table_cap table * 2)
                       else sint (table_cap table + table_cap table div 4));
     target_buf \<leftarrow> mal target_cap;
     target_buf \<leftarrow> amemcpy target_buf 0 (entries table) (uint (entry_num table));
     Some (table\<lparr>entries := target_buf, table_cap := word_of_int target_cap\<rparr>)
   }"

text \<open>
  The loop of \<open>nut_set\<close>: it returns from inside with a result and the new table, or runs to the
  end with the last index and the first deleted slot (-1 for none).
\<close>

datatype nut_scan = Returned int nut | Ran_out int int

function nut_set_loop ::
  "nut \<Rightarrow> char list \<Rightarrow> int \<Rightarrow> sockaddr_in \<Rightarrow> int \<Rightarrow> int \<Rightarrow> nut_scan option" where
  "nut_set_loop table nm nlen a cur_idx first_deleted =
     (if cur_idx < sint (entry_num table)
      then do {
        entry \<leftarrow> aread (entries table) cur_idx;
        if deleted entry = 1
        then nut_set_loop table nm nlen a (cur_idx + 1)
               (if first_deleted = -1 then cur_idx else first_deleted)
        else do {
          m \<leftarrow> nut_entry_namematch entry nm nlen;
          if m > 0
          then do {
            f \<leftarrow> nut_entry_fdmatch entry a;
            if f > 0 then Some (Returned 0 table)
            else if uint (addr_num entry) = MAX_ADDR_PERNAME then Some (Returned (-1) table)
            else do {
              as \<leftarrow> awrite (e_addr entry) (uint (addr_num entry)) a;
              es \<leftarrow> awrite (entries table) cur_idx
                      (entry\<lparr>e_addr := as, addr_num := addr_num entry + 1\<rparr>);
              Some (Returned 1 (table\<lparr>entries := es\<rparr>))
            }
          }
          else nut_set_loop table nm nlen a (cur_idx + 1) first_deleted
        }
      }
      else Some (Ran_out cur_idx first_deleted))"
  by pat_completeness auto
termination
  by (relation "measure (\<lambda>(table, nm, nlen, a, i, fd). nat (sint (entry_num table) - i))") auto

declare nut_set_loop.simps [simp del]

definition nut_set :: "malloc \<Rightarrow> char list \<Rightarrow> int \<Rightarrow> sockaddr_in \<Rightarrow> nut \<Rightarrow> (int \<times> nut) option" where
  "nut_set mal nm nlen a table = do {
     r \<leftarrow> nut_set_loop table nm nlen a 0 (-1);
     case r of
       Returned ret table \<Rightarrow> Some (ret, table)
     | Ran_out cur_idx first_deleted \<Rightarrow> do {
         (table, slot) \<leftarrow> (if first_deleted = -1
           then do {
             table \<leftarrow> (if cur_idx = sint (table_cap table) then nut_grow mal table else Some table);
             Some (table\<lparr>entry_num := entry_num table + 1\<rparr>, cur_idx)
           }
           else Some (table, first_deleted));
         entry \<leftarrow> aread (entries table) slot;
         as \<leftarrow> awrite (e_addr entry) 0 a;
         let (nm, nlen) = truncate_name nm nlen;
         nm' \<leftarrow> amemcpy (e_name entry) 0 nm nlen;
         es \<leftarrow> awrite (entries table) slot
                 (entry\<lparr>deleted := 0, addr_num := 1, e_addr := as,
                        name_len := word_of_int nlen, e_name := nm'\<rparr>);
         Some (1, table\<lparr>entries := es\<rparr>)
       }
   }"

text \<open>\<open>nut_get\<close>: \<open>Some None\<close> is the \<open>NULL\<close> it returns when no entry matches.\<close>

function nut_get_loop :: "nut \<Rightarrow> char list \<Rightarrow> int \<Rightarrow> int \<Rightarrow> int option option" where
  "nut_get_loop table nm nlen cur_idx =
     (if cur_idx < sint (entry_num table)
      then do {
        entry \<leftarrow> aread (entries table) cur_idx;
        if deleted entry = 1 then nut_get_loop table nm nlen (cur_idx + 1)
        else do {
          m \<leftarrow> nut_entry_namematch entry nm nlen;
          if m > 0 then Some (Some cur_idx) else nut_get_loop table nm nlen (cur_idx + 1)
        }
      }
      else Some None)"
  by pat_completeness auto
termination
  by (relation "measure (\<lambda>(table, nm, nlen, i). nat (sint (entry_num table) - i))") auto

declare nut_get_loop.simps [simp del]

definition nut_get :: "nut \<Rightarrow> char list \<Rightarrow> int \<Rightarrow> int option option" where
  "nut_get table nm nlen = nut_get_loop table nm nlen 0"

definition nut_del :: "int \<Rightarrow> nut \<Rightarrow> nut option" where
  "nut_del entry table = do {
     e \<leftarrow> aread (entries table) entry;
     es \<leftarrow> awrite (entries table) entry (e\<lparr>deleted := 1\<rparr>);
     Some (table\<lparr>entries := es\<rparr>)
   }"

end
