(* ===== verification/Name_Map.thy ===== *)
theory Name_Map
  imports Mixsim_Prelude
begin

text \<open>
  The contract the adaptor uses its name table by: a map from names to the list of waiting
  endpoints, in the order they registered, each once and at most \<open>limit\<close> of them.  The adaptor
  registers an endpoint when an interest comes in, and when the data arrives it looks the name
  up, reads the endpoints and deletes the entry: \<open>take_waiters\<close> below.
\<close>

section \<open>Operations on the map\<close>

definition register ::
  "('a \<Rightarrow> 'e) \<Rightarrow> nat \<Rightarrow> 'k \<Rightarrow> 'a \<Rightarrow> ('k \<Rightarrow> 'a list option) \<Rightarrow> int \<times> ('k \<Rightarrow> 'a list option)" where
  "register ep limit k a m =
     (case m k of
        None \<Rightarrow> (1, m(k := Some [a]))
      | Some as \<Rightarrow> if ep a \<in> ep ` set as then (0, m)
                   else if length as = limit then (-1, m)
                   else (1, m(k := Some (as @ [a]))))"

datatype ('k, 'a) mop = Register 'k 'a | Take 'k

datatype 'a mres = Registered int | Taken "'a list option"

fun map_ops ::
  "('n \<Rightarrow> 'k) \<Rightarrow> ('a \<Rightarrow> 'e) \<Rightarrow> nat \<Rightarrow> ('n, 'a) mop list \<Rightarrow> ('k \<Rightarrow> 'a list option) \<Rightarrow>
   'a mres list \<times> ('k \<Rightarrow> 'a list option)" where
  "map_ops key ep limit [] m = ([], m)"
| "map_ops key ep limit (Register n a # ops) m =
     (let (r, m) = register ep limit (key n) a m;
          (rs, m) = map_ops key ep limit ops m
      in (Registered r # rs, m))"
| "map_ops key ep limit (Take n # ops) m =
     (let (rs, m') = map_ops key ep limit ops (m(key n := None))
      in (Taken (m (key n)) # rs, m'))"

section \<open>The same operations on a table\<close>

definition take_waiters ::
  "('t \<Rightarrow> 'n \<Rightarrow> 'h option option) \<Rightarrow> ('t \<Rightarrow> 'h \<Rightarrow> 'a list) \<Rightarrow> ('h \<Rightarrow> 't \<Rightarrow> 't option) \<Rightarrow>
   'n \<Rightarrow> 't \<Rightarrow> ('a list option \<times> 't) option" where
  "take_waiters tget taddrs tdel n t = do {
     h \<leftarrow> tget t n;
     case h of
       None \<Rightarrow> Some (None, t)
     | Some h \<Rightarrow> do { t' \<leftarrow> tdel h t; Some (Some (taddrs t h), t') }
   }"

fun table_ops ::
  "('n \<Rightarrow> 'a \<Rightarrow> 't \<Rightarrow> (int \<times> 't) option) \<Rightarrow> ('n \<Rightarrow> 't \<Rightarrow> ('a list option \<times> 't) option) \<Rightarrow>
   ('n, 'a) mop list \<Rightarrow> 't \<Rightarrow> ('a mres list \<times> 't) option" where
  "table_ops tset ttake [] t = Some ([], t)"
| "table_ops tset ttake (Register n a # ops) t = do {
     (r, t) \<leftarrow> tset n a t;
     (rs, t) \<leftarrow> table_ops tset ttake ops t;
     Some (Registered r # rs, t)
   }"
| "table_ops tset ttake (Take n # ops) t = do {
     (r, t) \<leftarrow> ttake n t;
     (rs, t) \<leftarrow> table_ops tset ttake ops t;
     Some (Taken r # rs, t)
   }"

primrec mop_name :: "('n, 'a) mop \<Rightarrow> 'n" where
  "mop_name (Register n a) = n"
| "mop_name (Take n) = n"

section \<open>The interface\<close>

text \<open>\<open>slots\<close> counts the entries a table uses; it works as promised while they are below \<open>bound\<close>.\<close>

locale name_map =
  fixes tset :: "'n \<Rightarrow> 'a \<Rightarrow> 't \<Rightarrow> (int \<times> 't) option"
    and tget :: "'t \<Rightarrow> 'n \<Rightarrow> 'h option option"
    and taddrs :: "'t \<Rightarrow> 'h \<Rightarrow> 'a list"
    and tdel :: "'h \<Rightarrow> 't \<Rightarrow> 't option"
    and inv :: "'t \<Rightarrow> bool"
    and abs :: "'t \<Rightarrow> 'k \<Rightarrow> 'a list option"
    and slots :: "'t \<Rightarrow> nat"
    and bound :: nat
    and valid :: "'n \<Rightarrow> bool"
    and key :: "'n \<Rightarrow> 'k"
    and ep :: "'a \<Rightarrow> 'e"
    and limit :: nat
  assumes set_ok: "inv t \<Longrightarrow> valid n \<Longrightarrow> slots t < bound \<Longrightarrow>
      \<exists>t'. tset n a t = Some (fst (register ep limit (key n) a (abs t)), t') \<and> inv t'
         \<and> slots t' \<le> Suc (slots t) \<and> abs t' = snd (register ep limit (key n) a (abs t))"
    and get_miss: "inv t \<Longrightarrow> valid n \<Longrightarrow> abs t (key n) = None \<Longrightarrow> tget t n = Some None"
    and get_hit: "inv t \<Longrightarrow> valid n \<Longrightarrow> abs t (key n) = Some as \<Longrightarrow>
      \<exists>h t'. tget t n = Some (Some h) \<and> taddrs t h = as \<and> tdel h t = Some t' \<and> inv t'
           \<and> slots t' = slots t \<and> abs t' = (abs t)(key n := None)"
begin

lemma take_ok:
  assumes "inv t" "valid n"
  shows "\<exists>t'. take_waiters tget taddrs tdel n t = Some (abs t (key n), t') \<and> inv t'
            \<and> slots t' = slots t \<and> abs t' = (abs t)(key n := None)"
proof (cases "abs t (key n)")
  case None
  with get_miss [OF assms None] show ?thesis
    using assms by (auto simp: take_waiters_def fun_upd_idem)
next
  case (Some as)
  with get_hit [OF assms Some] show ?thesis by (auto simp: take_waiters_def)
qed

lemma ops_refine:
  assumes "inv t" "\<forall>op \<in> set ops. valid (mop_name op)" "slots t + length ops \<le> bound"
  shows "\<exists>t'. table_ops tset (take_waiters tget taddrs tdel) ops t =
                Some (fst (map_ops key ep limit ops (abs t)), t')
            \<and> inv t' \<and> abs t' = snd (map_ops key ep limit ops (abs t))
            \<and> slots t' \<le> slots t + length ops"
  using assms
proof (induction ops arbitrary: t)
  case Nil
  then show ?case by simp
next
  case (Cons op ops)
  show ?case
  proof (cases op)
    case (Register n a)
    obtain t1 where t1: "tset n a t = Some (fst (register ep limit (key n) a (abs t)), t1)" "inv t1"
        "slots t1 \<le> Suc (slots t)" "abs t1 = snd (register ep limit (key n) a (abs t))"
      using set_ok [of t n a] Cons.prems Register by auto
    obtain t2 where "table_ops tset (take_waiters tget taddrs tdel) ops t1 =
                Some (fst (map_ops key ep limit ops (abs t1)), t2)"
        "inv t2" "abs t2 = snd (map_ops key ep limit ops (abs t1))" "slots t2 \<le> slots t1 + length ops"
      using Cons.IH [of t1] Cons.prems t1 by auto
    with t1 Register show ?thesis by (auto split: prod.split)
  next
    case (Take n)
    obtain t1 where t1: "take_waiters tget taddrs tdel n t = Some (abs t (key n), t1)" "inv t1"
        "slots t1 = slots t" "abs t1 = (abs t)(key n := None)"
      using take_ok [of t n] Cons.prems Take by auto
    obtain t2 where "table_ops tset (take_waiters tget taddrs tdel) ops t1 =
                Some (fst (map_ops key ep limit ops (abs t1)), t2)"
        "inv t2" "abs t2 = snd (map_ops key ep limit ops (abs t1))" "slots t2 \<le> slots t1 + length ops"
      using Cons.IH [of t1] Cons.prems t1 by (auto simp del: fun_upd_apply)
    with t1 Take show ?thesis by (auto split: prod.split)
  qed
qed

end

section \<open>The map: what a data packet finds\<close>

text \<open>Endpoints that register one after the other for a name are all found, in that order.\<close>

lemma map_ops_register_all:
  assumes "m (key n) = Some as" "distinct (map ep (as @ bs))" "length as + length bs \<le> limit"
  shows "map_ops key ep limit (map (Register n) bs) m =
           (replicate (length bs) (Registered 1), m(key n := Some (as @ bs)))"
  using assms
proof (induction bs arbitrary: m as)
  case Nil
  then show ?case by (simp add: fun_upd_idem)
next
  case (Cons b bs)
  have "ep b \<notin> ep ` set as" using Cons.prems(2) by auto
  with Cons.prems have reg: "register ep limit (key n) b m = (1, m(key n := Some (as @ [b])))"
    by (simp add: register_def)
  show ?case
    using Cons.IH [of "m(key n := Some (as @ [b]))" "as @ [b]"] Cons.prems
    by (simp add: reg fun_upd_same del: fun_upd_apply)
qed

lemma map_ops_append:
  "map_ops key ep limit (xs @ ys) m =
     (let (rs, m1) = map_ops key ep limit xs m; (rs', m2) = map_ops key ep limit ys m1
      in (rs @ rs', m2))"
proof (induction xs arbitrary: m)
  case Nil
  then show ?case by simp
next
  case (Cons op xs)
  show ?case by (cases op) (simp_all add: Cons.IH split: prod.split del: fun_upd_apply)
qed

text \<open>Operations on other names do not change what is registered for a name.\<close>

lemma map_ops_other:
  "k \<notin> (\<lambda>op. key (mop_name op)) ` set ops \<Longrightarrow> snd (map_ops key ep limit ops m) k = m k"
proof (induction ops arbitrary: m)
  case Nil
  then show ?case by simp
next
  case (Cons op ops)
  have "snd (register ep limit k' a m) k = m k" if "k \<noteq> k'" for k' a
    using that by (simp add: register_def split: option.split)
  with Cons show ?case
    by (cases op) (simp_all add: split_beta)
qed

end
