(* ===== verification/Nut_Proofs.thy ===== *)
theory Nut_Proofs
  imports Nut Name_Map
begin

text \<open>
  What the name table promises: it is a finite map from names (their last 1024 bytes) to the list
  of endpoints registered for the name, in the order they were registered, at most eight of them.
  The invariant of the table, the meaning of the two matching routines, the loops as searches for
  a first index, and for each operation the lemma that it implements the operation on the map.
\<close>

section \<open>The abstract view\<close>

definition endpoint :: "sockaddr_in \<Rightarrow> u32 \<times> u16" where
  "endpoint a = (sin_addr a, sin_port a)"

definition e_key :: "nut_entry \<Rightarrow> char list" where
  "e_key e = take (unat (name_len e)) (e_name e)"

definition e_addrs :: "nut_entry \<Rightarrow> sockaddr_in list" where
  "e_addrs e = take (unat (addr_num e)) (e_addr e)"

definition live_at :: "char list \<Rightarrow> nut_entry \<Rightarrow> bool" where
  "live_at k e \<longleftrightarrow> deleted e \<noteq> 1 \<and> e_key e = k"

definition used :: "nut \<Rightarrow> nut_entry list" where
  "used t = take (unat (entry_num t)) (entries t)"

definition look :: "nut_entry list \<Rightarrow> char list \<Rightarrow> sockaddr_in list option" where
  "look es k = map_option (\<lambda>i. e_addrs (es ! i)) (idx_of (live_at k) es)"

definition nut_abs :: "nut \<Rightarrow> char list \<Rightarrow> sockaddr_in list option" where
  "nut_abs t = look (used t)"

text \<open>The name an operation is about: a name longer than an entry counts by its last bytes.\<close>

definition nut_key :: "char list \<Rightarrow> int \<Rightarrow> char list" where
  "nut_key nm nlen = (case truncate_name nm nlen of (nm', nlen') \<Rightarrow> take (nat nlen') nm')"

definition name_ok :: "char list \<Rightarrow> int \<Rightarrow> bool" where
  "name_ok nm nlen \<longleftrightarrow> 0 \<le> nlen \<and> nlen \<le> int (length nm)"

section \<open>The invariant\<close>

definition entry_typed :: "nut_entry \<Rightarrow> bool" where
  "entry_typed e \<longleftrightarrow> length (e_name e) = 1024 \<and> length (e_addr e) = 8"

definition entry_ok :: "nut_entry \<Rightarrow> bool" where
  "entry_ok e \<longleftrightarrow> unat (name_len e) \<le> 1024 \<and> 1 \<le> unat (addr_num e) \<and> unat (addr_num e) \<le> 8
                \<and> distinct (map endpoint (e_addrs e))"

definition keys_distinct :: "nut_entry list \<Rightarrow> bool" where
  "keys_distinct es \<longleftrightarrow>
     (\<forall>i < length es. \<forall>j < length es.
        deleted (es ! i) \<noteq> 1 \<longrightarrow> deleted (es ! j) \<noteq> 1 \<longrightarrow> e_key (es ! i) = e_key (es ! j) \<longrightarrow> i = j)"

definition nut_inv :: "nut \<Rightarrow> bool" where
  "nut_inv t \<longleftrightarrow>
     length (entries t) = unat (table_cap t) \<and> 0 < unat (table_cap t) \<and> unat (table_cap t) < 2 ^ 31
     \<and> unat (entry_num t) \<le> unat (table_cap t)
     \<and> (\<forall>e \<in> set (entries t). entry_typed e)
     \<and> (\<forall>e \<in> set (used t). deleted e \<noteq> 1 \<longrightarrow> entry_ok e)
     \<and> keys_distinct (used t)"

text \<open>What C promises of \<open>malloc\<close>: memory of the size asked for, of any content, or \<open>NULL\<close>.\<close>

definition malloc_typed :: "malloc \<Rightarrow> bool" where
  "malloc_typed mal \<longleftrightarrow>
     (\<forall>n b. mal n = Some b \<longrightarrow> int (length b) = n \<and> (\<forall>e \<in> set b. entry_typed e))"

lemma sint_small: "unat (w :: u32) < 2 ^ 31 \<Longrightarrow> sint w = int (unat w)"
proof -
  assume "unat w < 2 ^ 31"
  then have "int (unat w) < 2 ^ 31" by (metis of_nat_less_iff of_nat_numeral of_nat_power)
  then have "uint w < 2 ^ 31" by (simp only: uint_nat)
  moreover have "- (2 ^ 31) \<le> uint w" by (rule order_trans [OF _ uint_ge_0]) simp
  ultimately show ?thesis by (simp add: sint_uint signed_take_bit_int_eq_self)
qed

lemma inv_facts:
  assumes "nut_inv t"
  shows "length (entries t) = unat (table_cap t)"
    and "length (used t) = unat (entry_num t)"
    and "sint (entry_num t) = int (length (used t))"
    and "sint (table_cap t) = int (length (entries t))"
    and "length (used t) \<le> length (entries t)"
    and "length (entries t) < 2 ^ 31"
    and "0 < length (entries t)"
    and "i < length (used t) \<Longrightarrow> used t ! i = entries t ! i"
  using assms by (auto simp: nut_inv_def used_def sint_small)

lemma inv_entry:
  assumes "nut_inv t" "i < length (used t)"
  shows "entry_typed (used t ! i)" "deleted (used t ! i) \<noteq> 1 \<Longrightarrow> entry_ok (used t ! i)"
  using assms inv_facts[OF assms(1)]
  by (metis less_le_trans nth_mem nut_inv_def)+

section \<open>Names\<close>

lemma nut_key_short: "nlen \<le> 1024 \<Longrightarrow> nut_key nm nlen = take (nat nlen) nm"
  by (simp add: nut_key_def truncate_name_def MAX_NAMELEN_def)

lemma nut_key_long:
  "nlen > 1024 \<Longrightarrow> nut_key nm nlen = take 1024 (drop (nat (nlen - 1024)) nm)"
  by (simp add: nut_key_def truncate_name_def MAX_NAMELEN_def)

lemma truncate_cases:
  assumes "name_ok nm nlen"
  obtains nm' n where "truncate_name nm nlen = (nm', int n)" "n \<le> 1024" "n \<le> length nm'"
    "nut_key nm nlen = take n nm'" "length (nut_key nm nlen) = n"
proof -
  obtain nm' l where tr: "truncate_name nm nlen = (nm', l)" by fastforce
  with assms have "0 \<le> l \<and> l \<le> 1024 \<and> l \<le> int (length nm')"
    by (auto simp: truncate_name_def MAX_NAMELEN_def name_ok_def split: if_splits)
  with tr show thesis
    by (intro that[of nm' "nat l"]) (auto simp: nut_key_def min_def)
qed

lemma namematch_loop_eq:
  assumes "n \<le> length nm" "n \<le> length (e_name e)"
  shows "namematch_loop e nm (int n - 1) = Some (if take n nm = take n (e_name e) then 1 else 0)"
  using assms
proof (induction n)
  case 0
  then show ?case by (subst namematch_loop.simps) simp
next
  case (Suc n)
  then show ?case
    by (subst namematch_loop.simps) (auto simp: take_Suc_conv_app_nth)
qed

lemma namematch_eq:
  assumes "name_ok nm nlen" "entry_typed e" "entry_ok e"
  shows "nut_entry_namematch e nm nlen = Some (if e_key e = nut_key nm nlen then 1 else 0)"
proof -
  obtain nm' n where tr: "truncate_name nm nlen = (nm', int n)" "n \<le> 1024" "n \<le> length nm'"
    "nut_key nm nlen = take n nm'" "length (nut_key nm nlen) = n"
    by (rule truncate_cases[OF assms(1)])
  have len: "length (e_key e) = unat (name_len e)"
    using assms by (simp add: e_key_def entry_typed_def entry_ok_def)
  show ?thesis
  proof (cases "n = unat (name_len e)")
    case True
    moreover have "namematch_loop e nm' (int n - 1) = Some (if take n nm' = take n (e_name e) then 1 else 0)"
      using tr assms by (intro namematch_loop_eq) (auto simp: entry_typed_def)
    ultimately show ?thesis
      using tr by (auto simp: nut_entry_namematch_def e_key_def)
  next
    case False
    moreover from False have "int n \<noteq> uint (name_len e)" by (metis nat_int unat_eq_nat_uint)
    ultimately show ?thesis
      using tr len by (auto simp: nut_entry_namematch_def)
  qed
qed

section \<open>Endpoints\<close>

lemma fdmatch_loop_eq:
  assumes "i \<le> unat (addr_num e)" "unat (addr_num e) \<le> length (e_addr e)"
  shows "fdmatch_loop e a (int i) =
           Some (if endpoint a \<in> endpoint ` set (drop i (e_addrs e)) then 1 else 0)"
  using assms
proof (induction "unat (addr_num e) - i" arbitrary: i)
  case 0
  then have "\<not> int i < uint (addr_num e)" using uint_nat [of "addr_num e"] by linarith
  with 0 show ?case by (subst fdmatch_loop.simps) (simp add: e_addrs_def)
next
  case (Suc d)
  then have i: "i < unat (addr_num e)" by simp
  then have "drop i (e_addrs e) = e_addr e ! i # drop (Suc i) (e_addrs e)"
    using Suc.prems by (simp add: e_addrs_def Cons_nth_drop_Suc[symmetric])
  moreover have "fdmatch_loop e a (int i + 1) =
      Some (if endpoint a \<in> endpoint ` set (drop (Suc i) (e_addrs e)) then 1 else 0)"
    using Suc.hyps(1)[of "Suc i"] Suc.hyps(2) Suc.prems i by (simp add: add.commute)
  moreover have "int i < uint (addr_num e)" using i uint_nat [of "addr_num e"] by linarith
  ultimately show ?case
    using Suc.prems i by (subst fdmatch_loop.simps) (auto simp: endpoint_def)
qed

lemma fdmatch_eq:
  assumes "entry_typed e" "entry_ok e"
  shows "nut_entry_fdmatch e a = Some (if endpoint a \<in> endpoint ` set (e_addrs e) then 1 else 0)"
  using fdmatch_loop_eq[of 0 e a] assms
  by (simp add: nut_entry_fdmatch_def entry_typed_def entry_ok_def)


section \<open>The scans\<close>

text \<open>What \<open>nut_set\<close> does at the live entry \<open>m\<close> of the name.\<close>

definition add_addr :: "sockaddr_in \<Rightarrow> nut_entry \<Rightarrow> nut_entry" where
  "add_addr a e = e\<lparr>e_addr := (e_addr e)[unat (addr_num e) := a], addr_num := addr_num e + 1\<rparr>"

definition set_hit :: "nut \<Rightarrow> nat \<Rightarrow> sockaddr_in \<Rightarrow> nut_scan" where
  "set_hit t m a =
     (let e = used t ! m in
      if endpoint a \<in> endpoint ` set (e_addrs e) then Returned 0 t
      else if length (e_addrs e) = 8 then Returned (-1) t
      else Returned 1 (t\<lparr>entries := (entries t)[m := add_addr a e]\<rparr>))"

text \<open>The variable \<open>first_deleted\<close>.\<close>

fun enc :: "nat option \<Rightarrow> int" where
  "enc None = -1"
| "enc (Some m) = int m"

lemma enc_minus_one [simp]: "enc x = -1 \<longleftrightarrow> x = None"
  by (cases x) auto

abbreviation is_deleted :: "nut_entry \<Rightarrow> bool" where
  "is_deleted e \<equiv> deleted e = 1"

lemma length_e_addrs: "entry_typed e \<Longrightarrow> entry_ok e \<Longrightarrow> length (e_addrs e) = unat (addr_num e)"
  by (simp add: e_addrs_def entry_typed_def entry_ok_def)

lemma set_hit_step:
  assumes "nut_inv t" "m < length (used t)" "deleted (used t ! m) \<noteq> 1"
  shows "(do {
            f \<leftarrow> nut_entry_fdmatch (used t ! m) a;
            if f > 0 then Some (Returned 0 t)
            else if uint (addr_num (used t ! m)) = MAX_ADDR_PERNAME then Some (Returned (-1) t)
            else do {
              as \<leftarrow> awrite (e_addr (used t ! m)) (uint (addr_num (used t ! m))) a;
              es \<leftarrow> awrite (entries t) (int m)
                      ((used t ! m)\<lparr>e_addr := as, addr_num := addr_num (used t ! m) + 1\<rparr>);
              Some (Returned 1 (t\<lparr>entries := es\<rparr>))
            }
          }) = Some (set_hit t m a)"
proof -
  let ?e = "used t ! m"
  have typed: "entry_typed ?e" and ok: "entry_ok ?e" using inv_entry assms by blast+
  have num: "uint (addr_num ?e) = int (unat (addr_num ?e))" by (simp only: uint_nat)
  have "length (e_addr ?e) = 8" "unat (addr_num ?e) \<le> 8"
    using typed ok by (auto simp: entry_typed_def entry_ok_def)
  then show ?thesis
    using typed ok assms inv_facts(5) [OF assms(1)]
    by (auto simp: fdmatch_eq set_hit_def length_e_addrs MAX_ADDR_PERNAME_def num add_addr_def Let_def
             simp del: of_nat_unat)
qed

lemma nut_set_loop_eq:
  assumes "nut_inv t" "name_ok nm nlen" "i \<le> length (used t)"
    "idx_of (live_at (nut_key nm nlen)) (take i (used t)) = None"
  shows "nut_set_loop t nm nlen a (int i) (enc (idx_of is_deleted (take i (used t)))) =
     Some (case idx_of (live_at (nut_key nm nlen)) (used t) of
             Some m \<Rightarrow> set_hit t m a
           | None \<Rightarrow> Ran_out (int (length (used t))) (enc (idx_of is_deleted (used t))))"
  using assms(3,4)
proof (induction "length (used t) - i" arbitrary: i)
  case 0
  with inv_facts(3) [OF assms(1)] show ?case by (subst nut_set_loop.simps) simp
next
  case (Suc d)
  let ?k = "nut_key nm nlen" and ?e = "used t ! i"
  have i: "i < length (used t)" using Suc.hyps(2) by simp
  have read: "aread (entries t) (int i) = Some ?e"
    using i inv_facts [OF assms(1)] by simp
  have lt: "int i < sint (entry_num t)" using i inv_facts(3) [OF assms(1)] by simp
  note IH = Suc.hyps(1) [of "Suc i"]
  show ?case
  proof (cases "is_deleted ?e")
    case True
    then have "idx_of (live_at ?k) (take (Suc i) (used t)) = None"
      using Suc.prems i by (simp add: idx_of_take_Suc live_at_def)
    moreover have "enc (idx_of is_deleted (take (Suc i) (used t))) =
       (if enc (idx_of is_deleted (take i (used t))) = -1 then int i
        else enc (idx_of is_deleted (take i (used t))))"
      using True i by (simp add: idx_of_take_Suc split: option.split)
    ultimately show ?thesis
      using True IH Suc.hyps(2) i read lt
      by (subst nut_set_loop.simps) (simp add: add.commute)
  next
    case False
    note ok = inv_entry(1) [OF assms(1) i] inv_entry(2) [OF assms(1) i False]
    show ?thesis
    proof (cases "e_key ?e = ?k")
      case True
      then have "idx_of (live_at ?k) (take (Suc i) (used t)) = Some i"
        using Suc.prems i False by (simp add: idx_of_take_Suc live_at_def)
      then have "idx_of (live_at ?k) (used t) = Some i"
        using idx_of_append [of "live_at ?k" "take (Suc i) (used t)" "drop (Suc i) (used t)"] by simp
      with True False set_hit_step [OF assms(1) i False] show ?thesis
        by (subst nut_set_loop.simps)
           (simp add: read lt namematch_eq [OF assms(2) ok])
    next
      case ne: False
      then have "idx_of (live_at ?k) (take (Suc i) (used t)) = None"
        using Suc.prems i by (simp add: idx_of_take_Suc live_at_def)
      moreover have "idx_of is_deleted (take (Suc i) (used t)) = idx_of is_deleted (take i (used t))"
        using False i by (simp add: idx_of_take_Suc split: option.split)
      ultimately show ?thesis
        using ne False IH Suc.hyps(2) i
        by (subst nut_set_loop.simps)
           (simp add: read lt namematch_eq [OF assms(2) ok] add.commute)
    qed
  qed
qed

lemma nut_get_loop_eq:
  assumes "nut_inv t" "name_ok nm nlen" "i \<le> length (used t)"
    "idx_of (live_at (nut_key nm nlen)) (take i (used t)) = None"
  shows "nut_get_loop t nm nlen (int i) =
     Some (map_option int (idx_of (live_at (nut_key nm nlen)) (used t)))"
  using assms(3,4)
proof (induction "length (used t) - i" arbitrary: i)
  case 0
  with inv_facts(3) [OF assms(1)] show ?case by (subst nut_get_loop.simps) simp
next
  case (Suc d)
  let ?k = "nut_key nm nlen" and ?e = "used t ! i"
  have i: "i < length (used t)" using Suc.hyps(2) by simp
  have read: "aread (entries t) (int i) = Some ?e"
    using i inv_facts [OF assms(1)] by simp
  have lt: "int i < sint (entry_num t)" using i inv_facts(3) [OF assms(1)] by simp
  note IH = Suc.hyps(1) [of "Suc i"]
  show ?case
  proof (cases "live_at ?k ?e")
    case True
    then have "idx_of (live_at ?k) (take (Suc i) (used t)) = Some i"
      using Suc.prems i by (simp add: idx_of_take_Suc)
    then have "idx_of (live_at ?k) (used t) = Some i"
      using idx_of_append [of "live_at ?k" "take (Suc i) (used t)" "drop (Suc i) (used t)"] by simp
    with True inv_entry [OF assms(1) i] show ?thesis
      by (subst nut_get_loop.simps) (simp add: read lt namematch_eq [OF assms(2)] live_at_def)
  next
    case False
    then have "idx_of (live_at ?k) (take (Suc i) (used t)) = None"
      using Suc.prems i by (simp add: idx_of_take_Suc)
    with False IH Suc.hyps(2) i inv_entry [OF assms(1) i] show ?thesis
      by (subst nut_get_loop.simps)
         (auto simp: read lt namematch_eq [OF assms(2)] live_at_def add.commute)
  qed
qed

lemma nut_get_eq:
  "nut_inv t \<Longrightarrow> name_ok nm nlen \<Longrightarrow>
   nut_get t nm nlen = Some (map_option int (idx_of (live_at (nut_key nm nlen)) (used t)))"
  using nut_get_loop_eq [of t nm nlen 0] by (simp add: nut_get_def)


section \<open>Changing one entry\<close>

lemma keys_distinct_idx:
  assumes "keys_distinct es" "i < length es" "live_at k (es ! i)"
  shows "idx_of (live_at k) es = Some i"
  using assms by (intro idx_of_unique) (auto simp: keys_distinct_def live_at_def)

lemma look_at:
  "keys_distinct es \<Longrightarrow> i < length es \<Longrightarrow> live_at k (es ! i) \<Longrightarrow> look es k = Some (e_addrs (es ! i))"
  by (simp add: look_def keys_distinct_idx)

lemma look_None: "look es k = None \<longleftrightarrow> (\<forall>i < length es. \<not> live_at k (es ! i))"
  by (auto simp: look_def idx_of_None_iff all_set_conv_all_nth)

text \<open>\<open>clear_of es m e\<close>: no live entry other than number \<open>m\<close> has the name of \<open>e\<close>.\<close>

definition clear_of :: "nut_entry list \<Rightarrow> nat \<Rightarrow> nut_entry \<Rightarrow> bool" where
  "clear_of es m e \<longleftrightarrow> (\<forall>j < length es. j \<noteq> m \<longrightarrow> \<not> live_at (e_key e) (es ! j))"

lemma keys_distinct_put:
  assumes "keys_distinct es" "deleted e \<noteq> 1 \<Longrightarrow> clear_of es m e"
  shows "keys_distinct (es[m := e])"
  unfolding keys_distinct_def
proof (intro allI impI)
  fix i j
  assume "i < length (es[m := e])" "j < length (es[m := e])" "deleted (es[m := e] ! i) \<noteq> 1"
    "deleted (es[m := e] ! j) \<noteq> 1" "e_key (es[m := e] ! i) = e_key (es[m := e] ! j)"
  with assms show "i = j"
    by (cases "i = m"; cases "j = m") (auto simp: keys_distinct_def clear_of_def live_at_def)
qed

lemma look_other:
  assumes "keys_distinct es" "m < length es" "\<not> live_at k e" "\<not> live_at k (es ! m)"
  shows "look (es[m := e]) k = look es k"
proof -
  have "idx_of (live_at k) (es[m := e]) = idx_of (live_at k) es"
    using assms by (intro idx_of_update) simp
  moreover have "i \<noteq> m" if "idx_of (live_at k) es = Some i" for i
    using that assms by (auto simp: idx_of_Some_iff)
  ultimately show ?thesis
    by (cases "idx_of (live_at k) es") (auto simp: look_def)
qed

lemma look_put:
  assumes "keys_distinct es" "m < length es" "deleted e \<noteq> 1" "clear_of es m e"
    "deleted (es ! m) = 1 \<or> e_key (es ! m) = e_key e"
  shows "look (es[m := e]) = (look es)(e_key e := Some (e_addrs e))"
proof
  fix k
  show "look (es[m := e]) k = ((look es)(e_key e := Some (e_addrs e))) k"
  proof (cases "k = e_key e")
    case True
    then show ?thesis
      using look_at [of "es[m := e]" m "e_key e"] keys_distinct_put [OF assms(1,4)] assms
      by (simp add: live_at_def)
  next
    case False
    then show ?thesis
      using look_other [OF assms(1,2), of k e] assms(5) by (auto simp: live_at_def)
  qed
qed

lemma look_delete:
  assumes "keys_distinct es" "m < length es" "deleted (es ! m) \<noteq> 1" "deleted e = 1"
  shows "look (es[m := e]) = (look es)(e_key (es ! m) := None)"
proof
  fix k
  show "look (es[m := e]) k = ((look es)(e_key (es ! m) := None)) k"
  proof (cases "k = e_key (es ! m)")
    case True
    have "\<not> live_at k (es[m := e] ! j)" if "j < length es" for j
      using assms that True
      by (cases "j = m") (auto simp: live_at_def keys_distinct_def nth_list_update)
    with True show ?thesis by (simp add: look_None)
  next
    case False
    then show ?thesis
      using look_other [OF assms(1,2), of k e] assms by (auto simp: live_at_def)
  qed
qed

lemma keys_distinct_append:
  assumes "keys_distinct es" "look es (e_key e) = None"
  shows "keys_distinct (es @ [e])"
  unfolding keys_distinct_def
proof (intro allI impI)
  fix i j
  assume "i < length (es @ [e])" "j < length (es @ [e])" "deleted ((es @ [e]) ! i) \<noteq> 1"
    "deleted ((es @ [e]) ! j) \<noteq> 1" "e_key ((es @ [e]) ! i) = e_key ((es @ [e]) ! j)"
  with assms show "i = j"
    by (cases "i < length es"; cases "j < length es")
       (auto simp: keys_distinct_def look_None live_at_def nth_append)
qed

lemma look_append:
  assumes "keys_distinct es" "look es (e_key e) = None" "deleted e \<noteq> 1"
  shows "look (es @ [e]) = (look es)(e_key e := Some (e_addrs e))"
proof
  fix k
  show "look (es @ [e]) k = ((look es)(e_key e := Some (e_addrs e))) k"
  proof (cases "k = e_key e")
    case True
    with assms show ?thesis
      by (auto simp: look_def idx_of_append live_at_def)
  next
    case False
    then have "\<not> live_at k e" by (auto simp: live_at_def)
    then show ?thesis
      using False by (auto simp: look_def idx_of_append nth_append dest: idx_of_SomeD split: option.split)
  qed
qed


section \<open>Writing an entry of the table\<close>

lemma used_put:
  "m < unat (entry_num t) \<Longrightarrow> used (t\<lparr>entries := (entries t)[m := e]\<rparr>) = (used t)[m := e]"
  by (simp add: used_def take_update_swap)

lemma nut_inv_put:
  assumes "nut_inv t" "m < length (used t)" "entry_typed e" "deleted e \<noteq> 1 \<Longrightarrow> entry_ok e"
    "deleted e \<noteq> 1 \<Longrightarrow> clear_of (used t) m e"
  shows "nut_inv (t\<lparr>entries := (entries t)[m := e]\<rparr>)"
proof -
  have "used (t\<lparr>entries := (entries t)[m := e]\<rparr>) = (used t)[m := e]"
    using assms(2) inv_facts(2) [OF assms(1)] by (intro used_put) simp
  then show ?thesis
    using assms keys_distinct_put [of "used t" e m]
    by (auto simp: nut_inv_def dest!: set_update_subset_insert [THEN subsetD])
qed

text \<open>
  \<open>keeps_live t t'\<close>: the live entries of \<open>t\<close> are in \<open>t'\<close> at the same index, live, under the same name
  and with at least their endpoints.
\<close>

definition extends :: "nut_entry \<Rightarrow> nut_entry \<Rightarrow> bool" where
  "extends e e' \<longleftrightarrow> deleted e' \<noteq> 1 \<and> e_key e' = e_key e \<and> (\<exists>as. e_addrs e' = e_addrs e @ as)"

definition keeps_live :: "nut \<Rightarrow> nut \<Rightarrow> bool" where
  "keeps_live t t' \<longleftrightarrow> (\<forall>i < length (used t). deleted (used t ! i) \<noteq> 1 \<longrightarrow>
     i < length (used t') \<and> extends (used t ! i) (used t' ! i))"

lemma extends_refl [simp]: "deleted e \<noteq> 1 \<Longrightarrow> extends e e"
  by (simp add: extends_def)

lemma keeps_live_refl [simp]: "keeps_live t t"
  by (simp add: keeps_live_def)

lemma keeps_live_put:
  assumes "nut_inv t" "m < length (used t)" "deleted (used t ! m) = 1 \<or> extends (used t ! m) e"
  shows "keeps_live t (t\<lparr>entries := (entries t)[m := e]\<rparr>)"
  using assms inv_facts(2) [OF assms(1)]
  by (auto simp: keeps_live_def used_put nth_list_update)

text \<open>\<open>nut_del\<close> on a live entry.\<close>

lemma nut_del_eq:
  assumes "nut_inv t" "m < length (used t)" "deleted (used t ! m) \<noteq> 1"
  shows "\<exists>t'. nut_del (int m) t = Some t' \<and> nut_inv t' \<and> entry_num t' = entry_num t
            \<and> nut_abs t' = (nut_abs t)(e_key (used t ! m) := None)
            \<and> table_cap t' = table_cap t \<and> map is_deleted (used t') = (map is_deleted (used t))[m := True]"
proof -
  let ?e = "(used t ! m)\<lparr>deleted := 1\<rparr>"
  have m: "m < length (entries t)" "used t ! m = entries t ! m" "m < unat (entry_num t)"
    using assms inv_facts [OF assms(1)] by auto
  have "entry_typed ?e" using inv_entry(1) [OF assms(1,2)] by (simp add: entry_typed_def)
  then have "nut_inv (t\<lparr>entries := (entries t)[m := ?e]\<rparr>)"
    using nut_inv_put [OF assms(1,2), of ?e] by simp
  moreover have "nut_abs (t\<lparr>entries := (entries t)[m := ?e]\<rparr>)
      = (nut_abs t)(e_key (used t ! m) := None)"
    using look_delete [OF _ assms(2,3), of ?e] assms(1) m
    by (simp add: nut_abs_def used_put nut_inv_def)
  ultimately show ?thesis using m by (simp add: nut_del_def used_put map_update)
qed

section \<open>Growing\<close>

lemma target_cap:
  assumes "0 < unat (c :: u32)" "unat c < 2 ^ 30"
  shows "\<exists>n. (if c < 256 then sint (c * 2) else sint (c + c div 4)) = int n
           \<and> unat c < n \<and> n < 2 ^ 31 \<and> unat (word_of_int (int n) :: u32) = n"
proof -
  let ?w = "if c < 256 then c * 2 else c + c div 4"
  have double: "unat (c * 2) = unat c * 2"
    using assms by (subst unat_mult_lem [THEN iffD1]) auto
  have quarter: "unat (c div 4) = unat c div 4" by (simp add: unat_div)
  have plus: "unat (c + c div 4) = unat c + unat c div 4"
    using assms quarter by (subst unat_add_lem [THEN iffD1]) auto
  have small: "c < 256 \<longleftrightarrow> unat c < 256" by (simp add: word_less_nat_alt)
  have w: "unat c < unat ?w \<and> unat ?w < 2 ^ 31"
    using assms double plus small by auto
  then have "sint ?w = int (unat ?w)" by (intro sint_small) simp
  moreover have "unat (word_of_int (int (unat ?w)) :: u32) = unat ?w" by simp
  ultimately show ?thesis using w by (intro exI [of _ "unat ?w"]) auto
qed

lemma nut_grow_eq:
  assumes "nut_inv t" "malloc_typed mal" "\<forall>n > 0. mal n \<noteq> None" "unat (table_cap t) < 2 ^ 30"
  shows "\<exists>t'. nut_grow mal t = Some t' \<and> nut_inv t' \<and> used t' = used t
            \<and> entry_num t' = entry_num t \<and> unat (table_cap t) < unat (table_cap t')
            \<and> table_cap t' = (if table_cap t < 256 then table_cap t * 2 else table_cap t + table_cap t div 4)"
proof -
  obtain n where n: "(if table_cap t < 256 then sint (table_cap t * 2)
        else sint (table_cap t + table_cap t div 4)) = int n"
      "unat (table_cap t) < n" "n < 2 ^ 31" "unat (word_of_int (int n) :: u32) = n"
    using target_cap [OF _ assms(4)] assms(1) by (auto simp: nut_inv_def)
  obtain b where b: "mal (int n) = Some b" "length b = n" "\<forall>e \<in> set b. entry_typed e"
    using assms(2,3) n(2) unfolding malloc_typed_def
    by (metis nat_int not_None_eq of_nat_0_less_iff of_nat_eq_iff zero_less_iff_neq_zero not_less_zero)
  let ?m = "unat (entry_num t)"
  let ?b = "take ?m (entries t) @ drop ?m b"
  let ?t = "t\<lparr>entries := ?b, table_cap := word_of_int (int n)\<rparr>"
  have le: "?m \<le> length (entries t)" "?m \<le> length b"
    using inv_facts(2,5) [OF assms(1)] inv_facts(1) [OF assms(1)] n b by auto
  have "amemcpy b 0 (entries t) (uint (entry_num t)) = Some ?b"
    using amemcpy_in [OF le] by simp
  with n b have "nut_grow mal t = Some ?t" by (simp add: nut_grow_def del: of_nat_unat)
  moreover have "used ?t = used t" using le by (simp add: used_def)
  moreover have "nut_inv ?t"
    using assms(1) \<open>used ?t = used t\<close> n b le
    by (auto simp: nut_inv_def dest: in_set_takeD in_set_dropD)
  moreover have "word_of_int (int n) = (if table_cap t < 256 then table_cap t * 2 else table_cap t + table_cap t div 4)"
    unfolding n(1) [symmetric] by simp
  ultimately show ?thesis using n(2,4) by auto
qed


section \<open>\<open>nut_set\<close>\<close>

text \<open>The body of \<open>nut_set\<close> after its loop: the entry for a name that is not in the table.\<close>

definition new_entry :: "char list \<Rightarrow> int \<Rightarrow> sockaddr_in \<Rightarrow> int \<Rightarrow> nut \<Rightarrow> (int \<times> nut) option" where
  "new_entry nm nlen a slot table = do {
     entry \<leftarrow> aread (entries table) slot;
     as \<leftarrow> awrite (e_addr entry) 0 a;
     let (nm, nlen) = truncate_name nm nlen;
     nm' \<leftarrow> amemcpy (e_name entry) 0 nm nlen;
     es \<leftarrow> awrite (entries table) slot
             (entry\<lparr>deleted := 0, addr_num := 1, e_addr := as,
                    name_len := word_of_int nlen, e_name := nm'\<rparr>);
     Some (1, table\<lparr>entries := es\<rparr>)
   }"

lemma new_entry_eq:
  assumes "name_ok nm nlen" "m < length (entries t)" "entry_typed (entries t ! m)"
  shows "\<exists>e. new_entry nm nlen a (int m) t = Some (1, t\<lparr>entries := (entries t)[m := e]\<rparr>)
           \<and> entry_typed e \<and> entry_ok e \<and> deleted e \<noteq> 1
           \<and> e_key e = nut_key nm nlen \<and> e_addrs e = [a]"
proof -
  obtain nm' n where tr: "truncate_name nm nlen = (nm', int n)" "n \<le> 1024" "n \<le> length nm'"
    "nut_key nm nlen = take n nm'" "length (nut_key nm nlen) = n"
    by (rule truncate_cases [OF assms(1)])
  let ?o = "entries t ! m"
  let ?e = "?o\<lparr>deleted := 0, addr_num := 1, e_addr := (e_addr ?o)[0 := a],
               name_len := word_of_int (int n), e_name := take n nm' @ drop n (e_name ?o)\<rparr>"
  have len: "length (e_name ?o) = 1024" "length (e_addr ?o) = 8"
    using assms(3) by (auto simp: entry_typed_def)
  have nl: "unat (word_of_int (int n) :: u16) = n"
    using tr(2) by (simp add: unsigned_of_nat take_bit_nat_eq_self)
  have addrs: "e_addrs ?e = [a]"
    using len by (cases "e_addr ?o") (auto simp: e_addrs_def)
  have "amemcpy (e_name ?o) 0 nm' (int n) = Some (take n nm' @ drop n (e_name ?o))"
    using tr len by (intro amemcpy_in) auto
  moreover have "awrite (e_addr ?o) 0 a = Some ((e_addr ?o)[0 := a])"
    using len by (simp add: awrite_def)
  ultimately have "new_entry nm nlen a (int m) t = Some (1, t\<lparr>entries := (entries t)[m := ?e]\<rparr>)"
    using tr(1) assms(2) by (simp add: new_entry_def)
  moreover have "entry_typed ?e" using len tr by (auto simp: entry_typed_def)
  moreover have "e_key ?e = nut_key nm nlen" using tr nl by (simp add: e_key_def)
  moreover have "entry_ok ?e" using tr(2) nl addrs by (auto simp: entry_ok_def)
  ultimately show ?thesis using addrs by (intro exI [of _ ?e]) simp
qed

lemma nut_set_unfold:
  "nut_set mal nm nlen a t = do {
     r \<leftarrow> nut_set_loop t nm nlen a 0 (-1);
     case r of
       Returned ret t \<Rightarrow> Some (ret, t)
     | Ran_out i fd \<Rightarrow>
         if fd = -1
         then do {
           t \<leftarrow> (if i = sint (table_cap t) then nut_grow mal t else Some t);
           new_entry nm nlen a i (t\<lparr>entry_num := entry_num t + 1\<rparr>)
         }
         else new_entry nm nlen a fd t
   }"
  unfolding nut_set_def new_entry_def
  by (cases "nut_set_loop t nm nlen a 0 (-1)") (auto split: nut_scan.split)

text \<open>The name is in the table.\<close>

abbreviation nut_register where "nut_register \<equiv> register endpoint 8"

lemma add_addr_ok:
  assumes "entry_typed e" "entry_ok e" "endpoint a \<notin> endpoint ` set (e_addrs e)" "length (e_addrs e) \<noteq> 8"
  shows "entry_typed (add_addr a e)" "entry_ok (add_addr a e)" "e_addrs (add_addr a e) = e_addrs e @ [a]"
    "e_key (add_addr a e) = e_key e" "deleted (add_addr a e) = deleted e"
proof -
  have len: "length (e_addr e) = 8" using assms by (simp add: entry_typed_def)
  have lt: "unat (addr_num e) < 8"
    using assms length_e_addrs [OF assms(1,2)] by (simp add: entry_ok_def)
  then have suc: "unat (addr_num e + 1) = Suc (unat (addr_num e))"
    by (subst unat_add_lem [THEN iffD1]) auto
  show addrs: "e_addrs (add_addr a e) = e_addrs e @ [a]"
    using lt len suc by (simp add: e_addrs_def add_addr_def take_Suc_conv_app_nth)
  then show "entry_ok (add_addr a e)"
    using assms lt suc by (simp add: entry_ok_def add_addr_def)
  show "entry_typed (add_addr a e)" "e_key (add_addr a e) = e_key e"
    "deleted (add_addr a e) = deleted e"
    using assms by (auto simp: entry_typed_def add_addr_def e_key_def)
qed

lemma nut_set_present:
  assumes "nut_inv t" "name_ok nm nlen" "nut_abs t (nut_key nm nlen) = Some as"
  shows "\<exists>t'. nut_set mal nm nlen a t
           = Some (fst (nut_register (nut_key nm nlen) a (nut_abs t)), t') \<and> nut_inv t'
         \<and> entry_num t' = entry_num t \<and> keeps_live t t'
         \<and> nut_abs t' = snd (nut_register (nut_key nm nlen) a (nut_abs t))
         \<and> table_cap t' = table_cap t \<and> map is_deleted (used t') = map is_deleted (used t)"
proof -
  let ?k = "nut_key nm nlen"
  obtain m where idx: "idx_of (live_at ?k) (used t) = Some m" and as: "as = e_addrs (used t ! m)"
    using assms(3) by (auto simp: nut_abs_def look_def)
  then have m: "m < length (used t)" and live: "live_at ?k (used t ! m)"
    using idx_of_SomeD by blast+
  let ?e = "used t ! m"
  have del: "deleted ?e \<noteq> 1" and key: "e_key ?e = ?k" using live by (auto simp: live_at_def)
  have kd: "keys_distinct (used t)" using assms(1) by (simp add: nut_inv_def)
  have run: "nut_set mal nm nlen a t =
      (case set_hit t m a of Returned ret t \<Rightarrow> Some (ret, t) | Ran_out _ _ \<Rightarrow> None)"
    using nut_set_loop_eq [OF assms(1,2), of 0 a] idx
    by (simp add: nut_set_unfold set_hit_def Let_def)
  show ?thesis
  proof (cases "endpoint a \<in> endpoint ` set as \<or> length as = 8")
    case True
    then show ?thesis
      using run assms(1,3) as by (auto simp: set_hit_def register_def Let_def)
  next
    case False
    let ?e' = "add_addr a ?e"
    let ?t = "t\<lparr>entries := (entries t)[m := ?e']\<rparr>"
    note ok = add_addr_ok [OF inv_entry(1) [OF assms(1) m] inv_entry(2) [OF assms(1) m del]]
    have ok: "entry_typed ?e'" "entry_ok ?e'" "e_addrs ?e' = as @ [a]" "e_key ?e' = ?k" "deleted ?e' \<noteq> 1"
      using ok [of a] False as key del by auto
    have clear: "clear_of (used t) m ?e'"
      using kd m live ok(4) by (auto simp: clear_of_def keys_distinct_def live_at_def)
    have "nut_abs ?t = (nut_abs t)(?k := Some (as @ [a]))"
      using look_put [OF kd m ok(5) clear] ok m key inv_facts(2) [OF assms(1)]
      by (simp add: nut_abs_def used_put)
    moreover have "nut_inv ?t" using nut_inv_put [OF assms(1) m] ok clear by blast
    moreover have "keeps_live t ?t"
      using keeps_live_put [OF assms(1) m] ok as key by (auto simp: extends_def)
    moreover have "map is_deleted (used ?t) = map is_deleted (used t)"
      using m ok(5) del inv_facts(2) [OF assms(1)] by (simp add: used_put map_update list_update_same_conv)
    ultimately show ?thesis
      using run False assms(3) as by (auto simp: set_hit_def register_def Let_def)
  qed
qed

text \<open>It is not: a deleted entry is taken again, or the table gets one entry more.\<close>

lemma nut_set_loop_absent:
  assumes "nut_inv t" "name_ok nm nlen" "nut_abs t (nut_key nm nlen) = None"
  shows "nut_set_loop t nm nlen a 0 (-1) =
           Some (Ran_out (int (length (used t))) (enc (idx_of is_deleted (used t))))"
proof -
  have "idx_of (live_at (nut_key nm nlen)) (used t) = None"
    using assms(3) by (simp add: nut_abs_def look_def)
  then show ?thesis using nut_set_loop_eq [OF assms(1,2), of 0 a] by simp
qed

lemma nut_set_reuse:
  assumes "nut_inv t" "name_ok nm nlen" "nut_abs t (nut_key nm nlen) = None"
    "idx_of is_deleted (used t) = Some m"
  shows "\<exists>t'. nut_set mal nm nlen a t = Some (1, t') \<and> nut_inv t' \<and> entry_num t' = entry_num t
         \<and> table_cap t' = table_cap t \<and> keeps_live t t'
         \<and> nut_abs t' = (nut_abs t)(nut_key nm nlen := Some [a])
         \<and> map is_deleted (used t') = (map is_deleted (used t))[m := False]"
proof -
  have m: "m < length (used t)" "deleted (used t ! m) = 1" using idx_of_SomeD [OF assms(4)] by auto
  have same: "used t ! m = entries t ! m" and lt: "m < length (entries t)"
    using inv_facts [OF assms(1)] m by auto
  obtain e where e: "new_entry nm nlen a (int m) t = Some (1, t\<lparr>entries := (entries t)[m := e]\<rparr>)"
      "entry_typed e" "entry_ok e" "deleted e \<noteq> 1" "e_key e = nut_key nm nlen" "e_addrs e = [a]"
    using new_entry_eq [OF assms(2) lt] inv_entry(1) [OF assms(1) m(1)] same by auto
  have clear: "clear_of (used t) m e"
    using assms(3) e(5) by (auto simp: clear_of_def nut_abs_def look_None)
  have "nut_set mal nm nlen a t = Some (1, t\<lparr>entries := (entries t)[m := e]\<rparr>)"
    using nut_set_loop_absent [OF assms(1-3), of a] assms(4) e(1) by (simp add: nut_set_unfold)
  moreover have "nut_inv (t\<lparr>entries := (entries t)[m := e]\<rparr>)"
    using nut_inv_put [OF assms(1) m(1)] e clear by blast
  moreover have "nut_abs (t\<lparr>entries := (entries t)[m := e]\<rparr>) = (nut_abs t)(nut_key nm nlen := Some [a])"
    using look_put [of "used t" m e] assms(1) m e clear inv_facts(2) [OF assms(1)]
    by (simp add: nut_abs_def used_put nut_inv_def)
  moreover have "keeps_live t (t\<lparr>entries := (entries t)[m := e]\<rparr>)"
    using keeps_live_put [OF assms(1) m(1)] m(2) by blast
  moreover have "map is_deleted (used (t\<lparr>entries := (entries t)[m := e]\<rparr>)) = (map is_deleted (used t))[m := False]"
    using m(1) e(4) inv_facts(2) [OF assms(1)] by (simp add: used_put map_update)
  ultimately show ?thesis by simp
qed

lemma new_slot_ok:
  assumes "nut_inv t" "name_ok nm nlen" "nut_abs t (nut_key nm nlen) = None"
    "unat (entry_num t) < unat (table_cap t)"
  shows "\<exists>t'. new_entry nm nlen a (int (length (used t))) (t\<lparr>entry_num := entry_num t + 1\<rparr>) = Some (1, t')
         \<and> nut_inv t' \<and> entry_num t' = entry_num t + 1 \<and> table_cap t' = table_cap t
         \<and> (\<exists>e. used t' = used t @ [e] \<and> deleted e \<noteq> 1)
         \<and> nut_abs t' = (nut_abs t)(nut_key nm nlen := Some [a])"
proof -
  let ?n = "length (used t)" and ?t = "t\<lparr>entry_num := entry_num t + 1\<rparr>"
  have lt: "?n < length (entries t)" using assms(4) inv_facts [OF assms(1)] by simp
  have suc: "unat (entry_num t + 1) = Suc ?n"
    using assms(4) inv_facts [OF assms(1)] by (subst unat_add_lem [THEN iffD1]) auto
  have typed: "entry_typed (entries t ! ?n)" using assms(1) lt by (simp add: nut_inv_def)
  obtain e where e: "new_entry nm nlen a (int ?n) ?t = Some (1, ?t\<lparr>entries := (entries t)[?n := e]\<rparr>)"
      "entry_typed e" "entry_ok e" "deleted e \<noteq> 1" "e_key e = nut_key nm nlen" "e_addrs e = [a]"
    using new_entry_eq [OF assms(2), of ?n ?t a] lt typed by auto
  let ?t' = "?t\<lparr>entries := (entries t)[?n := e]\<rparr>"
  have used: "used ?t' = used t @ [e]"
    using suc lt inv_facts(2) [OF assms(1)]
    by (simp add: used_def take_Suc_conv_app_nth)
  have absent: "look (used t) (e_key e) = None" using assms(3) e(5) by (simp add: nut_abs_def)
  have "nut_inv ?t'"
    using assms(1) used e suc lt keys_distinct_append [OF _ absent]
    by (auto simp: nut_inv_def dest!: set_update_subset_insert [THEN subsetD])
  moreover have "nut_abs ?t' = (nut_abs t)(nut_key nm nlen := Some [a])"
    using look_append [OF _ absent e(4)] assms(1) e used by (simp add: nut_abs_def nut_inv_def)
  ultimately show ?thesis using e(1,4) used by auto
qed

lemma nut_set_append:
  assumes "nut_inv t" "name_ok nm nlen" "nut_abs t (nut_key nm nlen) = None"
    "idx_of is_deleted (used t) = None" "malloc_typed mal" "\<forall>n > 0. mal n \<noteq> None"
    "unat (entry_num t) < 2 ^ 30"
  shows "\<exists>t'. nut_set mal nm nlen a t = Some (1, t') \<and> nut_inv t' \<and> entry_num t' = entry_num t + 1
         \<and> keeps_live t t' \<and> nut_abs t' = (nut_abs t)(nut_key nm nlen := Some [a])
         \<and> map is_deleted (used t') = map is_deleted (used t) @ [False]
         \<and> table_cap t' = (if entry_num t \<noteq> table_cap t then table_cap t
              else if table_cap t < 256 then table_cap t * 2 else table_cap t + table_cap t div 4)"
proof -
  let ?n = "int (length (used t))"
  have n: "?n = sint (table_cap t) \<longleftrightarrow> unat (entry_num t) = unat (table_cap t)"
    by (simp only: inv_facts(1,2,4) [OF assms(1)] of_nat_eq_iff)
  obtain t1 where t1: "(if ?n = sint (table_cap t) then nut_grow mal t else Some t) = Some t1"
      "nut_inv t1" "used t1 = used t" "entry_num t1 = entry_num t"
      "unat (entry_num t1) < unat (table_cap t1)"
      "table_cap t1 = (if entry_num t \<noteq> table_cap t then table_cap t
              else if table_cap t < 256 then table_cap t * 2 else table_cap t + table_cap t div 4)"
  proof (cases "?n = sint (table_cap t)")
    case True
    then show ?thesis
      using nut_grow_eq [OF assms(1,5,6)] n assms(7) that by (auto simp: word_unat_eq_iff)
  next
    case False
    then show ?thesis
      using n assms(1) that [of t] by (auto simp: nut_inv_def word_unat_eq_iff)
  qed
  have "nut_abs t1 (nut_key nm nlen) = None" using assms(3) t1(3) by (simp add: nut_abs_def)
  from new_slot_ok [OF t1(2) assms(2) this t1(5), of a] t1 nut_set_loop_absent [OF assms(1-3), of a] assms(4)
  show ?thesis by (auto simp: nut_set_unfold nut_abs_def keeps_live_def nth_append)
qed

lemma nut_set_refines_register:
  assumes "nut_inv t" "name_ok nm nlen" "malloc_typed mal" "\<forall>n > 0. mal n \<noteq> None"
    "unat (entry_num t) < 2 ^ 30"
  shows "\<exists>t'. nut_set mal nm nlen a t
           = Some (fst (nut_register (nut_key nm nlen) a (nut_abs t)), t') \<and> nut_inv t'
         \<and> unat (entry_num t') \<le> Suc (unat (entry_num t)) \<and> keeps_live t t'
         \<and> nut_abs t' = snd (nut_register (nut_key nm nlen) a (nut_abs t))"
proof (cases "nut_abs t (nut_key nm nlen)")
  case (Some as)
  from nut_set_present [OF assms(1,2) this] show ?thesis by fastforce
next
  case None
  have suc: "unat (entry_num t + 1) \<le> Suc (unat (entry_num t))"
    using unat_plus_simple [of "entry_num t" 1] by (simp add: unat_word_ariths)
  show ?thesis
  proof (cases "idx_of is_deleted (used t)")
    case None': None
    show ?thesis
      using nut_set_append [OF assms(1,2) None None' assms(3-5), of a] None suc
      by (auto simp: register_def)
  next
    case (Some m)
    show ?thesis
      using nut_set_reuse [OF assms(1,2) None Some, of mal a] None by (auto simp: register_def)
  qed
qed

text \<open>\<open>nut_get\<close> finds the endpoints of the name.\<close>

lemma nut_get_refines_lookup:
  assumes "nut_inv t" "name_ok nm nlen"
  shows "case nut_abs t (nut_key nm nlen) of
           None \<Rightarrow> nut_get t nm nlen = Some None
         | Some as \<Rightarrow> \<exists>m. nut_get t nm nlen = Some (Some (int m)) \<and> m < length (used t)
             \<and> live_at (nut_key nm nlen) (used t ! m) \<and> e_addrs (used t ! m) = as"
  using nut_get_eq [OF assms]
  by (auto simp: nut_abs_def look_def idx_of_Some_iff split: option.split)


section \<open>The table is a name map\<close>

definition malloc_good :: "malloc \<Rightarrow> bool" where
  "malloc_good mal \<longleftrightarrow> malloc_typed mal \<and> (\<forall>n > 0. mal n \<noteq> None)"

definition nut_set' :: "malloc \<Rightarrow> char list \<times> int \<Rightarrow> sockaddr_in \<Rightarrow> nut \<Rightarrow> (int \<times> nut) option" where
  "nut_set' mal n a t = nut_set mal (fst n) (snd n) a t"

definition nut_get' :: "nut \<Rightarrow> char list \<times> int \<Rightarrow> int option option" where
  "nut_get' t n = nut_get t (fst n) (snd n)"

definition entry_addrs :: "nut \<Rightarrow> int \<Rightarrow> sockaddr_in list" where
  "entry_addrs t h = e_addrs (entries t ! nat h)"

lemma nut_get_hit:
  assumes "nut_inv t" "name_ok nm nlen" "nut_abs t (nut_key nm nlen) = Some as"
  shows "\<exists>h t'. nut_get t nm nlen = Some (Some h) \<and> entry_addrs t h = as \<and> nut_del h t = Some t'
     \<and> nut_inv t' \<and> entry_num t' = entry_num t \<and> nut_abs t' = (nut_abs t)(nut_key nm nlen := None)"
proof -
  obtain m where m: "nut_get t nm nlen = Some (Some (int m))" "m < length (used t)"
      "live_at (nut_key nm nlen) (used t ! m)" "e_addrs (used t ! m) = as"
    using nut_get_refines_lookup [OF assms(1,2)] assms(3) by auto
  then have live: "deleted (used t ! m) \<noteq> 1" "e_key (used t ! m) = nut_key nm nlen"
    by (auto simp: live_at_def)
  from nut_del_eq [OF assms(1) m(2) live(1)] m live inv_facts(8) [OF assms(1) m(2)] show ?thesis
    by (auto simp: entry_addrs_def)
qed

interpretation nut_map: name_map "nut_set' mal" nut_get' entry_addrs nut_del
    "\<lambda>t. malloc_good mal \<and> nut_inv t" nut_abs "\<lambda>t. unat (entry_num t)" "2 ^ 30"
    "\<lambda>n. name_ok (fst n) (snd n)" "\<lambda>n. nut_key (fst n) (snd n)" endpoint 8
  for mal :: malloc
proof (unfold_locales, goal_cases)
  case (1 t n a)
  then show ?case
    using nut_set_refines_register [of t "fst n" "snd n" mal a]
    by (auto simp: malloc_good_def nut_set'_def)
next
  case (2 t n)
  then show ?case
    using nut_get_refines_lookup [of t "fst n" "snd n"] by (simp add: nut_get'_def)
next
  case (3 t n as)
  then show ?case
    using nut_get_hit [of t "fst n" "snd n" as] by (auto simp: nut_get'_def)
qed

section \<open>A fresh table\<close>

lemma nut_create_eq:
  assumes "malloc_good mal"
  shows "\<exists>t. nut_create mal True sz = Some t \<and> nut_inv t \<and> nut_abs t = (\<lambda>_. None) \<and> entry_num t = 0
           \<and> int (unat (table_cap t)) = (if 0 < sz \<and> sz < 32 then sz else 32)"
proof -
  let ?n = "if sz \<le> 0 \<or> sz \<ge> 32 then 32 else sz"
  have n: "0 < ?n" "?n \<le> 32" by auto
  have "\<exists>b. mal m = Some b \<and> int (length b) = m \<and> (\<forall>e \<in> set b. entry_typed e)" if "0 < m" for m
    using assms that by (cases "mal m") (auto simp: malloc_good_def malloc_typed_def)
  from this [OF n(1)] obtain b
    where b: "mal ?n = Some b" "int (length b) = ?n" "\<forall>e \<in> set b. entry_typed e" by blast
  have "unat (word_of_int m :: u32) = nat m" if "0 < m" "m \<le> 32" for m :: int
    using that by (simp add: unsigned_of_int take_bit_int_eq_self)
  from this [OF n] n have cap: "int (unat (word_of_int ?n :: u32)) = ?n" by simp
  let ?t = "\<lparr>table_cap = word_of_int ?n, entry_num = 0, entries = b\<rparr>"
  have used: "used ?t = []" by (simp add: used_def)
  have len: "length b = unat (word_of_int ?n :: u32)" "0 < unat (word_of_int ?n :: u32)"
      "unat (word_of_int ?n :: u32) \<le> 32"
    using cap b(2) n by linarith+
  have "nut_create mal True sz = Some ?t"
    using b(1) by (simp add: nut_create_def Let_def)
  moreover have "nut_inv ?t"
    using used b(3) len by (simp add: nut_inv_def keys_distinct_def)
  moreover have "nut_abs ?t = (\<lambda>_. None)" using used by (auto simp: nut_abs_def look_def)
  ultimately show ?thesis using cap by auto
qed

end
