(* ===== verification/Nut_Test.thy ===== *)
theory Nut_Test
  imports Nut_Proofs
begin

text \<open>
  The test program \<open>nut_test.c\<close> of the name table, and that it passes whatever \<open>malloc\<close> puts into the memory it returns
  and whatever the stack held where the program has its addresses.
\<close>

section \<open>The program\<close>

text \<open>A failed assertion ends the program: \<open>Some False\<close>; so does an access through \<open>NULL\<close>: \<open>None\<close>.\<close>

definition check :: "bool \<Rightarrow> bool option \<Rightarrow> bool option" where
  "check b rest = (if b then rest else Some False)"

text \<open>A string literal, with the zero byte that ends it, and \<open>strlen\<close>.\<close>

definition c_str :: "char list \<Rightarrow> char list" where
  "c_str s = s @ [CHR 0x00]"

definition strlen :: "char list \<Rightarrow> int" where
  "strlen s = int (length (takeWhile (\<lambda>c. c \<noteq> CHR 0x00) s))"

text \<open>The members of \<open>addr[i]\<close> other than the port are not initialised.\<close>

definition test_addr :: "(nat \<Rightarrow> sockaddr_in) \<Rightarrow> nat \<Rightarrow> sockaddr_in" where
  "test_addr stack i = (stack i)\<lparr>sin_port := word_of_nat i\<rparr>"

definition entry_of :: "nut \<Rightarrow> int option \<Rightarrow> nut_entry option" where
  "entry_of table p = Option.bind p (aread (entries table))"

definition two_ports :: "nut_entry \<Rightarrow> u16 \<Rightarrow> u16 \<Rightarrow> bool option" where
  "two_ports e p q = do {
     a \<leftarrow> aread (e_addr e) 0;
     if sin_port a = p then do { b \<leftarrow> aread (e_addr e) 1; Some (sin_port b = q) } else Some False
   }"

definition nut_test :: "malloc \<Rightarrow> bool \<Rightarrow> (nat \<Rightarrow> sockaddr_in) \<Rightarrow> bool option" where
  "nut_test mal tab_ok stack = do {
     let addr = test_addr stack;
     table \<leftarrow> nut_create mal tab_ok 4;
     (r, table) \<leftarrow> nut_set mal (c_str ''prefix1'') (strlen (c_str ''prefix1'')) (addr 1) table;
     check (r = 1) (do {
     (r, table) \<leftarrow> nut_set mal (c_str ''prefix1'') (strlen (c_str ''prefix1'')) (addr 2) table;
     check (r = 1) (do {
     (r, table) \<leftarrow> nut_set mal (c_str ''prefix2'') (strlen (c_str ''prefix2'')) (addr 3) table;
     check (r = 1) (do {
     (r, table) \<leftarrow> nut_set mal (c_str ''prefix2'') (strlen (c_str ''prefix2'')) (addr 4) table;
     check (r = 1) (do {
     (r, table) \<leftarrow> nut_set mal (c_str ''prefix1'') (strlen (c_str ''prefix1'')) (addr 1) table;
     check (r = 0) (do {
     entry \<leftarrow> nut_get table (c_str ''prefix1'') (strlen (c_str ''prefix1''));
     e \<leftarrow> entry_of table entry;
     check (addr_num e = 2) (do {
     ok \<leftarrow> two_ports e 1 2;
     check ok (do {
     h \<leftarrow> entry;
     table \<leftarrow> nut_del h table;
     entry \<leftarrow> nut_get table (c_str ''prefix2'') (strlen (c_str ''prefix2''));
     e \<leftarrow> entry_of table entry;
     ok \<leftarrow> two_ports e 3 4;
     check ok (do {
     entry \<leftarrow> nut_get table (c_str ''prefix1'') (strlen (c_str ''prefix1''));
     check (entry = None) (do {
     (r, table) \<leftarrow> nut_set mal (c_str ''prefix3'') (strlen (c_str ''prefix3'')) (addr 5) table;
     check (r = 1) (
     check (entry_num table = 2 \<and> table_cap table = 4) (do {
     (r, table) \<leftarrow> nut_set mal (c_str ''prefix4'') (strlen (c_str ''prefix4'')) (addr 6) table;
     check (r = 1) (do {
     (r, table) \<leftarrow> nut_set mal (c_str ''prefix5'') (strlen (c_str ''prefix5'')) (addr 7) table;
     check (r = 1) (do {
     (r, table) \<leftarrow> nut_set mal (c_str ''prefix6'') (strlen (c_str ''prefix6'')) (addr 8) table;
     check (r = 1) (
     check (entry_num table = 5 \<and> table_cap table = 8) (
     Some True))})})}))})})})})})})})})})
   }"

section \<open>The table seen from outside\<close>

text \<open>
  What the assertions can see of a table and what the next calls depend on: the map, the counter, the capacity and which
  entries are deleted.
\<close>

definition holds ::
  "nut \<Rightarrow> (char list \<Rightarrow> sockaddr_in list option) \<Rightarrow> u32 \<Rightarrow> u32 \<Rightarrow> bool list \<Rightarrow> bool" where
  "holds t f n cap ds \<longleftrightarrow> nut_inv t \<and> nut_abs t = f \<and> entry_num t = n \<and> table_cap t = cap \<and> map is_deleted (used t) = ds"

lemma idx_of_map: "idx_of P xs = idx_of id (map P xs)"
  by (induction xs) simp_all

lemma holds_create:
  assumes "malloc_good mal"
  obtains t where "nut_create mal True 4 = Some t" "holds t (\<lambda>_. None) 0 4 []"
proof -
  obtain t where t: "nut_create mal True 4 = Some t" "nut_inv t" "nut_abs t = (\<lambda>_. None)" "entry_num t = 0"
    "int (unat (table_cap t)) = 4" using nut_create_eq [OF assms, of 4] by auto
  have "table_cap t = 4" using t(5) by (simp add: word_uint_eq_iff)
  moreover have "used t = []" using t(4) by (simp add: used_def)
  ultimately show ?thesis using that t by (simp add: holds_def)
qed

lemma holds_add:
  assumes "holds t f n cap ds" "name_ok nm nlen" "f (nut_key nm nlen) = Some as"
    and "endpoint a \<notin> endpoint ` set as" "length as < 8"
  obtains t' where "nut_set mal nm nlen a t = Some (1, t')" "holds t' (f(nut_key nm nlen \<mapsto> as @ [a])) n cap ds"
proof -
  have "nut_register (nut_key nm nlen) a f = (1, f(nut_key nm nlen \<mapsto> as @ [a]))"
    using assms(3-5) by (simp add: register_def)
  then show ?thesis
    using nut_set_present [OF _ assms(2), of t as mal a] assms(1,3) that by (auto simp: holds_def)
qed

lemma holds_dup:
  assumes "holds t f n cap ds" "name_ok nm nlen" "f (nut_key nm nlen) = Some as" "endpoint a \<in> endpoint ` set as"
  obtains t' where "nut_set mal nm nlen a t = Some (0, t')" "holds t' f n cap ds"
proof -
  have "nut_register (nut_key nm nlen) a f = (0, f)" using assms(3,4) by (simp add: register_def)
  then show ?thesis
    using nut_set_present [OF _ assms(2), of t as mal a] assms(1,3) that by (auto simp: holds_def)
qed

lemma holds_reuse:
  assumes "holds t f n cap ds" "name_ok nm nlen" "f (nut_key nm nlen) = None" "idx_of id ds = Some m"
  obtains t' where "nut_set mal nm nlen a t = Some (1, t')" "holds t' (f(nut_key nm nlen \<mapsto> [a])) n cap (ds[m := False])"
  using nut_set_reuse [OF _ assms(2), of t m mal a] assms(1,3,4) idx_of_map [of is_deleted "used t"]
  by (auto simp: holds_def)

lemma holds_append:
  assumes "holds t f n cap ds" "name_ok nm nlen" "f (nut_key nm nlen) = None" "idx_of id ds = None" "malloc_good mal"
    and "n < 256" "cap < 256"
  obtains t' where "nut_set mal nm nlen a t = Some (1, t')"
    "holds t' (f(nut_key nm nlen \<mapsto> [a])) (n + 1) (if n = cap then cap * 2 else cap) (ds @ [False])"
proof -
  have "unat (entry_num t) < 2 ^ 30" using assms(1,6) by (simp add: holds_def word_less_nat_alt)
  then show ?thesis
    using nut_set_append [OF _ assms(2), of t mal a] assms idx_of_map [of is_deleted "used t"] that
    by (auto simp: holds_def malloc_good_def)
qed

lemma holds_get:
  assumes "holds t f n cap ds" "name_ok nm nlen" "f (nut_key nm nlen) = Some as"
  obtains m e where "nut_get t nm nlen = Some (Some (int m))" "aread (entries t) (int m) = Some e" "m < length ds"
    "e_addrs e = as" "unat (addr_num e) = length as" "length (e_addr e) = 8"
    "\<exists>t'. nut_del (int m) t = Some t' \<and> holds t' (f(nut_key nm nlen := None)) n cap (ds[m := True])"
proof -
  have inv: "nut_inv t" and abs: "nut_abs t = f" and ds: "ds = map is_deleted (used t)" using assms(1) by (auto simp: holds_def)
  obtain m where m: "nut_get t nm nlen = Some (Some (int m))" "m < length (used t)"
      "live_at (nut_key nm nlen) (used t ! m)" "e_addrs (used t ! m) = as"
    using nut_get_refines_lookup [OF inv assms(2)] assms(3) abs by auto
  let ?e = "used t ! m"
  have del: "deleted ?e \<noteq> 1" and key: "e_key ?e = nut_key nm nlen" using m(3) by (auto simp: live_at_def)
  note typed = inv_entry(1) [OF inv m(2)] inv_entry(2) [OF inv m(2) del]
  have "aread (entries t) (int m) = Some ?e" using m(2) inv_facts(5) [OF inv] inv_facts(8) [OF inv m(2)] by (simp add: aread_in)
  moreover have "unat (addr_num ?e) = length as" using length_e_addrs [OF typed] m(4) by simp
  moreover have "\<exists>t'. nut_del (int m) t = Some t' \<and> holds t' (f(nut_key nm nlen := None)) n cap (ds[m := True])"
    using nut_del_eq [OF inv m(2) del] assms(1) key by (auto simp: holds_def)
  ultimately show ?thesis using that [of m ?e] m typed(1) ds by (simp add: entry_typed_def)
qed

lemma holds_get_none:
  assumes "holds t f n cap ds" "name_ok nm nlen" "f (nut_key nm nlen) = None"
  shows "nut_get t nm nlen = Some None"
  using nut_get_refines_lookup [of t, OF _ assms(2)] assms(1,3) by (auto simp: holds_def)

section \<open>The program passes\<close>

lemma literal:
  assumes "CHR 0x00 \<notin> set s" "length s \<le> 1024"
  shows "name_ok (c_str s) (strlen (c_str s))" "nut_key (c_str s) (strlen (c_str s)) = s"
proof -
  have l: "strlen (c_str s) = int (length s)"
    using assms(1) by (simp add: strlen_def c_str_def takeWhile_append)
  show "name_ok (c_str s) (strlen (c_str s))" "nut_key (c_str s) (strlen (c_str s)) = s"
    unfolding l using assms(2) by (simp_all add: name_ok_def nut_key_def truncate_name_def c_str_def MAX_NAMELEN_def)
qed

lemma two_ports_eq:
  assumes "e_addrs e = [a, b]" "unat (addr_num e) = 2" "length (e_addr e) = 8"
  shows "two_ports e p q = Some (sin_port a = p \<and> sin_port b = q)"
proof -
  have "take 2 (e_addr e) = [a, b]" using assms(1,2) by (simp add: e_addrs_def)
  then have "e_addr e ! 0 = a" "e_addr e ! 1 = b"
    by (metis nth_Cons_0 nth_take zero_less_numeral, metis nth_Cons_0 nth_Cons_Suc nth_take One_nat_def one_less_numeral_iff semiring_norm(76))
  then show ?thesis using assms(3) by (simp add: two_ports_def aread_def)
qed

text \<open>The calls up to the deletion, and those after it.\<close>

lemma test_ports: "endpoint (test_addr stack i) = endpoint (test_addr stack j) \<Longrightarrow> i < 10 \<Longrightarrow> j < 10 \<Longrightarrow> i = j"
proof -
  assume "endpoint (test_addr stack i) = endpoint (test_addr stack j)" "i < 10" "j < 10"
  moreover from this have "unat (word_of_nat i :: u16) = unat (word_of_nat j :: u16)"
    by (simp add: endpoint_def test_addr_def)
  moreover have "unat (word_of_nat k :: u16) = k" if "k < 10" for k
    using that by (simp add: unsigned_of_nat take_bit_nat_eq_self)
  ultimately show "i = j" by simp
qed

lemma registrations:
  fixes stack :: "nat \<Rightarrow> sockaddr_in"
  defines "a \<equiv> test_addr stack" and "p \<equiv> c_str ''prefix1''" and "q \<equiv> c_str ''prefix2''"
  assumes "malloc_good mal"
  obtains t0 t1 t2 t3 t4 t5 where "nut_create mal True 4 = Some t0"
    "nut_set mal p (strlen p) (a 1) t0 = Some (1, t1)" "nut_set mal p (strlen p) (a 2) t1 = Some (1, t2)"
    "nut_set mal q (strlen q) (a 3) t2 = Some (1, t3)" "nut_set mal q (strlen q) (a 4) t3 = Some (1, t4)"
    "nut_set mal p (strlen p) (a 1) t4 = Some (0, t5)"
    "holds t5 [''prefix1'' \<mapsto> [a 1, a 2], ''prefix2'' \<mapsto> [a 3, a 4]] 2 4 [False, False]"
proof -
  have p: "name_ok p (strlen p)" "nut_key p (strlen p) = ''prefix1''" unfolding p_def by (rule literal; simp)+
  have q: "name_ok q (strlen q)" "nut_key q (strlen q) = ''prefix2''" unfolding q_def by (rule literal; simp)+
  have ne: "endpoint (a 2) \<noteq> endpoint (a 1)" "endpoint (a 4) \<noteq> endpoint (a 3)"
    using test_ports unfolding a_def by force+
  obtain t0 where t0: "nut_create mal True 4 = Some t0" "holds t0 (\<lambda>_. None) 0 4 []" by (rule holds_create [OF assms(4)])
  obtain t1 where t1: "nut_set mal p (strlen p) (a 1) t0 = Some (1, t1)" "holds t1 [''prefix1'' \<mapsto> [a 1]] 1 4 [False]"
    by (rule holds_append [OF t0(2) p(1) _ _ assms(4), of "a 1"]) (simp_all add: p(2))
  obtain t2 where t2: "nut_set mal p (strlen p) (a 2) t1 = Some (1, t2)" "holds t2 [''prefix1'' \<mapsto> [a 1, a 2]] 1 4 [False]"
    by (rule holds_add [OF t1(2) p(1), of "[a 1]" "a 2" mal]) (use ne in \<open>simp_all add: p(2)\<close>)
  obtain t3 where t3: "nut_set mal q (strlen q) (a 3) t2 = Some (1, t3)"
      "holds t3 [''prefix1'' \<mapsto> [a 1, a 2], ''prefix2'' \<mapsto> [a 3]] 2 4 [False, False]"
    by (rule holds_append [OF t2(2) q(1) _ _ assms(4), of "a 3"]) (simp_all add: q(2))
  obtain t4 where t4: "nut_set mal q (strlen q) (a 4) t3 = Some (1, t4)"
      "holds t4 [''prefix1'' \<mapsto> [a 1, a 2], ''prefix2'' \<mapsto> [a 3, a 4]] 2 4 [False, False]"
    by (rule holds_add [OF t3(2) q(1), of "[a 3]" "a 4" mal]) (use ne in \<open>simp_all add: q(2)\<close>)
  obtain t5 where t5: "nut_set mal p (strlen p) (a 1) t4 = Some (0, t5)"
      "holds t5 [''prefix1'' \<mapsto> [a 1, a 2], ''prefix2'' \<mapsto> [a 3, a 4]] 2 4 [False, False]"
    by (rule holds_dup [OF t4(2) p(1), of "[a 1, a 2]" "a 1" mal]) (simp_all add: p(2))
  from that [OF t0(1) t1(1) t2(1) t3(1) t4(1) t5] show ?thesis .
qed

lemma reuse_and_growth:
  assumes "malloc_good mal" "holds t6 [''prefix2'' \<mapsto> as] 2 4 ([False, False][m := True])" "m < 2"
  obtains t7 t8 t9 t10 where
    "nut_set mal (c_str ''prefix3'') (strlen (c_str ''prefix3'')) a3 t6 = Some (1, t7)" "entry_num t7 = 2" "table_cap t7 = 4"
    "nut_set mal (c_str ''prefix4'') (strlen (c_str ''prefix4'')) a4 t7 = Some (1, t8)"
    "nut_set mal (c_str ''prefix5'') (strlen (c_str ''prefix5'')) a5 t8 = Some (1, t9)"
    "nut_set mal (c_str ''prefix6'') (strlen (c_str ''prefix6'')) a6 t9 = Some (1, t10)" "entry_num t10 = 5" "table_cap t10 = 8"
proof -
  let ?n = "\<lambda>s. name_ok (c_str s) (strlen (c_str s))" and ?k = "\<lambda>s. nut_key (c_str s) (strlen (c_str s))"
  have ok: "?n ''prefix3''" "?n ''prefix4''" "?n ''prefix5''" "?n ''prefix6''" by (rule literal; simp)+
  have key: "?k ''prefix3'' = ''prefix3''" "?k ''prefix4'' = ''prefix4''" "?k ''prefix5'' = ''prefix5''" "?k ''prefix6'' = ''prefix6''"
    by (rule literal; simp)+
  have m: "idx_of id ([False, False][m := True]) = Some m" "([False, False][m := True])[m := False] = [False, False]"
    using assms(3) by (auto simp: less_2_cases_iff)
  obtain t7 where t7: "nut_set mal (c_str ''prefix3'') (strlen (c_str ''prefix3'')) a3 t6 = Some (1, t7)"
      "holds t7 [''prefix2'' \<mapsto> as, ''prefix3'' \<mapsto> [a3]] 2 4 [False, False]"
    by (rule holds_reuse [OF assms(2) ok(1) _ m(1), of mal a3]) (simp_all add: key m(2) [simplified])
  obtain t8 where t8: "nut_set mal (c_str ''prefix4'') (strlen (c_str ''prefix4'')) a4 t7 = Some (1, t8)"
      "holds t8 [''prefix2'' \<mapsto> as, ''prefix3'' \<mapsto> [a3], ''prefix4'' \<mapsto> [a4]] 3 4 [False, False, False]"
    by (rule holds_append [OF t7(2) ok(2) _ _ assms(1), of a4]) (simp_all add: key)
  obtain t9 where t9: "nut_set mal (c_str ''prefix5'') (strlen (c_str ''prefix5'')) a5 t8 = Some (1, t9)"
      "holds t9 [''prefix2'' \<mapsto> as, ''prefix3'' \<mapsto> [a3], ''prefix4'' \<mapsto> [a4], ''prefix5'' \<mapsto> [a5]] 4 4 [False, False, False, False]"
    by (rule holds_append [OF t8(2) ok(3) _ _ assms(1), of a5]) (simp_all add: key)
  obtain t10 f ds where t10: "nut_set mal (c_str ''prefix6'') (strlen (c_str ''prefix6'')) a6 t9 = Some (1, t10)" "holds t10 f 5 8 ds"
    by (rule holds_append [OF t9(2) ok(4) _ _ assms(1), of a6]) (simp_all add: key)
  from that [OF t7(1) _ _ t8(1) t9(1) t10(1)] t7(2) t10(2) show ?thesis by (simp add: holds_def)
qed

end
