(* ===== verification/Nut_Props.thy ===== *)
theory Nut_Props
  imports Nut_Test Nut_Proofs
begin

text \<open>
  The properties of the name table of \<open>name_udp_table.c\<close>: registering and looking up are the
  operations of a map from names to at most eight endpoints, the table grows without losing an
  entry and only when no deleted entry can be used again, and what happens to names that do not
  fit and to lengths that are not lengths.
\<close>

section \<open>Samples for the witnesses\<close>

definition sample_entry :: nut_entry where
  "sample_entry = \<lparr>name_len = 0, addr_num = 0, deleted = 0, canstop = 0,
     e_name = replicate 1024 CHR 0x00, e_addr = replicate 8 \<lparr>sin_family = 0, sin_port = 0, sin_addr = 0\<rparr>\<rparr>"

definition sample_malloc :: malloc where
  "sample_malloc n = (if n < 0 then None else Some (replicate (nat n) sample_entry))"

definition sample_port :: "u16 \<Rightarrow> sockaddr_in" where
  "sample_port p = \<lparr>sin_family = 2, sin_port = p, sin_addr = 0\<rparr>"

lemma sample_malloc_good: "malloc_good sample_malloc"
  by (auto simp: malloc_good_def malloc_typed_def sample_malloc_def entry_typed_def sample_entry_def
           split: if_splits)

lemma sample_table:
  obtains t where "nut_create sample_malloc True 4 = Some t" "nut_inv t" "nut_abs t = (\<lambda>_. None)"
    "entry_num t = 0" "unat (table_cap t) = 4"
proof -
  obtain t where "nut_create sample_malloc True 4 = Some t" "nut_inv t" "nut_abs t = (\<lambda>_. None)"
    "entry_num t = 0" "int (unat (table_cap t)) = 4"
    using nut_create_eq [OF sample_malloc_good, of 4] by auto
  moreover from this(5) have "unat (table_cap t) = 4" by linarith
  ultimately show ?thesis by (intro that)
qed

lemma nut_key_all: "length nm \<le> 1024 \<Longrightarrow> nut_key nm (int (length nm)) = nm"
  by (simp add: nut_key_short)

lemma name_ok_all: "name_ok nm (int (length nm))"
  by (simp add: name_ok_def)

lemma endpoint_sample [simp]: "endpoint (sample_port p) = (0, p)"
  by (simp add: endpoint_def sample_port_def)

section \<open>Registering and looking up\<close>

text \<open>
  C31. \<open>nut_set\<close> on a well-formed table with fewer than 2^30 entries neither faults nor loops.  It
  returns 1 and appends the endpoint to those of the name (the first endpoint of a new name), it
  returns 0 and changes nothing if the endpoint is there already, it returns -1 and changes
  nothing if eight others are; no other name is touched and the table stays well-formed.
\<close>

theorem nut_set_registers:
  assumes "nut_inv t" and "name_ok nm nlen" and "malloc_good mal" and "unat (entry_num t) < 2 ^ 30"
  shows "\<exists>r t'. nut_set mal nm nlen a t = Some (r, t') \<and> nut_inv t' \<and>
    (case nut_abs t (nut_key nm nlen) of
       None \<Rightarrow> r = 1 \<and> nut_abs t' = (nut_abs t)(nut_key nm nlen := Some [a])
     | Some as \<Rightarrow>
         if endpoint a \<in> endpoint ` set as then r = 0 \<and> nut_abs t' = nut_abs t
         else if length as = 8 then r = -1 \<and> nut_abs t' = nut_abs t
         else r = 1 \<and> nut_abs t' = (nut_abs t)(nut_key nm nlen := Some (as @ [a])))"
  using nut_set_refines_register [OF assms(1,2) _ _ assms(4), of mal a] assms(3)
  by (auto simp: malloc_good_def register_def split: option.splits)

theorem nut_set_registers_witness:
  "\<exists>t t'. nut_set sample_malloc ''prefix1'' 7 (sample_port 1) t = Some (1, t')
        \<and> nut_abs t' ''prefix1'' = Some [sample_port 1]"
proof -
  obtain t where t: "nut_inv t" "nut_abs t = (\<lambda>_. None)" "entry_num t = 0"
    by (rule sample_table)
  have "nut_key ''prefix1'' 7 = ''prefix1''" "name_ok ''prefix1'' 7"
    using nut_key_all [of "''prefix1''"] name_ok_all [of "''prefix1''"] by simp_all
  with nut_set_registers [OF t(1) _ sample_malloc_good, of "''prefix1''" 7 "sample_port 1"] t
  obtain t' where "nut_set sample_malloc ''prefix1'' 7 (sample_port 1) t = Some (1, t')"
    "nut_abs t' = [''prefix1'' \<mapsto> [sample_port 1]]" by auto
  then show ?thesis by (intro exI [of _ t] exI [of _ t']) simp
qed

text \<open>
  C32. \<open>nut_get\<close> on a well-formed table returns \<open>NULL\<close> exactly when nothing is registered for the
  name, otherwise the entry in use that holds the name and, in order, its endpoints.
\<close>

theorem nut_get_finds:
  assumes "nut_inv t" and "name_ok nm nlen"
  shows "(nut_get t nm nlen = Some None \<and> nut_abs t (nut_key nm nlen) = None) \<or>
         (\<exists>m. nut_get t nm nlen = Some (Some (int m)) \<and> m < unat (entry_num t)
            \<and> deleted (entries t ! m) \<noteq> 1 \<and> e_key (entries t ! m) = nut_key nm nlen
            \<and> nut_abs t (nut_key nm nlen) = Some (e_addrs (entries t ! m)))"
  using nut_get_refines_lookup [OF assms] inv_facts(2,8) [OF assms(1)]
  by (auto simp: live_at_def split: option.splits)

theorem nut_get_finds_witness:
  "\<exists>t. nut_create sample_malloc True 4 = Some t \<and> nut_get t ''prefix1'' 7 = Some None"
proof -
  obtain t where t: "nut_create sample_malloc True 4 = Some t" "nut_inv t" "nut_abs t = (\<lambda>_. None)"
    by (rule sample_table)
  have "name_ok ''prefix1'' 7" by (simp add: name_ok_def)
  with nut_get_finds [OF t(2) this] t show ?thesis by auto
qed

text \<open>
  C12. Any sequence of registrations and of look-ups that delete what they found, on a well-formed
  table that has room for it, gives exactly the results of the map operations.
\<close>

theorem nut_ops_refine_map:
  assumes "malloc_good mal" and "nut_inv t"
    and "\<forall>op \<in> set ops. name_ok (fst (mop_name op)) (snd (mop_name op))"
    and "unat (entry_num t) + length ops \<le> 2 ^ 30"
  shows "\<exists>t'. table_ops (nut_set' mal) (take_waiters nut_get' entry_addrs nut_del) ops t =
      Some (fst (map_ops (\<lambda>n. nut_key (fst n) (snd n)) endpoint 8 ops (nut_abs t)), t')
    \<and> nut_inv t'
    \<and> nut_abs t' = snd (map_ops (\<lambda>n. nut_key (fst n) (snd n)) endpoint 8 ops (nut_abs t))"
  using nut_map.ops_refine [of mal t ops] assms by blast

text \<open>The calls of \<open>nut_test.c\<close>, each \<open>nut_get\<close> followed by the \<open>nut_del\<close> of what it found.\<close>

abbreviation nut_test_ops :: "(char list \<times> int, sockaddr_in) mop list" where
  "nut_test_ops \<equiv>
     [Register (''prefix1'', 7) (sample_port 1), Register (''prefix1'', 7) (sample_port 2),
      Register (''prefix2'', 7) (sample_port 3), Register (''prefix2'', 7) (sample_port 4),
      Register (''prefix1'', 7) (sample_port 1), Take (''prefix1'', 7), Take (''prefix2'', 7),
      Take (''prefix1'', 7)]"

theorem nut_ops_refine_map_witness:
  "\<exists>t t'. nut_create sample_malloc True 4 = Some t
     \<and> table_ops (nut_set' sample_malloc) (take_waiters nut_get' entry_addrs nut_del) nut_test_ops t =
        Some ([Registered 1, Registered 1, Registered 1, Registered 1, Registered 0,
               Taken (Some [sample_port 1, sample_port 2]),
               Taken (Some [sample_port 3, sample_port 4]), Taken None], t')"
proof -
  obtain t where t: "nut_create sample_malloc True 4 = Some t" "nut_inv t" "nut_abs t = (\<lambda>_. None)"
    "entry_num t = 0" by (rule sample_table)
  have k: "nut_key ''prefix1'' 7 = ''prefix1''" "nut_key ''prefix2'' 7 = ''prefix2''"
    by (simp_all add: nut_key_short)
  have "fst (map_ops (\<lambda>n. nut_key (fst n) (snd n)) endpoint 8 nut_test_ops (nut_abs t)) =
      [Registered 1, Registered 1, Registered 1, Registered 1, Registered 0,
       Taken (Some [sample_port 1, sample_port 2]),
       Taken (Some [sample_port 3, sample_port 4]), Taken None]"
    by (simp add: t(3) k register_def)
  note run = this
  have ok: "\<forall>op \<in> set nut_test_ops. name_ok (fst (mop_name op)) (snd (mop_name op))"
    by (simp add: name_ok_def)
  have room: "unat (entry_num t) + length nut_test_ops \<le> 2 ^ 30" using t(4) by simp
  show ?thesis
    using nut_ops_refine_map [OF sample_malloc_good t(2) ok room] t(1) unfolding run by blast
qed

text \<open>
  C22. The consumers that wait for a name are all found when its data comes: after up to eight
  registrations of different endpoints for a name nobody waited for, and any operations on
  other names, the look-up yields these endpoints in the order of their registration.
\<close>

theorem waiting_consumers_all_found:
  assumes "malloc_good mal" and "nut_inv t" and "name_ok (fst n) (snd n)"
    and "nut_abs t (nut_key (fst n) (snd n)) = None"
    and "distinct (map endpoint (a # as))" and "length as < 8"
    and "\<forall>op \<in> set ops. name_ok (fst (mop_name op)) (snd (mop_name op))
            \<and> nut_key (fst (mop_name op)) (snd (mop_name op)) \<noteq> nut_key (fst n) (snd n)"
    and "unat (entry_num t) + length as + length ops + 2 \<le> 2 ^ 30"
  shows "\<exists>rs t'. table_ops (nut_set' mal) (take_waiters nut_get' entry_addrs nut_del)
             (map (Register n) (a # as) @ ops @ [Take n]) t = Some (rs, t')
           \<and> last rs = Taken (Some (a # as))"
proof -
  let ?key = "\<lambda>n. nut_key (fst n) (snd n)" and ?m = "nut_abs t"
  let ?m1 = "?m(?key n := Some (a # as))"
  have first: "register endpoint 8 (?key n) a ?m = (1, ?m(?key n := Some [a]))"
    using assms(4) by (simp add: register_def)
  have rest: "map_ops ?key endpoint 8 (map (Register n) as) (?m(?key n := Some [a]))
      = (replicate (length as) (Registered 1), ?m1)"
    using map_ops_register_all [of "?m(?key n := Some [a])" ?key n "[a]" endpoint as 8] assms(5,6) by simp
  have other: "snd (map_ops ?key endpoint 8 ops ?m1) (?key n) = Some (a # as)"
    using assms(7) by (subst map_ops_other) auto
  have "last (fst (map_ops ?key endpoint 8 (map (Register n) (a # as) @ ops @ [Take n]) ?m))
      = Taken (Some (a # as))"
    using other by (simp add: first rest map_ops_append split_beta)
  moreover have "\<forall>op \<in> set (map (Register n) (a # as) @ ops @ [Take n]).
      name_ok (fst (mop_name op)) (snd (mop_name op))"
    using assms(3,7) by auto
  moreover have "unat (entry_num t) + length (map (Register n) (a # as) @ ops @ [Take n]) \<le> 2 ^ 30"
    using assms(8) by simp
  ultimately show ?thesis using nut_map.ops_refine [of mal t] assms(1,2) by blast
qed

theorem waiting_consumers_all_found_witness:
  "\<exists>t rs t'. table_ops (nut_set' sample_malloc) (take_waiters nut_get' entry_addrs nut_del)
     (map (Register (''a'', 1)) [sample_port 1, sample_port 2] @ [Register (''b'', 1) (sample_port 3)]
      @ [Take (''a'', 1)]) t = Some (rs, t')
     \<and> last rs = Taken (Some [sample_port 1, sample_port 2])"
proof -
  obtain t where t: "nut_inv t" "nut_abs t = (\<lambda>_. None)" "entry_num t = 0" by (rule sample_table)
  have k: "nut_key ''a'' 1 = ''a''" "nut_key ''b'' 1 = ''b''"
    by (simp_all add: nut_key_short)
  show ?thesis
    using waiting_consumers_all_found [OF sample_malloc_good t(1), of "(''a'', 1)" "sample_port 1"
        "[sample_port 2]" "[Register (''b'', 1) (sample_port 3)]"] t k
    by (auto simp: name_ok_def)
qed

section \<open>Growing and reusing entries\<close>

text \<open>
  While the capacity is below 2^30, \<open>nut_grow\<close> with a working \<open>malloc\<close> gives a strictly larger
  table that is well-formed and holds exactly the entries the old one had in use.
\<close>

lemma nut_grow_keeps_entries:
  assumes "nut_inv t" and "malloc_good mal" and "unat (table_cap t) < 2 ^ 30"
  shows "\<exists>t'. nut_grow mal t = Some t' \<and> nut_inv t' \<and> unat (table_cap t) < unat (table_cap t')
            \<and> entry_num t' = entry_num t \<and> used t' = used t \<and> nut_abs t' = nut_abs t"
  using nut_grow_eq [OF assms(1) _ _ assms(3), of mal] assms(2)
  by (auto simp: malloc_good_def nut_abs_def)

lemma nut_grow_keeps_entries_witness:
  "\<exists>t t'. unat (table_cap t) = 4 \<and> nut_grow sample_malloc t = Some t' \<and> 4 < unat (table_cap t')"
proof -
  obtain t where t: "nut_inv t" "unat (table_cap t) = 4" by (rule sample_table)
  with nut_grow_keeps_entries [OF t(1) sample_malloc_good] show ?thesis by auto
qed

text \<open>
  A new name takes the slot of a deleted entry when there is one: the table then neither grows
  nor asks for memory, whatever \<open>malloc\<close> would answer.
\<close>

lemma nut_set_reuses_deleted:
  assumes "nut_inv t" and "name_ok nm nlen" and "nut_abs t (nut_key nm nlen) = None"
    and "m < unat (entry_num t)" and "deleted (entries t ! m) = 1"
  shows "\<exists>t'. nut_set mal nm nlen a t = Some (1, t') \<and> nut_inv t'
            \<and> entry_num t' = entry_num t \<and> table_cap t' = table_cap t
            \<and> nut_abs t' = (nut_abs t)(nut_key nm nlen := Some [a])"
proof -
  have "used t ! m \<in> set (used t)" "deleted (used t ! m) = 1"
    using assms(4,5) inv_facts(2,8) [OF assms(1)] nth_mem [of m "used t"] by auto
  then have "idx_of is_deleted (used t) \<noteq> None" unfolding idx_of_None_iff by blast
  then obtain m' where "idx_of is_deleted (used t) = Some m'" by blast
  from nut_set_reuse [OF assms(1-3) this, of mal a] show ?thesis by auto
qed

lemma nut_set_reuses_deleted_witness:
  "\<exists>t t'. nut_set (\<lambda>_. None) ''b'' 1 (sample_port 2) t = Some (1, t') \<and> entry_num t' = entry_num t
     \<and> nut_abs t' ''b'' = Some [sample_port 2]"
proof -
  obtain t where t: "nut_inv t" "nut_abs t = (\<lambda>_. None)" "entry_num t = 0" by (rule sample_table)
  have k: "nut_key ''a'' 1 = ''a''" "name_ok ''a'' 1" "nut_key ''b'' 1 = ''b''" "name_ok ''b'' 1"
    by (simp_all add: nut_key_short name_ok_def)
  obtain t1 where t1: "nut_inv t1" "nut_abs t1 = [''a'' \<mapsto> [sample_port 1]]"
    using nut_set_refines_register [OF t(1) k(2), of sample_malloc "sample_port 1"] t k sample_malloc_good
    by (auto simp: register_def malloc_good_def)
  obtain m where m: "m < length (used t1)" "live_at ''a'' (used t1 ! m)"
    using nut_get_refines_lookup [OF t1(1) k(2)] t1(2) k(1) by auto
  then have live: "deleted (used t1 ! m) \<noteq> 1" "e_key (used t1 ! m) = ''a''"
    by (auto simp: live_at_def)
  then obtain t2 where t2: "nut_del (int m) t1 = Some t2" "nut_inv t2" "entry_num t2 = entry_num t1"
      "nut_abs t2 = Map.empty"
    using nut_del_eq [OF t1(1) m(1)] t1(2) by auto
  have "m < unat (entry_num t2)" "m < length (entries t1)"
    using m(1) inv_facts [OF t1(1)] t2(3) by auto
  moreover from this have "deleted (entries t2 ! m) = 1"
    using t2(1) by (auto simp: nut_del_def awrite_def aread_def)
  ultimately obtain t3 where "nut_set (\<lambda>_. None) ''b'' 1 (sample_port 2) t2 = Some (1, t3)"
      "entry_num t3 = entry_num t2" "nut_abs t3 = [''b'' \<mapsto> [sample_port 2]]"
    using nut_set_reuses_deleted [OF t2(2) k(4), of m "\<lambda>_. None" "sample_port 2"] t2(4) k(3) by auto
  then show ?thesis by (intro exI [of _ t2] exI [of _ t3]) simp
qed

text \<open>
  With working allocations \<open>nut_create\<close> gives an empty table of the capacity asked for if that
  is between 1 and 31, and of capacity 32 otherwise, also when more was asked for.
\<close>

lemma nut_create_empty:
  assumes "malloc_good mal"
  shows "\<exists>t. nut_create mal True sz = Some t \<and> nut_inv t \<and> nut_abs t = (\<lambda>_. None) \<and> entry_num t = 0
           \<and> int (unat (table_cap t)) = (if 0 < sz \<and> sz < 32 then sz else 32)"
  by (rule nut_create_eq [OF assms])

lemma nut_create_empty_witness:
  "\<exists>t. nut_create sample_malloc True 64 = Some t \<and> unat (table_cap t) = 32"
proof -
  obtain t where "nut_create sample_malloc True 64 = Some t" "int (unat (table_cap t)) = 32"
    using nut_create_empty [OF sample_malloc_good, of 64] by auto
  moreover from this(2) have "unat (table_cap t) = 32" by linarith
  ultimately show ?thesis by blast
qed

section \<open>Names that do not fit\<close>

text \<open>
  C40. Two names longer than 1024 bytes that end in the same 1024 bytes are one name to the table:
  after one is registered the other is found, whatever was registered before.
\<close>

theorem long_names_collide:
  assumes "nut_inv t" and "malloc_good mal" and "unat (entry_num t) < 2 ^ 30" and "length suf = 1024"
  shows "\<exists>r t' h. nut_set mal (p @ suf) (int (length (p @ suf))) a t = Some (r, t')
           \<and> nut_get t' (q @ suf) (int (length (q @ suf))) = Some (Some h)"
proof -
  have key: "nut_key (p @ suf) (int (length (p @ suf))) = suf" for p
    by (cases "p = []") (use assms(4) in \<open>simp_all add: nut_key_short nut_key_long\<close>)
  obtain t' where t': "nut_set mal (p @ suf) (int (length (p @ suf))) a t
          = Some (fst (nut_register suf a (nut_abs t)), t')"
      "nut_inv t'" "nut_abs t' = snd (nut_register suf a (nut_abs t))"
    using nut_set_refines_register [OF assms(1) name_ok_all, of mal "p @ suf" a] assms(2,3) key [of p]
    by (auto simp: malloc_good_def)
  have "nut_abs t' suf \<noteq> None"
    using t'(3) by (auto simp: register_def split: option.splits if_splits)
  then show ?thesis
    using nut_get_refines_lookup [OF t'(2) name_ok_all, of "q @ suf"] t'(1) key [of q] by auto
qed

theorem long_names_collide_witness:
  "\<exists>t r t' h. nut_set sample_malloc (''/x'' @ replicate 1024 CHR ''s'') 1026 (sample_port 1) t = Some (r, t')
     \<and> nut_get t' (''/other'' @ replicate 1024 CHR ''s'') 1030 = Some (Some h)"
proof -
  obtain t where t: "nut_inv t" "entry_num t = 0" by (rule sample_table)
  have "int (length (''/x'' @ replicate 1024 CHR ''s'')) = 1026"
    "int (length (''/other'' @ replicate 1024 CHR ''s'')) = 1030" by simp_all
  with long_names_collide [OF t(1) sample_malloc_good, of "replicate 1024 CHR ''s''" "''/x''" "sample_port 1" "''/other''"] t(2)
  show ?thesis by (metis length_replicate unat_0 zero_less_numeral zero_less_power)
qed

lemma namematch_negative: "nlen < 0 \<Longrightarrow> nut_entry_namematch e nm nlen = Some 0"
proof -
  assume "nlen < 0"
  then have "nlen \<noteq> uint (name_len e)" by (metis not_less uint_ge_0)
  with \<open>nlen < 0\<close> show ?thesis by (simp add: nut_entry_namematch_def truncate_name_def MAX_NAMELEN_def)
qed

lemma nut_set_loop_negative:
  assumes "nlen < 0" and "nut_set_loop t nm nlen a i fd = Some r"
  shows "\<exists>j fd'. r = Ran_out j fd'"
  using assms(2)
proof (induction "nat (sint (entry_num t) - i)" arbitrary: i fd)
  case 0
  then show ?case by (subst (asm) nut_set_loop.simps) auto
next
  case (Suc d)
  have "d = nat (sint (entry_num t) - (i + 1))" using Suc.hyps(2) by simp
  note IH = Suc.hyps(1) [OF this]
  have i: "i < sint (entry_num t)" using Suc.hyps(2) by simp
  show ?case
  proof (cases "aread (entries t) i")
    case None
    with Suc.prems i show ?thesis by (subst (asm) nut_set_loop.simps) simp
  next
    case (Some e)
    show ?thesis
    proof (cases "deleted e = 1")
      case True
      with Some Suc.prems i
      have "nut_set_loop t nm nlen a (i + 1) (if fd = -1 then i else fd) = Some r"
        by (subst (asm) nut_set_loop.simps) simp
      then show ?thesis by (rule IH)
    next
      case False
      with Some Suc.prems i have "nut_set_loop t nm nlen a (i + 1) fd = Some r"
        by (subst (asm) nut_set_loop.simps) (simp add: namematch_negative [OF assms(1)])
      then show ?thesis by (rule IH)
    qed
  qed
qed

lemma new_entry_negative: "nlen < 0 \<Longrightarrow> new_entry nm nlen a slot t = None"
  by (auto simp: new_entry_def truncate_name_def MAX_NAMELEN_def amemcpy_def split: bind_splits)

text \<open>
  The length is not checked.  A length above 2^31 in a packet is negative as an \<open>int\<close>: no
  entry matches it, and \<open>nut_set\<close> ends in a \<open>memcpy\<close> of nearly 2^64 bytes.
\<close>

lemma nut_set_negative_length_faults:
  assumes "nlen < 0"
  shows "nut_set mal nm nlen a t = None"
proof (cases "nut_set_loop t nm nlen a 0 (-1)")
  case None
  then show ?thesis by (simp add: nut_set_unfold)
next
  case (Some r)
  with nut_set_loop_negative [OF assms] obtain j fd where "r = Ran_out j fd" by blast
  with Some show ?thesis
    by (auto simp: nut_set_unfold new_entry_negative [OF assms] split: bind_splits)
qed

lemma nut_set_negative_length_faults_witness:
  "\<forall>t. nut_set sample_malloc ''a'' (sint (0xFFFFFFFF :: u32)) (sample_port 1) t = None"
  by (intro allI nut_set_negative_length_faults) simp

section \<open>The test program\<close>

text \<open>
  C33. The repository's test of the table passes: with memory for the table and a working \<open>malloc\<close> every assertion of
  \<open>nut_test.c\<close> holds, whatever the memory and the uninitialised addresses hold; the last ones say that a deleted
  slot is reused and that the table grows from 4 to 8 entries.  Without memory for the table it ends in an access
  through \<open>NULL\<close>, which nothing checks.
\<close>

theorem nut_test_passes:
  assumes "malloc_good mal"
  shows "nut_test mal True stack = Some True \<and> nut_test mal False stack = None"
proof -
  let ?a = "test_addr stack" and ?p = "c_str ''prefix1''" and ?q = "c_str ''prefix2''"
  obtain t0 t1 t2 t3 t4 t5 where r: "nut_create mal True 4 = Some t0"
    "nut_set mal ?p (strlen ?p) (?a 1) t0 = Some (1, t1)" "nut_set mal ?p (strlen ?p) (?a 2) t1 = Some (1, t2)"
    "nut_set mal ?q (strlen ?q) (?a 3) t2 = Some (1, t3)" "nut_set mal ?q (strlen ?q) (?a 4) t3 = Some (1, t4)"
    "nut_set mal ?p (strlen ?p) (?a 1) t4 = Some (0, t5)"
    and t5: "holds t5 [''prefix1'' \<mapsto> [?a 1, ?a 2], ''prefix2'' \<mapsto> [?a 3, ?a 4]] 2 4 [False, False]"
    by (rule registrations [OF assms, where stack = stack])
  have ok: "name_ok ?p (strlen ?p)" "name_ok ?q (strlen ?q)" by (rule literal; simp)+
  have key: "nut_key ?p (strlen ?p) = ''prefix1''" "nut_key ?q (strlen ?q) = ''prefix2''" by (rule literal; simp)+
  have f5: "[''prefix1'' \<mapsto> [?a 1, ?a 2], ''prefix2'' \<mapsto> [?a 3, ?a 4]] (nut_key ?p (strlen ?p)) = Some [?a 1, ?a 2]"
    by (simp add: key)
  obtain m e where g: "nut_get t5 ?p (strlen ?p) = Some (Some (int m))" "aread (entries t5) (int m) = Some e" "m < length [False, False]"
      "e_addrs e = [?a 1, ?a 2]" "unat (addr_num e) = length [?a 1, ?a 2]" "length (e_addr e) = 8"
    and ex: "\<exists>t6. nut_del (int m) t5 = Some t6 \<and> holds t6 ([''prefix1'' \<mapsto> [?a 1, ?a 2], ''prefix2'' \<mapsto> [?a 3, ?a 4]]
        (nut_key ?p (strlen ?p) := None)) 2 4 ([False, False][m := True])"
    by (rule holds_get [OF t5 ok(1) f5])
  then obtain t6 where t6: "nut_del (int m) t5 = Some t6"
      "holds t6 [''prefix2'' \<mapsto> [?a 3, ?a 4]] 2 4 ([False, False][m := True])"
    by (auto simp: key fun_upd_twist)
  have f6: "[''prefix2'' \<mapsto> [?a 3, ?a 4]] (nut_key ?q (strlen ?q)) = Some [?a 3, ?a 4]" by (simp add: key)
  obtain m' e' where h: "nut_get t6 ?q (strlen ?q) = Some (Some (int m'))" "aread (entries t6) (int m') = Some e'"
      "e_addrs e' = [?a 3, ?a 4]" "unat (addr_num e') = length [?a 3, ?a 4]" "length (e_addr e') = 8"
    by (rule holds_get [OF t6(2) ok(2) f6])
  have gone: "nut_get t6 ?p (strlen ?p) = Some None" by (rule holds_get_none [OF t6(2) ok(1)]) (simp add: key)
  obtain t7 t8 t9 t10 where n:
    "nut_set mal (c_str ''prefix3'') (strlen (c_str ''prefix3'')) (?a 5) t6 = Some (1, t7)" "entry_num t7 = 2" "table_cap t7 = 4"
    "nut_set mal (c_str ''prefix4'') (strlen (c_str ''prefix4'')) (?a 6) t7 = Some (1, t8)"
    "nut_set mal (c_str ''prefix5'') (strlen (c_str ''prefix5'')) (?a 7) t8 = Some (1, t9)"
    "nut_set mal (c_str ''prefix6'') (strlen (c_str ''prefix6'')) (?a 8) t9 = Some (1, t10)" "entry_num t10 = 5" "table_cap t10 = 8"
    by (rule reuse_and_growth [OF assms t6(2), of "?a 5" "?a 6" "?a 7" "?a 8"]) (use g(3) in auto)
  have "addr_num e = 2" using g(5) by (simp add: word_unat_eq_iff)
  moreover have "two_ports e 1 2 = Some True" "two_ports e' 3 4 = Some True"
    using two_ports_eq [OF g(4) _ g(6)] two_ports_eq [OF h(3) _ h(5)] g(5) h(4) by (simp_all add: test_addr_def)
  ultimately show ?thesis
    using g(1,2) h(1,2) by (simp add: nut_test_def nut_create_def [of mal False] Let_def check_def entry_of_def r t6(1) gone n del: One_nat_def)
qed

theorem nut_test_passes_witness:
  "nut_test sample_malloc True (\<lambda>_. sample_port 0) = Some True"
  using nut_test_passes [OF sample_malloc_good, of "\<lambda>_. sample_port 0"] by blast

end
