(* ===== verification/Buffers.thy ===== *)
theory Buffers
  imports Mixsim_Prelude
begin

text \<open>
  \<open>struct simple_name_data\<close> of \<open>adaptor.h\<close>: the packet format between the simulator and the adaptor
  and at the same time the buffer that travels through the adaptor's queues.  The code receives
  datagrams into it with \<open>memcpy\<close> and sends it as a block of memory, so besides the record its
  memory layout matters: two 32-bit words in little-endian order (the byte order of the machines
  the adaptor is built for, x86-64 and ARM), then the name and the content, 2048 bytes in all.
\<close>

record simple_name_data =
  nd_nlen :: u32
  nd_dlen :: u32
  nd_buf :: "char list"

definition sizeof_simple_name_data :: nat where "sizeof_simple_name_data = 2048"

definition nd_ok :: "simple_name_data \<Rightarrow> bool" where
  "nd_ok d \<longleftrightarrow> length (nd_buf d) = 2040"

text \<open>The lengths in the header fit: that of the name, those of name and content together.\<close>

definition name_fits :: "simple_name_data \<Rightarrow> bool" where
  "name_fits d \<longleftrightarrow> unat (nd_nlen d) \<le> 2040"

definition packet_wf :: "simple_name_data \<Rightarrow> bool" where
  "packet_wf d \<longleftrightarrow> unat (nd_nlen d) + unat (nd_dlen d) \<le> 2040"

lemma packet_wf_fits: "packet_wf d \<Longrightarrow> name_fits d"
  by (simp add: packet_wf_def name_fits_def)

section \<open>Memory layout\<close>

definition u32_bytes :: "u32 \<Rightarrow> char list" where
  "u32_bytes w = map (\<lambda>i. char_of (unat (drop_bit (8 * i) w))) [0, 1, 2, 3]"

definition bytes_u32 :: "char list \<Rightarrow> u32" where
  "bytes_u32 cs = word_of_nat (horner_sum of_char 256 cs)"

definition nd_bytes :: "simple_name_data \<Rightarrow> char list" where
  "nd_bytes d = u32_bytes (nd_nlen d) @ u32_bytes (nd_dlen d) @ nd_buf d"

definition nd_of_bytes :: "char list \<Rightarrow> simple_name_data" where
  "nd_of_bytes bs = \<lparr>nd_nlen = bytes_u32 (take 4 bs), nd_dlen = bytes_u32 (take 4 (drop 4 bs)),
                     nd_buf = drop 8 bs\<rparr>"

text \<open>\<open>memcpy(data, bs, length)\<close> onto the whole structure.\<close>

definition nd_memcpy :: "simple_name_data \<Rightarrow> char list \<Rightarrow> simple_name_data option" where
  "nd_memcpy d bs = map_option nd_of_bytes (amemcpy (nd_bytes d) 0 bs (int (length bs)))"

section \<open>The layout is faithful\<close>

lemma length_u32_bytes [simp]: "length (u32_bytes w) = 4"
  by (simp add: u32_bytes_def)

lemma digits_256:
  "n mod 256 + 256 * (n div 256 mod 256 + 256 * (n div 65536 mod 256 + 256 * (n div 16777216))) = (n :: nat)"
proof -
  have q: "n div 65536 = n div 256 div 256" "n div 16777216 = n div 256 div 256 div 256"
    by (simp_all add: div_mult2_eq [symmetric])
  show ?thesis
    unfolding q using mult_div_mod_eq [of 256 n] mult_div_mod_eq [of 256 "n div 256"]
      mult_div_mod_eq [of 256 "n div 256 div 256"] by simp
qed

lemma bytes_u32_bytes [simp]: "bytes_u32 (u32_bytes w) = w"
proof -
  have "unat w div 16777216 < 256"
    using unsigned_less [of w, where 'a = nat] by (simp add: less_mult_imp_div_less)
  then have top: "unat w div 16777216 mod 256 = unat w div 16777216" by (rule mod_less)
  have "horner_sum of_char 256 (u32_bytes w) = unat w"
    using digits_256 [of "unat w"] by (simp add: u32_bytes_def drop_bit_eq_div unat_div top)
  then show ?thesis by (simp add: bytes_u32_def)
qed

lemma of_char_less: "of_char c < (256 :: nat)"
  by (metis mod_less_divisor of_char_mod_256 zero_less_numeral)

lemma undigits_256:
  assumes "(a :: nat) < 256" "b < 256" "c < 256" "d < 256"
  defines "n \<equiv> a + 256 * (b + 256 * (c + 256 * d))"
  shows "n < 4294967296" "n mod 256 = a" "n div 256 mod 256 = b" "n div 65536 mod 256 = c"
    "n div 16777216 mod 256 = d"
proof -
  have q: "n div 256 = b + 256 * (c + 256 * d)" using assms(1) by (simp add: n_def)
  have q2: "n div 65536 = c + 256 * d"
    using q assms(2) div_mult2_eq [of n 256 256] by simp
  have q3: "n div 16777216 = d"
    using q2 assms(3) div_mult2_eq [of n 65536 256] by simp
  show "n mod 256 = a" using assms(1) by (simp only: n_def mod_mult_self2 mod_less)
  show "n div 256 mod 256 = b" unfolding q using assms(2) by (simp only: mod_mult_self2 mod_less)
  show "n div 65536 mod 256 = c" unfolding q2 using assms(3) by (simp only: mod_mult_self2 mod_less)
  show "n div 16777216 mod 256 = d" unfolding q3 using assms(4) by simp
  show "n < 4294967296" using assms by simp
qed

lemma unat_of_nat_small: "m < 4294967296 \<Longrightarrow> unat (word_of_nat m :: u32) = m"
  by (simp add: unsigned_of_nat take_bit_nat_eq_self)

lemma u32_bytes_u32:
  assumes "length cs = 4"
  shows "u32_bytes (bytes_u32 cs) = cs"
proof -
  obtain a b c d where cs: "cs = [a, b, c, d]"
    using assms by (auto simp: numeral_eq_Suc length_Suc_conv)
  note n = undigits_256 [OF of_char_less of_char_less of_char_less of_char_less, of a b c d]
  have "unat (bytes_u32 cs) = horner_sum of_char 256 cs"
    unfolding bytes_u32_def using n(1) by (intro unat_of_nat_small) (simp add: cs)
  then show ?thesis
    using n(2-)
    by (simp add: u32_bytes_def drop_bit_eq_div unat_div cs char_of_eq_iff take_bit_eq_mod)
qed

lemma nd_of_nd_bytes [simp]: "nd_of_bytes (nd_bytes d) = d"
  by (simp add: nd_of_bytes_def nd_bytes_def)

lemma nd_bytes_nd_of: "8 \<le> length bs \<Longrightarrow> nd_bytes (nd_of_bytes bs) = bs"
  by (simp add: nd_bytes_def nd_of_bytes_def u32_bytes_u32)
     (metis add_diff_cancel_left' append_take_drop_id drop_drop numeral_Bit0 take_drop)

lemma length_nd_bytes: "nd_ok d \<Longrightarrow> length (nd_bytes d) = 2048"
  by (simp add: nd_bytes_def nd_ok_def)

lemma nd_memcpy_eq:
  assumes "nd_ok d"
  shows "nd_memcpy d bs =
    (if length bs \<le> 2048 then Some (nd_of_bytes (bs @ drop (length bs) (nd_bytes d))) else None)"
  using length_nd_bytes [OF assms] by (simp add: nd_memcpy_def amemcpy_def)

lemma nd_memcpy_ok: "nd_ok d \<Longrightarrow> nd_memcpy d bs = Some d' \<Longrightarrow> nd_ok d'"
  by (auto simp: nd_memcpy_eq nd_ok_def nd_of_bytes_def length_nd_bytes split: if_splits)

text \<open>A datagram that holds the header replaces header and name; the rest of the buffer stays.\<close>

lemma nd_memcpy_fields:
  assumes "nd_ok d" "8 \<le> length bs" "length bs \<le> 2048"
  shows "nd_memcpy d bs = Some \<lparr>nd_nlen = bytes_u32 (take 4 bs), nd_dlen = bytes_u32 (take 4 (drop 4 bs)),
           nd_buf = drop 8 bs @ drop (length bs - 8) (nd_buf d)\<rparr>"
  using assms by (simp add: nd_memcpy_eq nd_of_bytes_def nd_bytes_def)

end
