(* ===== verification/Nsocket.thy ===== *)
theory Nsocket
  imports Mixsim_Prelude
begin

text \<open>
  The part of \<open>nsocket.h\<close> and \<open>isockethdr.h\<close> the programs use: packet types and flags, the buffer
  descriptor \<open>struct isockbuf\<close> of the named-data socket calls, and \<open>_get_nlen\<close>.

  A \<open>char *\<close> is the list of the bytes that may be read from it on.  The two variants of the union in
  \<open>struct isockbuf\<close> start with a byte (\<open>i_flags\<close>, \<open>d_type\<close>) and a 32-bit word at the same offset
  (\<open>i_life_time\<close>, \<open>fresh_period\<close>), so the model has one field for each pair; the members behind
  them are not used by any code of the repository.
\<close>

definition TYPE_INTEREST :: u32 where "TYPE_INTEREST = 0x05"
definition TYPE_DATA :: u32 where "TYPE_DATA = 0x06"

definition I_CANBEPREFIX :: u8 where "I_CANBEPREFIX = 0x02"
definition I_MUSTBEFRESH :: u8 where "I_MUSTBEFRESH = 0x04"

definition D_BLOB :: u8 where "D_BLOB = 0x00"
definition D_NACK :: u8 where "D_NACK = 0x01"

record isockbuf =
  ib_type :: u32
  ib_name :: "char list"
  ib_nlen :: u16
  ib_data :: "char list"
  ib_dlen :: u64
  ib_flags :: u8
  ib_time :: u32

definition i_flags :: "isockbuf \<Rightarrow> u8" where "i_flags = ib_flags"
definition d_type :: "isockbuf \<Rightarrow> u8" where "d_type = ib_flags"
definition i_life_time :: "isockbuf \<Rightarrow> u32" where "i_life_time = ib_time"
definition fresh_period :: "isockbuf \<Rightarrow> u32" where "fresh_period = ib_time"

text \<open>
  \<open>_get_nlen(name, bound)\<close>: the number of bytes before the first newline, at most up to \<open>bound\<close>.
  The arguments are the bytes readable at \<open>name\<close> and the distance \<open>bound - name\<close>.
\<close>

function get_nlen_loop :: "char list \<Rightarrow> int \<Rightarrow> int \<Rightarrow> int option" where
  "get_nlen_loop nm bound i =
     (if i < bound
      then do { c \<leftarrow> aread nm i; if c = CHR 0x0A then Some i else get_nlen_loop nm bound (i + 1) }
      else Some i)"
  by pat_completeness auto
termination
  by (relation "measure (\<lambda>(nm, bound, i). nat (bound - i))") auto

declare get_nlen_loop.simps [simp del]

definition get_nlen :: "char list \<Rightarrow> int \<Rightarrow> int option" where
  "get_nlen nm bound = get_nlen_loop nm bound 0"

end
