(* ===== verification/Adaptor.thy ===== *)
theory Adaptor
  imports Lfq Nut Buffers Nsocket
begin

text \<open>
  The adaptor of \<open>adaptor.c\<close>, \<open>udp_adaptor.c\<close> and \<open>nip_adaptor.c\<close>: eight coroutines on one thread
  that move packets between UDP sockets (the simulator and its clients) and named-data sockets (the
  real network), through four queues, with a free list of packet buffers and the name table.

  Coroutines are scheduled by the library dyco, which is not part of the repository.  A coroutine
  runs until it calls dyco (a receive, a send, a sleep, a wait), where any other coroutine may run.
  The model of a coroutine is one function that resumes it: it continues from the call it was
  suspended in, which its part of the state records, to the next call that suspends it.  Where a
  loop goes round without suspending, the model may suspend: it has the runs of the code, and
  some more.  What dyco, the sockets and the allocator answer are arguments.

  The five queues are a family indexed by their names.  Buffers have addresses in a store; a copy
  to or from an address without a buffer, or past the end of a buffer, is undefined.
\<close>

section \<open>State\<close>

datatype queue_id =
    Realtosim_interest_queue
  | Simtoreal_interest_queue
  | Simtoreal_data_queue
  | Realtosim_data_queue
  | Freebuf_list

text \<open>
  Where \<open>udp_data_out\<close> is suspended: in the \<open>dyco_sendto\<close> to the endpoint number \<open>sd_i\<close> of the entry
  \<open>sd_entry\<close> of the array the table had when \<open>nut_get\<close> returned it.
\<close>

record sending_data =
  sd_data :: addr
  sd_entry :: int
  sd_array :: nat
  sd_i :: int

text \<open>
  \<open>nut_array\<close> numbers the arrays \<open>entries\<close> has pointed to: \<open>nut_grow\<close> frees the array and makes
  pointers into it invalid.  The \<open>at_\<close> fields hold the buffer a coroutine is suspended with, the \<open>ibuf_\<close>
  fields the descriptor that lives on a coroutine's stack across its iterations.
\<close>

record adaptor =
  queues :: "queue_id \<Rightarrow> lfq"
  nut_table :: nut
  nut_array :: nat
  bufs :: "addr \<Rightarrow> simple_name_data option"
  at_udp_interest_out :: "addr option"
  at_udp_data_out :: "sending_data option"
  at_nip_data_out :: "addr option"
  at_nip_interest_out :: "addr option"
  ibuf_nip_interest_in :: isockbuf
  ibuf_nip_data_in :: isockbuf

text \<open>
  The memory a step gets: what the allocator answers, a buffer with its content and a queue node, and what the
  place on the stack holds where the step declares a descriptor.
\<close>

record allocs =
  m_buf :: addr
  m_junk :: simple_name_data
  c_node :: addr
  s_junk :: isockbuf

text \<open>
  What leaves the adaptor: datagrams, and calls of \<open>isend\<close> with the descriptor passed to it.  The members of the
  descriptor the code does not set hold what was on the stack.
\<close>

datatype packet_out =
    Udp_out sockaddr_in "char list"
  | Nip_out isockbuf

section \<open>Queues and buffers\<close>

definition enq :: "queue_id \<Rightarrow> addr \<Rightarrow> addr \<Rightarrow> adaptor \<Rightarrow> adaptor option" where
  "enq i a p st = do {
     (r, q) \<leftarrow> lfq_enqueue a p (queues st i);
     Some (st\<lparr>queues := (queues st)(i := q)\<rparr>)
   }"

definition deq :: "queue_id \<Rightarrow> adaptor \<Rightarrow> (addr \<times> adaptor) option" where
  "deq i st = do {
     (p, q) \<leftarrow> lfq_dequeue (queues st i);
     Some (p, st\<lparr>queues := (queues st)(i := q)\<rparr>)
   }"

text \<open>A buffer of the free list, or a new one if the list is empty.\<close>

definition get_freebuf :: "allocs \<Rightarrow> adaptor \<Rightarrow> (addr \<times> adaptor) option" where
  "get_freebuf al st = do {
     (p, st) \<leftarrow> deq Freebuf_list st;
     if p = NULL
     then Some (m_buf al, if m_buf al = NULL then st
                          else st\<lparr>bufs := (bufs st)(m_buf al := Some (m_junk al))\<rparr>)
     else Some (p, st)
   }"

definition put_buf :: "addr \<Rightarrow> simple_name_data \<Rightarrow> adaptor \<Rightarrow> adaptor" where
  "put_buf p d st = st\<lparr>bufs := (bufs st)(p := Some d)\<rparr>"

section \<open>UDP coroutines\<close>

text \<open>\<open>htons\<close> on a little-endian machine.\<close>

definition htons :: "u16 \<Rightarrow> u16" where
  "htons w = or (push_bit 8 w) (drop_bit 8 w)"

text \<open>
  Both functions get the answers of the calls they make: the descriptor \<open>dyco_socket\<close> returned and
  what \<open>dyco_connect\<close> or \<open>bind\<close> returns for a descriptor and an address; \<open>inet_addr\<close> is a parameter.
\<close>

definition init_realtosim_udpsock ::
  "(char list \<Rightarrow> u32) \<Rightarrow> int \<Rightarrow> (int \<Rightarrow> sockaddr_in \<Rightarrow> int) \<Rightarrow> char list \<Rightarrow> int \<Rightarrow> int" where
  "init_realtosim_udpsock inet_addr clientfd dyco_connect ip port =
     (if clientfd \<le> 0 then -1
      else if dyco_connect clientfd
                \<lparr>sin_family = 2, sin_port = htons (word_of_int port), sin_addr = inet_addr ip\<rparr> \<noteq> 0
      then -2 else clientfd)"

definition init_udpsock ::
  "(char list \<Rightarrow> u32) \<Rightarrow> int \<Rightarrow> (int \<Rightarrow> sockaddr_in \<Rightarrow> int) \<Rightarrow> char list \<Rightarrow> int \<Rightarrow> int" where
  "init_udpsock inet_addr clientfd bind_sock ip port =
     (if clientfd \<le> 0 then -1
      else if bind_sock clientfd
                \<lparr>sin_family = 2, sin_port = htons (word_of_int port), sin_addr = inet_addr ip\<rparr> \<noteq> 0
      then -2 else clientfd)"

text \<open>A receive of length 0 or less is the empty datagram here: the coroutine sleeps.\<close>

definition udp_data_in :: "char list \<Rightarrow> allocs \<Rightarrow> adaptor \<Rightarrow> (packet_out list \<times> adaptor) option" where
  "udp_data_in dgram al st =
     (if dgram = [] then Some ([], st)
      else do {
        (data, st) \<leftarrow> get_freebuf al st;
        d \<leftarrow> bufs st data;
        d \<leftarrow> nd_memcpy d dgram;
        st \<leftarrow> enq Simtoreal_data_queue (c_node al) data (put_buf data d st);
        Some ([], st)
      })"

text \<open>The simulator's address, \<open>192.168.3.168:8787\<close>.\<close>

definition sim_addr :: "(char list \<Rightarrow> u32) \<Rightarrow> sockaddr_in" where
  "sim_addr inet_addr =
     \<lparr>sin_family = 2, sin_port = htons 8787, sin_addr = inet_addr ''192.168.3.168''\<rparr>"

definition udp_interest_out ::
  "(char list \<Rightarrow> u32) \<Rightarrow> allocs \<Rightarrow> adaptor \<Rightarrow> (packet_out list \<times> adaptor) option" where
  "udp_interest_out inet_addr al st =
     (case at_udp_interest_out st of
        None \<Rightarrow> do {
          (interest, st) \<leftarrow> deq Realtosim_interest_queue st;
          if interest = NULL then Some ([], st)
          else do {
            d \<leftarrow> bufs st interest;
            Some ([Udp_out (sim_addr inet_addr) (nd_bytes d)],
                  st\<lparr>at_udp_interest_out := Some interest\<rparr>)
          }
        }
      | Some interest \<Rightarrow> do {
          st \<leftarrow> enq Freebuf_list (c_node al) interest st;
          Some ([], st\<lparr>at_udp_interest_out := None\<rparr>)
        })"

text \<open>
  \<open>nut_set\<close> grows the table, and so replaces its array, exactly when its loop ends without a match
  or a deleted slot and the array is full.
\<close>

definition nut_set_grows :: "char list \<Rightarrow> int \<Rightarrow> sockaddr_in \<Rightarrow> nut \<Rightarrow> bool" where
  "nut_set_grows nm nlen a table =
     (nut_set_loop table nm nlen a 0 (-1) = Some (Ran_out (sint (table_cap table)) (-1)))"

definition udp_interest_in ::
  "malloc \<Rightarrow> char list \<Rightarrow> sockaddr_in \<Rightarrow> allocs \<Rightarrow> adaptor \<Rightarrow> (packet_out list \<times> adaptor) option" where
  "udp_interest_in mal dgram clientaddr al st =
     (if dgram = [] then Some ([], st)
      else do {
        (interest, st) \<leftarrow> get_freebuf al st;
        d \<leftarrow> bufs st interest;
        d \<leftarrow> nd_memcpy d dgram;
        (r, t) \<leftarrow> nut_set mal (nd_buf d) (sint (nd_nlen d)) clientaddr (nut_table st);
        let grows = nut_set_grows (nd_buf d) (sint (nd_nlen d)) clientaddr (nut_table st);
        let st = (put_buf interest d st)
                   \<lparr>nut_table := t, nut_array := nut_array st + (if grows then 1 else 0)\<rparr>;
        if r = 1
        then do {
          st \<leftarrow> enq Simtoreal_interest_queue (c_node al) interest st;
          Some ([], st)
        }
        else Some ([], st)
      })"

text \<open>
  The sending loop of \<open>udp_data_out\<close> from its test on.  \<open>entry\<close> is a pointer into the array that was
  current at the look-up; when another one is current the access is undefined.
\<close>

definition entry_at :: "sending_data \<Rightarrow> adaptor \<Rightarrow> nut_entry option" where
  "entry_at sd st =
     (if sd_array sd = nut_array st then aread (entries (nut_table st)) (sd_entry sd) else None)"

definition udp_data_out_loop ::
  "sending_data \<Rightarrow> allocs \<Rightarrow> adaptor \<Rightarrow> (packet_out list \<times> adaptor) option" where
  "udp_data_out_loop sd al st = do {
     e \<leftarrow> entry_at sd st;
     if sd_i sd < uint (addr_num e)
     then do {
       d \<leftarrow> bufs st (sd_data sd);
       a \<leftarrow> aread (e_addr e) (sd_i sd);
       Some ([Udp_out a (nd_bytes d)], st\<lparr>at_udp_data_out := Some sd\<rparr>)
     }
     else do {
       t \<leftarrow> nut_del (sd_entry sd) (nut_table st);
       st \<leftarrow> enq Freebuf_list (c_node al) (sd_data sd) (st\<lparr>nut_table := t\<rparr>);
       Some ([], st\<lparr>at_udp_data_out := None\<rparr>)
     }
   }"

definition udp_data_out :: "allocs \<Rightarrow> adaptor \<Rightarrow> (packet_out list \<times> adaptor) option" where
  "udp_data_out al st =
     (case at_udp_data_out st of
        None \<Rightarrow> do {
          (data, st) \<leftarrow> deq Realtosim_data_queue st;
          if data = NULL then Some ([], st)
          else do {
            d \<leftarrow> bufs st data;
            entry \<leftarrow> nut_get (nut_table st) (nd_buf d) (sint (nd_nlen d));
            case entry of
              None \<Rightarrow> Some ([], st)
            | Some entry \<Rightarrow>
                udp_data_out_loop
                  \<lparr>sd_data = data, sd_entry = entry, sd_array = nut_array st, sd_i = 0\<rparr> al st
          }
        }
      | Some sd \<Rightarrow> do {
          e \<leftarrow> entry_at sd st;
          a \<leftarrow> aread (e_addr e) (sd_i sd);
          udp_data_out_loop (sd\<lparr>sd_i := sd_i sd + 1\<rparr>) al st
        })"

section \<open>Named-data coroutines\<close>

definition BIND_PREFIX :: u16 where "BIND_PREFIX = 1"

record nsockaddr =
  ns_family :: u16
  ns_enable_mask :: u16
  ns_prefix :: "char list"
  ns_plen :: nat

definition init_realtosim_nipsock :: "int \<Rightarrow> (int \<Rightarrow> nsockaddr \<Rightarrow> int) \<Rightarrow> int" where
  "init_realtosim_nipsock clientfd bind_sock =
     (if clientfd \<le> 0 then -1
      else if bind_sock clientfd \<lparr>ns_family = 0, ns_enable_mask = BIND_PREFIX,
             ns_prefix = ''/Rpi-1/lab1038'', ns_plen = length ''/Rpi-1/lab1038''\<rparr> < 0
      then -2 else clientfd)"

definition init_simtoreal_nipsock :: "int \<Rightarrow> int" where
  "init_simtoreal_nipsock clientfd = (if clientfd \<le> 0 then -1 else clientfd)"

definition MAX_NAME_LEN :: u16 where "MAX_NAME_LEN = 1024"
definition MAX_DATA_LEN :: u64 where "MAX_DATA_LEN = 2048"

text \<open>
  The descriptor the two sending coroutines make for a buffer and pass to \<open>isend\<close>.  Its \<open>data\<close> points behind the name:
  with a name longer than \<open>buf\<close> the pointer is outside the array, which is undefined already.  \<open>isend\<close> reads as many bytes
  as the two lengths of the descriptor say, the first of which has been cut to 16 bits.
\<close>

definition isend_reads_within :: "isockbuf \<Rightarrow> bool" where
  "isend_reads_within ib = (unat (ib_nlen ib) \<le> length (ib_name ib) \<and> unat (ib_dlen ib) \<le> length (ib_data ib))"

definition send_ibuf :: "u32 \<Rightarrow> u64 \<Rightarrow> simple_name_data \<Rightarrow> isockbuf \<Rightarrow> isockbuf option" where
  "send_ibuf type dlen d junk =
     (if unat (nd_nlen d) \<le> length (nd_buf d)
      then let ibuf = junk\<lparr>ib_type := type, ib_name := nd_buf d, ib_nlen := ucast (nd_nlen d),
                           ib_data := drop (unat (nd_nlen d)) (nd_buf d), ib_dlen := dlen\<rparr>
           in if isend_reads_within ibuf then Some ibuf else None
      else None)"

text \<open>
  \<open>irecv\<close> maps the descriptor it is given to its result and the descriptor as it leaves it.  While
  \<open>dyco_coroutine_waitRead\<close> answers 0 or less the coroutine goes on waiting.
\<close>

definition nip_interest_in ::
  "int \<Rightarrow> (isockbuf \<Rightarrow> int \<times> isockbuf) \<Rightarrow> allocs \<Rightarrow> adaptor \<Rightarrow> (packet_out list \<times> adaptor) option" where
  "nip_interest_in wait irecv al st =
     (if wait \<le> 0 then Some ([], st)
      else
        let (len, ibuf) = irecv ((ibuf_nip_interest_in st)
              \<lparr>ib_type := TYPE_INTEREST, ib_nlen := MAX_NAME_LEN, ib_dlen := MAX_DATA_LEN\<rparr>);
            st = st\<lparr>ibuf_nip_interest_in := ibuf\<rparr>
        in if len \<le> 0 then Some ([], st)
           else do {
             (interest, st) \<leftarrow> get_freebuf al st;
             d \<leftarrow> bufs st interest;
             let nl = (ucast (ib_nlen ibuf) :: u32);
             b \<leftarrow> amemcpy (nd_buf d) 0 (ib_name ibuf) (uint nl);
             st \<leftarrow> enq Realtosim_interest_queue (c_node al) interest
                     (put_buf interest (d\<lparr>nd_nlen := nl, nd_buf := b, nd_dlen := 0\<rparr>) st);
             Some ([], st)
           })"

definition nip_data_out :: "int \<Rightarrow> allocs \<Rightarrow> adaptor \<Rightarrow> (packet_out list \<times> adaptor) option" where
  "nip_data_out wait al st =
     (case at_nip_data_out st of
        None \<Rightarrow> do {
          (databuf, st) \<leftarrow> deq Simtoreal_data_queue st;
          if databuf = NULL then Some ([], st)
          else Some ([], st\<lparr>at_nip_data_out := Some databuf\<rparr>)
        }
      | Some databuf \<Rightarrow>
          if wait \<le> 0 then Some ([], st)
          else do {
            d \<leftarrow> bufs st databuf;
            ibuf \<leftarrow> send_ibuf TYPE_DATA (ucast (nd_dlen d)) d (s_junk al);
            st \<leftarrow> enq Freebuf_list (c_node al) databuf st;
            Some ([Nip_out ibuf], st\<lparr>at_nip_data_out := None\<rparr>)
          })"

text \<open>
  What \<open>printf\<close> with the format \<open>%.*s\<close> reads: a precision limits the bytes, a negative one does not,
  and a zero byte ends the string.
\<close>

definition printf_reads_within :: "int \<Rightarrow> char list \<Rightarrow> bool" where
  "printf_reads_within prec cs =
     (CHR 0x00 \<in> set (if prec < 0 then cs else take (nat prec) cs)
      \<or> (0 \<le> prec \<and> prec \<le> int (length cs)))"

definition nip_interest_out :: "int \<Rightarrow> allocs \<Rightarrow> adaptor \<Rightarrow> (packet_out list \<times> adaptor) option" where
  "nip_interest_out wait al st =
     (case at_nip_interest_out st of
        None \<Rightarrow> do {
          (interestbuf, st) \<leftarrow> deq Simtoreal_interest_queue st;
          if interestbuf = NULL then Some ([], st)
          else do {
            d \<leftarrow> bufs st interestbuf;
            if printf_reads_within (sint (nd_nlen d)) (nd_buf d)
            then Some ([], st\<lparr>at_nip_interest_out := Some interestbuf\<rparr>)
            else None
          }
        }
      | Some interestbuf \<Rightarrow>
          if wait \<le> 0 then Some ([], st)
          else do {
            d \<leftarrow> bufs st interestbuf;
            ibuf \<leftarrow> send_ibuf TYPE_INTEREST 0 d (s_junk al);
            st \<leftarrow> enq Freebuf_list (c_node al) interestbuf st;
            Some ([Nip_out ibuf], st\<lparr>at_nip_interest_out := None\<rparr>)
          })"

text \<open>The content length is cut to an \<open>int\<close> and then stored in 32 bits: its low 32 bits.\<close>

definition nip_data_in ::
  "int \<Rightarrow> (isockbuf \<Rightarrow> int \<times> isockbuf) \<Rightarrow> allocs \<Rightarrow> adaptor \<Rightarrow> (packet_out list \<times> adaptor) option" where
  "nip_data_in wait irecv al st =
     (if wait \<le> 0 then Some ([], st)
      else
        let (len, ibuf) = irecv ((ibuf_nip_data_in st)
              \<lparr>ib_type := TYPE_DATA, ib_nlen := MAX_NAME_LEN, ib_dlen := MAX_DATA_LEN\<rparr>);
            st = st\<lparr>ibuf_nip_data_in := ibuf\<rparr>
        in if len \<le> 0 then Some ([], st)
           else do {
             (data, st) \<leftarrow> get_freebuf al st;
             d \<leftarrow> bufs st data;
             let nl = (ucast (ib_nlen ibuf) :: u32);
             b \<leftarrow> amemcpy (nd_buf d) 0 (ib_name ibuf) (uint nl);
             d \<leftarrow> (if d_type ibuf = D_NACK
                    then Some (d\<lparr>nd_nlen := nl, nd_buf := b, nd_dlen := 0\<rparr>)
                    else do {
                      let dl = (ucast (ib_dlen ibuf) :: u32);
                      b \<leftarrow> amemcpy b (uint nl) (ib_data ibuf) (uint dl);
                      Some (d\<lparr>nd_nlen := nl, nd_buf := b, nd_dlen := dl\<rparr>)
                    });
             st \<leftarrow> enq Realtosim_data_queue (c_node al) data (put_buf data d st);
             Some ([], st)
           })"

section \<open>Start\<close>

text \<open>
  What the allocator answers in \<open>init_adaptor\<close>: for each queue the four answers \<open>lfq_init\<close> gets, the
  block of sixteen buffers with its content, the nodes for them in the free list, the memory for
  the name table.
\<close>

record init_allocs =
  i_tab_ok :: bool
  i_entries :: malloc
  i_node1 :: "queue_id \<Rightarrow> addr"
  i_node2 :: "queue_id \<Rightarrow> addr"
  i_HP_ok :: "queue_id \<Rightarrow> bool"
  i_tid_ok :: "queue_id \<Rightarrow> bool"
  i_freeblock :: addr
  i_junk :: "nat \<Rightarrow> simple_name_data"
  i_cnode :: "nat \<Rightarrow> addr"

definition init_queue :: "init_allocs \<Rightarrow> queue_id \<Rightarrow> adaptor \<Rightarrow> adaptor option" where
  "init_queue ia i st = do {
     (r, q) \<leftarrow> lfq_init (i_node1 ia i) (i_node2 ia i) (i_HP_ok ia i) (i_tid_ok ia i) 1 (queues st i);
     Some (st\<lparr>queues := (queues st)(i := q)\<rparr>)
   }"

definition block_addr :: "addr \<Rightarrow> nat \<Rightarrow> addr" where
  "block_addr freeblock i = freeblock + word_of_nat (sizeof_simple_name_data * i)"

definition add_block :: "init_allocs \<Rightarrow> adaptor \<Rightarrow> adaptor" where
  "add_block ia st =
     (if i_freeblock ia = NULL then st
      else fold (\<lambda>i. put_buf (block_addr (i_freeblock ia) i) (i_junk ia i)) [0..<16] st)"

fun enq_blocks :: "init_allocs \<Rightarrow> nat \<Rightarrow> nat \<Rightarrow> adaptor \<Rightarrow> adaptor option" where
  "enq_blocks ia i 0 st = Some st"
| "enq_blocks ia i (Suc n) st = do {
     st \<leftarrow> enq Freebuf_list (i_cnode ia i) (block_addr (i_freeblock ia) i) st;
     enq_blocks ia (Suc i) n st
   }"

definition init_adaptor :: "init_allocs \<Rightarrow> adaptor \<Rightarrow> adaptor option" where
  "init_adaptor ia st = do {
     t \<leftarrow> nut_create (i_entries ia) (i_tab_ok ia) 64;
     st \<leftarrow> init_queue ia Freebuf_list (st\<lparr>nut_table := t\<rparr>);
     st \<leftarrow> enq_blocks ia 0 16 (add_block ia st);
     st \<leftarrow> init_queue ia Realtosim_interest_queue st;
     st \<leftarrow> init_queue ia Simtoreal_interest_queue st;
     st \<leftarrow> init_queue ia Simtoreal_data_queue st;
     init_queue ia Realtosim_data_queue st
   }"

text \<open>
  The sockets and the coroutines: each coroutine is created with the descriptor its socket function
  returned, whether it is one or an error code.  The four sockets are made in the order realtosim and
  simtoreal UDP, simtoreal and realtosim named-data; \<open>fd i\<close> is what the \<open>i\<close>-th \<open>dyco_socket\<close> returned.
\<close>

datatype coroutine =
    Co_udp_interest_out | Co_udp_interest_in | Co_udp_data_out | Co_udp_data_in
  | Co_nip_interest_out | Co_nip_interest_in | Co_nip_data_out | Co_nip_data_in

definition init_coroutines ::
  "(char list \<Rightarrow> u32) \<Rightarrow> (nat \<Rightarrow> int) \<Rightarrow> (int \<Rightarrow> sockaddr_in \<Rightarrow> int) \<Rightarrow> (int \<Rightarrow> nsockaddr \<Rightarrow> int)
     \<Rightarrow> (coroutine \<times> int) list" where
  "init_coroutines inet_addr fd bind_udp bind_nip =
     (let realtosim_udpsock = init_udpsock inet_addr (fd 0) bind_udp ''0.0.0.0'' 8797;
          simtoreal_udpsock = init_udpsock inet_addr (fd 1) bind_udp ''0.0.0.0'' 8798;
          simtoreal_nipsock = init_simtoreal_nipsock (fd 2);
          realtosim_nipsock = init_realtosim_nipsock (fd 3) bind_nip
      in [(Co_udp_interest_out, realtosim_udpsock), (Co_udp_interest_in, simtoreal_udpsock),
          (Co_udp_data_out, simtoreal_udpsock), (Co_udp_data_in, realtosim_udpsock),
          (Co_nip_interest_out, simtoreal_nipsock), (Co_nip_interest_in, realtosim_nipsock),
          (Co_nip_data_out, realtosim_nipsock), (Co_nip_data_in, simtoreal_nipsock)])"

section \<open>The running adaptor\<close>

text \<open>One event resumes one coroutine, with what its environment answers.\<close>

datatype event =
    Udp_data_in "char list" allocs
  | Udp_interest_out allocs
  | Udp_interest_in "char list" sockaddr_in allocs
  | Udp_data_out allocs
  | Nip_interest_in int "isockbuf \<Rightarrow> int \<times> isockbuf" allocs
  | Nip_data_out int allocs
  | Nip_interest_out int allocs
  | Nip_data_in int "isockbuf \<Rightarrow> int \<times> isockbuf" allocs

text \<open>\<open>inet_addr\<close> and the allocator of the name table do not change from event to event.\<close>

fun adaptor_step ::
  "(char list \<Rightarrow> u32) \<Rightarrow> malloc \<Rightarrow> event \<Rightarrow> adaptor \<Rightarrow> (packet_out list \<times> adaptor) option" where
  "adaptor_step ina mal (Udp_data_in dgram al) st = udp_data_in dgram al st"
| "adaptor_step ina mal (Udp_interest_out al) st = udp_interest_out ina al st"
| "adaptor_step ina mal (Udp_interest_in dgram a al) st = udp_interest_in mal dgram a al st"
| "adaptor_step ina mal (Udp_data_out al) st = udp_data_out al st"
| "adaptor_step ina mal (Nip_interest_in wait irecv al) st = nip_interest_in wait irecv al st"
| "adaptor_step ina mal (Nip_data_out wait al) st = nip_data_out wait al st"
| "adaptor_step ina mal (Nip_interest_out wait al) st = nip_interest_out wait al st"
| "adaptor_step ina mal (Nip_data_in wait irecv al) st = nip_data_in wait irecv al st"

fun adaptor_run ::
  "(char list \<Rightarrow> u32) \<Rightarrow> malloc \<Rightarrow> event list \<Rightarrow> adaptor \<Rightarrow> (packet_out list \<times> adaptor) option" where
  "adaptor_run ina mal [] st = Some ([], st)"
| "adaptor_run ina mal (ev # evs) st = do {
     (out, st) \<leftarrow> adaptor_step ina mal ev st;
     (outs, st) \<leftarrow> adaptor_run ina mal evs st;
     Some (out @ outs, st)
   }"

end
