(* ===== verification/Adaptor_Inv.thy ===== *)
theory Adaptor_Inv
  imports Adaptor Lfq_Seq Nut_Proofs "HOL-Library.Multiset"
begin

text \<open>
  Who owns which buffer.  The invariant of the running adaptor says what each queue holds and that a
  buffer is in one place only: in one of the queues, or with one suspended coroutine.  The lemmas
  give, for each coroutine and each place it can be resumed at, the step it takes.
\<close>

section \<open>Ownership\<close>

fun opt_list :: "'a option \<Rightarrow> 'a list" where
  "opt_list None = []"
| "opt_list (Some x) = [x]"

type_synonym contents = "queue_id \<Rightarrow> addr list"

definition held :: "adaptor \<Rightarrow> addr list" where
  "held st = opt_list (at_udp_interest_out st) @ opt_list (map_option sd_data (at_udp_data_out st))
           @ opt_list (at_nip_data_out st) @ opt_list (at_nip_interest_out st)"

definition queued :: "contents \<Rightarrow> addr list" where
  "queued c = c Realtosim_interest_queue @ c Simtoreal_interest_queue @ c Simtoreal_data_queue
            @ c Realtosim_data_queue @ c Freebuf_list"

definition owned :: "contents \<Rightarrow> adaptor \<Rightarrow> addr multiset" where
  "owned c st = mset (queued c) + mset (held st)"

text \<open>Buffers that are allocated and in no place: nothing will ever use or free them.\<close>

definition leaked :: "contents \<Rightarrow> adaptor \<Rightarrow> addr set" where
  "leaked c st = dom (bufs st) - set_mset (owned c st)"

lemma queued_cons:
  "c i = p # ps \<Longrightarrow> mset (queued c) = add_mset p (mset (queued (c(i := ps))))"
  by (cases i) (simp_all add: queued_def)

lemma queued_snoc:
  "mset (queued (c(i := c i @ [p]))) = add_mset p (mset (queued c))"
  by (cases i) (simp_all add: queued_def)

lemma set_queued: "set (c i) \<subseteq> set (queued c)"
  by (cases i) (auto simp: queued_def)

section \<open>The invariant\<close>

text \<open>
  The queues whose buffers hold a name that is going to be read with its length, and the one whose buffers are
  sent with both their lengths.
\<close>

definition named_queue :: "queue_id \<Rightarrow> bool" where
  "named_queue i \<longleftrightarrow> i = Realtosim_data_queue \<or> i = Simtoreal_interest_queue"

definition fits_queue :: "queue_id \<Rightarrow> simple_name_data \<Rightarrow> bool" where
  "fits_queue i d \<longleftrightarrow> (named_queue i \<longrightarrow> name_fits d) \<and> (i = Simtoreal_data_queue \<longrightarrow> packet_wf d)"

definition held_fits :: "adaptor \<Rightarrow> bool" where
  "held_fits st \<longleftrightarrow> (\<forall>p d. at_nip_interest_out st = Some p \<longrightarrow> bufs st p = Some d \<longrightarrow> name_fits d)
     \<and> (\<forall>p d. at_nip_data_out st = Some p \<longrightarrow> bufs st p = Some d \<longrightarrow> packet_wf d)"

lemma fits_queue_simps [simp]:
  "fits_queue Freebuf_list d" "fits_queue Realtosim_interest_queue d"
  "fits_queue Realtosim_data_queue d = name_fits d" "fits_queue Simtoreal_interest_queue d = name_fits d"
  "fits_queue Simtoreal_data_queue d = packet_wf d"
  by (simp_all add: fits_queue_def named_queue_def)

definition sending_ok :: "adaptor \<Rightarrow> bool" where
  "sending_ok st \<longleftrightarrow> (\<forall>sd. at_udp_data_out st = Some sd \<longrightarrow>
     sd_array sd = nut_array st \<and> 0 \<le> sd_entry sd \<and> nat (sd_entry sd) < length (used (nut_table st))
     \<and> deleted (used (nut_table st) ! nat (sd_entry sd)) \<noteq> 1
     \<and> 0 \<le> sd_i sd \<and> nat (sd_i sd) < length (e_addrs (used (nut_table st) ! nat (sd_entry sd))))"

definition bufs_ok :: "adaptor \<Rightarrow> bool" where
  "bufs_ok st \<longleftrightarrow> bufs st NULL = None \<and> (\<forall>p d. bufs st p = Some d \<longrightarrow> nd_ok d)"

definition adaptor_ok :: "contents \<Rightarrow> adaptor \<Rightarrow> bool" where
  "adaptor_ok c st \<longleftrightarrow>
     (\<forall>i. lfq_rep (queues st i) (c i))
     \<and> (\<forall>p. count (owned c st) p \<le> 1) \<and> set_mset (owned c st) \<subseteq> dom (bufs st)
     \<and> bufs_ok st \<and> nut_inv (nut_table st) \<and> sending_ok st \<and> held_fits st
     \<and> (\<forall>i p d. p \<in> set (c i) \<longrightarrow> bufs st p = Some d \<longrightarrow> fits_queue i d)"

lemma count_le_1_iff: "(\<forall>p. count (mset xs) p \<le> 1) \<longleftrightarrow> distinct xs"
  by (auto simp: distinct_count_atmost_1 le_Suc_eq not_in_iff intro: count_mset_0_iff [THEN iffD2])

text \<open>What may be asked of the allocator.\<close>

definition allocs_fit :: "allocs \<Rightarrow> adaptor \<Rightarrow> bool" where
  "allocs_fit al st \<longleftrightarrow>
     m_buf al \<noteq> NULL \<and> bufs st (m_buf al) = None \<and> nd_ok (m_junk al)
     \<and> (c_node al = NULL \<or> (\<forall>i. lfq_fresh (c_node al) (queues st i)))"


section \<open>Queue operations\<close>

lemma enq_node:
  assumes "\<forall>i. lfq_rep (queues st i) (c i)" "a \<noteq> NULL" "lfq_fresh a (queues st i)"
  shows "\<exists>q. enq i a p st = Some (st\<lparr>queues := q\<rparr>)
           \<and> (\<forall>j. lfq_rep (q j) ((c(i := c i @ [p])) j))"
proof -
  obtain q' where "lfq_enqueue a p (queues st i) = Some (0, q')" "lfq_rep q' (c i @ [p])"
    using lfq_queue.enq_ok [OF _ assms(3,2)] assms(1) by blast
  with assms(1) show ?thesis by (auto simp: enq_def)
qed

lemma enq_no_node: "enq i NULL p st = Some st"
  by (simp add: enq_def lfq_queue.enq_fail)

lemma deq_empty:
  assumes "\<forall>i. lfq_rep (queues st i) (c i)" "c i = []"
  shows "deq i st = Some (NULL, st)"
  using lfq_queue.deq_empty [of "queues st i"] assms(1) [rule_format, of i] assms(2)
  by (simp add: deq_def)

lemma deq_first:
  assumes "\<forall>i. lfq_rep (queues st i) (c i)" "c i = p # ps"
  shows "\<exists>q. deq i st = Some (p, st\<lparr>queues := q\<rparr>) \<and> (\<forall>j. lfq_rep (q j) ((c(i := ps)) j))
           \<and> (\<forall>j. j \<noteq> i \<longrightarrow> q j = queues st j)"
proof -
  obtain q' where "lfq_dequeue (queues st i) = Some (p, q')" "lfq_rep q' ps"
    using lfq_queue.deq_cons [of "queues st i" p ps] assms(1) [rule_format, of i] assms(2) by auto
  with assms(1) show ?thesis by (auto simp: deq_def)
qed

section \<open>The invariant under the elementary moves\<close>

lemma held_simps [simp]:
  "held (st\<lparr>queues := q\<rparr>) = held st" "held (st\<lparr>bufs := b\<rparr>) = held st"
  "held (st\<lparr>nut_table := t\<rparr>) = held st" "held (st\<lparr>nut_array := n\<rparr>) = held st"
  "held (st\<lparr>ibuf_nip_interest_in := ib\<rparr>) = held st" "held (st\<lparr>ibuf_nip_data_in := ib\<rparr>) = held st"
  by (simp_all add: held_def)

lemma owned_simps [simp]:
  "owned c (st\<lparr>queues := q\<rparr>) = owned c st" "owned c (st\<lparr>bufs := b\<rparr>) = owned c st"
  "owned c (st\<lparr>nut_table := t\<rparr>) = owned c st" "owned c (st\<lparr>nut_array := n\<rparr>) = owned c st"
  "owned c (st\<lparr>ibuf_nip_interest_in := ib\<rparr>) = owned c st" "owned c (st\<lparr>ibuf_nip_data_in := ib\<rparr>) = owned c st"
  "owned c (put_buf p d st) = owned c st"
  by (simp_all add: owned_def put_buf_def)

lemma owned_snoc: "owned (c(i := c i @ [p])) st = add_mset p (owned c st)"
  by (simp add: owned_def queued_snoc)

lemma owned_cons: "c i = p # ps \<Longrightarrow> owned c st = add_mset p (owned (c(i := ps)) st)"
  by (simp add: owned_def queued_cons)

lemma sending_ok_simps [simp]:
  "sending_ok (st\<lparr>queues := q\<rparr>) = sending_ok st" "sending_ok (st\<lparr>bufs := b\<rparr>) = sending_ok st"
  "sending_ok (st\<lparr>ibuf_nip_interest_in := ib\<rparr>) = sending_ok st"
  "sending_ok (st\<lparr>ibuf_nip_data_in := ib\<rparr>) = sending_ok st"
  "sending_ok (st\<lparr>at_udp_interest_out := x\<rparr>) = sending_ok st"
  "sending_ok (st\<lparr>at_nip_data_out := x\<rparr>) = sending_ok st"
  "sending_ok (st\<lparr>at_nip_interest_out := x\<rparr>) = sending_ok st"
  by (simp_all add: sending_ok_def)

lemma held_fits_simps [simp]:
  "held_fits (st\<lparr>queues := q\<rparr>) = held_fits st" "held_fits (st\<lparr>nut_table := t\<rparr>) = held_fits st"
  "held_fits (st\<lparr>nut_array := n\<rparr>) = held_fits st"
  "held_fits (st\<lparr>ibuf_nip_interest_in := ib\<rparr>) = held_fits st"
  "held_fits (st\<lparr>ibuf_nip_data_in := ib\<rparr>) = held_fits st"
  "held_fits (st\<lparr>at_udp_interest_out := x\<rparr>) = held_fits st"
  "held_fits (st\<lparr>at_udp_data_out := y\<rparr>) = held_fits st"
  "held_fits st \<Longrightarrow> held_fits (st\<lparr>at_nip_data_out := None\<rparr>)"
  "held_fits st \<Longrightarrow> held_fits (st\<lparr>at_nip_interest_out := None\<rparr>)"
  by (simp_all add: held_fits_def)

lemma held_fits_put: "held_fits st \<Longrightarrow> p \<notin> set (held st) \<Longrightarrow> held_fits (put_buf p d st)"
  by (auto simp: held_fits_def put_buf_def held_def)

lemma bufs_ok_simps [simp]:
  "bufs_ok (st\<lparr>queues := q\<rparr>) = bufs_ok st" "bufs_ok (st\<lparr>nut_table := t\<rparr>) = bufs_ok st"
  "bufs_ok (st\<lparr>nut_array := n\<rparr>) = bufs_ok st"
  "bufs_ok (st\<lparr>ibuf_nip_interest_in := ib\<rparr>) = bufs_ok st"
  "bufs_ok (st\<lparr>ibuf_nip_data_in := ib\<rparr>) = bufs_ok st"
  "bufs_ok (st\<lparr>at_udp_interest_out := x\<rparr>) = bufs_ok st"
  "bufs_ok (st\<lparr>at_udp_data_out := y\<rparr>) = bufs_ok st"
  "bufs_ok (st\<lparr>at_nip_data_out := x\<rparr>) = bufs_ok st"
  "bufs_ok (st\<lparr>at_nip_interest_out := x\<rparr>) = bufs_ok st"
  by (simp_all add: bufs_ok_def)

lemma bufs_ok_put: "bufs_ok st \<Longrightarrow> p \<noteq> NULL \<Longrightarrow> nd_ok d \<Longrightarrow> bufs_ok (put_buf p d st)"
  by (auto simp: bufs_ok_def put_buf_def)

lemma adaptor_okD:
  assumes "adaptor_ok c st"
  shows "\<forall>i. lfq_rep (queues st i) (c i)" "count (owned c st) p \<le> 1"
    "p \<in># owned c st \<Longrightarrow> \<exists>d. bufs st p = Some d" "bufs_ok st" "nut_inv (nut_table st)" "sending_ok st"
    "named_queue i \<Longrightarrow> p \<in> set (c i) \<Longrightarrow> bufs st p = Some d \<Longrightarrow> name_fits d"
    "bufs st p = Some d \<Longrightarrow> nd_ok d" "bufs st NULL = None"
    "p \<in> set (c i) \<Longrightarrow> bufs st p = Some d \<Longrightarrow> fits_queue i d" "held_fits st"
  using assms by (auto simp: adaptor_ok_def bufs_ok_def) (auto simp: fits_queue_def)

lemma in_owned_queue: "p \<in> set (c i) \<Longrightarrow> p \<in># owned c st"
  using set_queued [of c i] by (auto simp: owned_def)

text \<open>A buffer that is in no place may be filled.\<close>

lemma adaptor_ok_put:
  assumes "adaptor_ok c st" "p \<notin># owned c st" "p \<noteq> NULL" "nd_ok d"
  shows "adaptor_ok c (put_buf p d st)"
proof -
  have "bufs_ok (put_buf p d st)" using assms adaptor_okD(4) bufs_ok_put by blast
  moreover have "p \<notin> set (c i)" for i using assms(2) in_owned_queue by blast
  moreover have "held_fits (put_buf p d st)"
    using assms(2) adaptor_okD(11) [OF assms(1)] by (intro held_fits_put) (simp_all add: owned_def)
  ultimately show ?thesis
    using assms(1) by (auto simp: adaptor_ok_def) (auto simp: put_buf_def split: if_splits)
qed

text \<open>\<dots> and put into a queue.\<close>

lemma enq_ok:
  assumes "adaptor_ok c st" "p \<notin># owned c st" "bufs st p = Some d" "fits_queue i d"
    "a = NULL \<or> lfq_fresh a (queues st i)"
  shows "\<exists>q. enq i a p st = Some (st\<lparr>queues := q\<rparr>)
     \<and> adaptor_ok (if a = NULL then c else c(i := c i @ [p])) (st\<lparr>queues := q\<rparr>)"
proof (cases "a = NULL")
  case True
  with assms(1) show ?thesis by (intro exI [of _ "queues st"]) (simp add: enq_no_node)
next
  case False
  then obtain q where q: "enq i a p st = Some (st\<lparr>queues := q\<rparr>)"
      "\<forall>j. lfq_rep (q j) ((c(i := c i @ [p])) j)"
    using enq_node [OF adaptor_okD(1) [OF assms(1)] False, of i p] assms(5) by blast
  have "adaptor_ok (c(i := c i @ [p])) (st\<lparr>queues := q\<rparr>)"
    using assms q(2) adaptor_okD(10) [OF assms(1)]
    by (auto simp: adaptor_ok_def owned_snoc not_in_iff)
  with q(1) False show ?thesis by auto
qed

text \<open>The first buffer of a queue, taken out, is in no place.\<close>

lemma deq_ok:
  assumes "adaptor_ok c st" "c i = p # ps"
  shows "\<exists>q d. deq i st = Some (p, st\<lparr>queues := q\<rparr>) \<and> adaptor_ok (c(i := ps)) (st\<lparr>queues := q\<rparr>)
     \<and> p \<notin># owned (c(i := ps)) st \<and> bufs st p = Some d \<and> p \<noteq> NULL
     \<and> fits_queue i d \<and> (\<forall>j. j \<noteq> i \<longrightarrow> q j = queues st j)"
proof -
  obtain q where q: "deq i st = Some (p, st\<lparr>queues := q\<rparr>)" "\<forall>j. lfq_rep (q j) ((c(i := ps)) j)"
      "\<forall>j. j \<noteq> i \<longrightarrow> q j = queues st j"
    using deq_first [OF adaptor_okD(1) [OF assms(1)] assms(2)] by blast
  note own = owned_cons [of c i p ps st, OF assms(2)]
  have out: "p \<notin># owned (c(i := ps)) st"
    using adaptor_okD(2) [OF assms(1), of p] own by (simp add: not_in_iff)
  obtain d where d: "bufs st p = Some d"
    using adaptor_okD(3) [OF assms(1), of p] own by auto
  have "count (owned (c(i := ps)) st) x \<le> 1" for x
    using adaptor_okD(2) [OF assms(1), of x] own by (simp split: if_splits)
  moreover have "x \<in> dom (bufs st)" if "x \<in># owned (c(i := ps)) st" for x
    using adaptor_okD(3) [OF assms(1), of x] own that by auto
  moreover have "\<forall>j x e. x \<in> set ((c(i := ps)) j) \<longrightarrow> bufs st x = Some e \<longrightarrow> fits_queue j e"
  proof -
    have "set ((c(i := ps)) j) \<subseteq> set (c j)" for j using assms(2) by auto
    with adaptor_okD(10) [OF assms(1)] show ?thesis by blast
  qed
  ultimately have "adaptor_ok (c(i := ps)) (st\<lparr>queues := q\<rparr>)"
    using assms(1) q(2) by (auto simp: adaptor_ok_def simp del: fun_upd_apply)
  moreover have "fits_queue i d" using adaptor_okD(10) [OF assms(1) _ d] assms(2) by auto
  moreover have "p \<noteq> NULL" using d adaptor_okD(9) [OF assms(1)] by auto
  ultimately show ?thesis using q(1,3) out d by blast
qed


section \<open>Taking and filling a buffer\<close>

definition take_free :: "contents \<Rightarrow> contents" where
  "take_free c = c(Freebuf_list := tl (c Freebuf_list))"

definition put_in :: "queue_id \<Rightarrow> addr \<Rightarrow> addr \<Rightarrow> contents \<Rightarrow> contents" where
  "put_in i a p c = (if a = NULL then c else c(i := c i @ [p]))"

lemma put_in_simps [simp]: "put_in i NULL p c = c" "a \<noteq> NULL \<Longrightarrow> put_in i a p c = c(i := c i @ [p])"
  by (simp_all add: put_in_def)

lemma take_free_other [simp]: "i \<noteq> Freebuf_list \<Longrightarrow> take_free c i = c i"
  by (simp add: take_free_def)

text \<open>
  \<open>got c st p st1\<close>: \<open>st1\<close> is \<open>st\<close> after \<open>get_freebuf\<close> gave the buffer \<open>p\<close>: it can be written, it is in no
  place, and the buffers in the places are as before.
\<close>

definition got :: "contents \<Rightarrow> adaptor \<Rightarrow> addr \<Rightarrow> adaptor \<Rightarrow> bool" where
  "got c st p st1 \<longleftrightarrow>
     (\<exists>q b. st1 = st\<lparr>queues := q, bufs := b\<rparr> \<and> (\<forall>j. j \<noteq> Freebuf_list \<longrightarrow> q j = queues st j)
        \<and> (\<forall>x \<in># owned (take_free c) st. b x = bufs st x) \<and> dom b = insert p (dom (bufs st)))
     \<and> adaptor_ok (take_free c) st1 \<and> p \<notin># owned (take_free c) st1 \<and> p \<noteq> NULL
     \<and> p \<notin> leaked c st \<and> leaked (take_free c) st1 = insert p (leaked c st)
     \<and> (\<exists>d. bufs st1 p = Some d \<and> nd_ok d)"

lemma get_freebuf_ok:
  assumes "adaptor_ok c st" "allocs_fit al st"
  shows "\<exists>p st1. get_freebuf al st = Some (p, st1) \<and> got c st p st1"
proof (cases "c Freebuf_list")
  case Nil
  let ?p = "m_buf al" and ?st = "st\<lparr>bufs := (bufs st)(m_buf al := Some (m_junk al))\<rparr>"
  have p: "?p \<noteq> NULL" "bufs st ?p = None" "nd_ok (m_junk al)"
    using assms(2) by (auto simp: allocs_fit_def)
  then have out: "?p \<notin># owned c st" using adaptor_okD(3) [OF assms(1), of ?p] by auto
  have c: "take_free c = c" using Nil by (simp add: take_free_def fun_upd_idem)
  have run: "get_freebuf al st = Some (?p, ?st)"
    using deq_empty [OF adaptor_okD(1) [OF assms(1)] Nil] p by (simp add: get_freebuf_def)
  have ok: "adaptor_ok c ?st" using adaptor_ok_put [OF assms(1) out p(1,3)] by (simp add: put_buf_def)
  have "got c st ?p ?st"
    unfolding got_def c
  proof (intro conjI)
    show "\<exists>q b. ?st = st\<lparr>queues := q, bufs := b\<rparr> \<and> (\<forall>j. j \<noteq> Freebuf_list \<longrightarrow> q j = queues st j)
        \<and> (\<forall>x \<in># owned c st. b x = bufs st x) \<and> dom b = insert ?p (dom (bufs st))"
      using out by (intro exI [of _ "queues st"] exI [of _ "(bufs st)(?p := Some (m_junk al))"]) auto
    show "?p \<notin> leaked c st" using p(2) by (auto simp: leaked_def)
    show "leaked c ?st = insert ?p (leaked c st)"
      using out by (auto simp: leaked_def)
  qed (use p ok out in auto)
  with run show ?thesis by blast
next
  case (Cons p ps)
  have c: "take_free c = c(Freebuf_list := ps)" using Cons by (simp add: take_free_def)
  obtain q d where q: "deq Freebuf_list st = Some (p, st\<lparr>queues := q\<rparr>)"
      "adaptor_ok (take_free c) (st\<lparr>queues := q\<rparr>)" "p \<notin># owned (take_free c) st" "bufs st p = Some d"
      "p \<noteq> NULL" "\<forall>j. j \<noteq> Freebuf_list \<longrightarrow> q j = queues st j"
    using deq_ok [OF assms(1) Cons] c by auto
  have run: "get_freebuf al st = Some (p, st\<lparr>queues := q\<rparr>)"
    using q by (simp add: get_freebuf_def)
  have own: "owned c st = add_mset p (owned (take_free c) st)"
    using owned_cons [of c Freebuf_list p ps st] Cons c by simp
  have "got c st p (st\<lparr>queues := q\<rparr>)"
    unfolding got_def
  proof (intro conjI)
    show "\<exists>q' b. st\<lparr>queues := q\<rparr> = st\<lparr>queues := q', bufs := b\<rparr> \<and> (\<forall>j. j \<noteq> Freebuf_list \<longrightarrow> q' j = queues st j)
        \<and> (\<forall>x \<in># owned (take_free c) st. b x = bufs st x) \<and> dom b = insert p (dom (bufs st))"
      using q(4,6) by (intro exI [of _ q] exI [of _ "bufs st"]) auto
    show "p \<notin> leaked c st" using own by (simp add: leaked_def)
    show "leaked (take_free c) (st\<lparr>queues := q\<rparr>) = insert p (leaked c st)"
      using own q(3,4) by (auto simp: leaked_def)
    show "\<exists>d. bufs (st\<lparr>queues := q\<rparr>) p = Some d \<and> nd_ok d"
      using q(4) adaptor_okD(8) [OF assms(1)] by auto
  qed (use q in auto)
  with run show ?thesis by blast
qed

text \<open>
  The buffer is filled and put into a queue, after a step that may have changed the table and the
  descriptors but not what the places hold.
\<close>

definition same_places :: "adaptor \<Rightarrow> adaptor \<Rightarrow> bool" where
  "same_places st st' \<longleftrightarrow> queues st' = queues st \<and> bufs st' = bufs st \<and> held st' = held st"

lemma same_places_owned: "same_places st st' \<Longrightarrow> owned c st' = owned c st"
  by (simp add: same_places_def owned_def)

lemma fill_ok:
  assumes "adaptor_ok c st" "allocs_fit al st" "got c st p st1" "same_places st1 st2"
    "adaptor_ok (take_free c) st2" "nd_ok d" "fits_queue i d" "i \<noteq> Freebuf_list"
  shows "\<exists>q. enq i (c_node al) p (put_buf p d st2) = Some ((put_buf p d st2)\<lparr>queues := q\<rparr>)
     \<and> adaptor_ok (put_in i (c_node al) p (take_free c)) ((put_buf p d st2)\<lparr>queues := q\<rparr>)
     \<and> leaked (put_in i (c_node al) p (take_free c)) ((put_buf p d st2)\<lparr>queues := q\<rparr>) =
         (if c_node al = NULL then insert p (leaked c st) else leaked c st)"
proof -
  obtain q b where st1: "st1 = st\<lparr>queues := q, bufs := b\<rparr>" "\<forall>j. j \<noteq> Freebuf_list \<longrightarrow> q j = queues st j"
      "dom b = insert p (dom (bufs st))"
    and out1: "p \<notin># owned (take_free c) st1" and p: "p \<noteq> NULL" "p \<notin> leaked c st"
    and leak: "leaked (take_free c) st1 = insert p (leaked c st)"
    using assms(3) by (auto simp: got_def)
  have out: "p \<notin># owned (take_free c) st2" using out1 same_places_owned [OF assms(4)] by simp
  have q2: "queues st2 = q" "bufs st2 = b" using assms(4) st1(1) by (auto simp: same_places_def)
  have fr: "c_node al = NULL \<or> lfq_fresh (c_node al) (queues (put_buf p d st2) i)"
    using assms(2,8) st1(2) q2 by (auto simp: allocs_fit_def put_buf_def)
  obtain q' where q': "enq i (c_node al) p (put_buf p d st2) = Some ((put_buf p d st2)\<lparr>queues := q'\<rparr>)"
      "adaptor_ok (put_in i (c_node al) p (take_free c)) ((put_buf p d st2)\<lparr>queues := q'\<rparr>)"
    using enq_ok [OF adaptor_ok_put [OF assms(5) out p(1) assms(6)], of p d i "c_node al"] out fr assms(7)
    unfolding put_in_def by (auto simp: put_buf_def)
  have "leaked (take_free c) (put_buf p d st2) = insert p (leaked c st)"
    using leak st1 q2 same_places_owned [OF assms(4)] by (auto simp: leaked_def put_buf_def)
  then have "leaked (put_in i (c_node al) p (take_free c)) ((put_buf p d st2)\<lparr>queues := q'\<rparr>) =
         (if c_node al = NULL then insert p (leaked c st) else leaked c st)"
    using p(2) by (auto simp: leaked_def put_in_def owned_snoc put_buf_def)
  with q' show ?thesis by blast
qed


text \<open>
  \<open>accepted i al c st d c' st'\<close>: from \<open>st\<close> to \<open>st'\<close> a buffer that was free got the content \<open>d\<close> and went
  to the end of queue \<open>i\<close>; what the places held before is unchanged, and no buffer is lost unless
  the queue got no node.
\<close>

definition same_at :: "adaptor \<Rightarrow> adaptor \<Rightarrow> bool" where
  "same_at st st' \<longleftrightarrow> at_udp_interest_out st' = at_udp_interest_out st
     \<and> at_udp_data_out st' = at_udp_data_out st \<and> at_nip_data_out st' = at_nip_data_out st
     \<and> at_nip_interest_out st' = at_nip_interest_out st"

definition accepted ::
  "queue_id \<Rightarrow> allocs \<Rightarrow> contents \<Rightarrow> adaptor \<Rightarrow> simple_name_data \<Rightarrow> contents \<Rightarrow> adaptor \<Rightarrow> bool" where
  "accepted i al c st d c' st' \<longleftrightarrow>
     (\<exists>p. c' = put_in i (c_node al) p (take_free c) \<and> bufs st' p = Some d
        \<and> (\<forall>x \<in># owned (take_free c) st. bufs st' x = bufs st x)
        \<and> leaked c' st' = (if c_node al = NULL then insert p (leaked c st) else leaked c st))
     \<and> same_at st st' \<and> adaptor_ok c' st'"

lemma fill_accepted:
  assumes "adaptor_ok c st" "allocs_fit al st" "got c st p st1" "same_places st1 st2" "same_at st1 st2"
    "adaptor_ok (take_free c) st2" "nd_ok d" "fits_queue i d" "i \<noteq> Freebuf_list"
  shows "\<exists>q c'. enq i (c_node al) p (put_buf p d st2) = Some ((put_buf p d st2)\<lparr>queues := q\<rparr>)
     \<and> accepted i al c st d c' ((put_buf p d st2)\<lparr>queues := q\<rparr>)"
proof -
  obtain q where q: "enq i (c_node al) p (put_buf p d st2) = Some ((put_buf p d st2)\<lparr>queues := q\<rparr>)"
     "adaptor_ok (put_in i (c_node al) p (take_free c)) ((put_buf p d st2)\<lparr>queues := q\<rparr>)"
     "leaked (put_in i (c_node al) p (take_free c)) ((put_buf p d st2)\<lparr>queues := q\<rparr>) =
         (if c_node al = NULL then insert p (leaked c st) else leaked c st)"
    using fill_ok [OF assms(1-4,6-9)] by blast
  have "p \<notin># owned (take_free c) st" "\<forall>x \<in># owned (take_free c) st. bufs st2 x = bufs st x" "same_at st st2"
    using assms(3-5) by (auto simp: got_def same_places_def same_at_def)
  then have "accepted i al c st d (put_in i (c_node al) p (take_free c)) ((put_buf p d st2)\<lparr>queues := q\<rparr>)"
    using q(2,3) unfolding accepted_def by (auto simp: put_buf_def same_at_def)
  with q(1) show ?thesis by blast
qed

lemma gotD:
  assumes "got c st p st1"
  shows "same_at st st1" "nut_table st1 = nut_table st" "nut_array st1 = nut_array st"
    "ibuf_nip_interest_in st1 = ibuf_nip_interest_in st" "ibuf_nip_data_in st1 = ibuf_nip_data_in st"
    "adaptor_ok (take_free c) st1" "\<exists>d. bufs st1 p = Some d \<and> nd_ok d"
  using assms by (auto simp: got_def same_at_def)

section \<open>The coroutines that receive\<close>

text \<open>Everything but the queues, the buffers and the named fields is unchanged.\<close>

definition same_table :: "adaptor \<Rightarrow> adaptor \<Rightarrow> bool" where
  "same_table st st' \<longleftrightarrow> nut_table st' = nut_table st \<and> nut_array st' = nut_array st"

definition same_ibufs :: "adaptor \<Rightarrow> adaptor \<Rightarrow> bool" where
  "same_ibufs st st' \<longleftrightarrow> ibuf_nip_interest_in st' = ibuf_nip_interest_in st
     \<and> ibuf_nip_data_in st' = ibuf_nip_data_in st"

text \<open>A datagram that fits a buffer, with lengths that fit it too.\<close>

definition data_dgram_ok :: "char list \<Rightarrow> bool" where
  "data_dgram_ok dg \<longleftrightarrow> 8 \<le> length dg \<and> length dg \<le> 2048 \<and> packet_wf (nd_of_bytes dg)"

lemma udp_data_in_ok:
  assumes "adaptor_ok c st" "allocs_fit al st" "data_dgram_ok dg"
  shows "\<exists>d0 st' c'. udp_data_in dg al st = Some ([], st') \<and> nd_ok d0
     \<and> accepted Simtoreal_data_queue al c st (nd_of_bytes (dg @ drop (length dg) (nd_bytes d0))) c' st'
     \<and> same_table st st' \<and> same_ibufs st st'"
proof -
  obtain p st1 where g: "get_freebuf al st = Some (p, st1)" "got c st p st1"
    using get_freebuf_ok [OF assms(1,2)] by blast
  obtain d0 where d0: "bufs st1 p = Some d0" "nd_ok d0" using gotD(7) [OF g(2)] by blast
  let ?d = "nd_of_bytes (dg @ drop (length dg) (nd_bytes d0))"
  have dg: "dg \<noteq> []" using assms(3) by (auto simp: data_dgram_ok_def)
  have mem: "nd_memcpy d0 dg = Some ?d" using nd_memcpy_eq [OF d0(2)] assms(3) by (simp add: data_dgram_ok_def)
  have wf: "packet_wf ?d" using assms(3) by (simp add: data_dgram_ok_def packet_wf_def nd_of_bytes_def)
  obtain q c' where "enq Simtoreal_data_queue (c_node al) p (put_buf p ?d st1) = Some ((put_buf p ?d st1)\<lparr>queues := q\<rparr>)"
      "accepted Simtoreal_data_queue al c st ?d c' ((put_buf p ?d st1)\<lparr>queues := q\<rparr>)"
    using fill_accepted [OF assms(1,2) g(2) _ _ gotD(6) [OF g(2)] nd_memcpy_ok [OF d0(2) mem],
      of Simtoreal_data_queue] wf by (auto simp: same_places_def same_at_def)
  moreover have "same_table st ((put_buf p ?d st1)\<lparr>queues := q\<rparr>)" "same_ibufs st ((put_buf p ?d st1)\<lparr>queues := q\<rparr>)"
    using gotD(2-5) [OF g(2)] by (simp_all add: same_table_def same_ibufs_def put_buf_def)
  ultimately show ?thesis
    using g(1) d0 mem dg
    by (intro exI [of _ d0] exI [of _ "(put_buf p ?d st1)\<lparr>queues := q\<rparr>"] exI [of _ c'])
       (simp add: udp_data_in_def)
qed

text \<open>The descriptor \<open>irecv\<close> returned, and what may be assumed of it.\<close>

definition irecv_interest :: "(isockbuf \<Rightarrow> int \<times> isockbuf) \<Rightarrow> adaptor \<Rightarrow> int \<times> isockbuf" where
  "irecv_interest irecv st = irecv ((ibuf_nip_interest_in st)
      \<lparr>ib_type := TYPE_INTEREST, ib_nlen := MAX_NAME_LEN, ib_dlen := MAX_DATA_LEN\<rparr>)"

definition irecv_data :: "(isockbuf \<Rightarrow> int \<times> isockbuf) \<Rightarrow> adaptor \<Rightarrow> int \<times> isockbuf" where
  "irecv_data irecv st = irecv ((ibuf_nip_data_in st)
      \<lparr>ib_type := TYPE_DATA, ib_nlen := MAX_NAME_LEN, ib_dlen := MAX_DATA_LEN\<rparr>)"

definition ibuf_name_ok :: "isockbuf \<Rightarrow> bool" where
  "ibuf_name_ok ib \<longleftrightarrow> unat (ib_nlen ib) \<le> length (ib_name ib) \<and> unat (ib_nlen ib) \<le> 1024"

definition ibuf_data_ok :: "isockbuf \<Rightarrow> bool" where
  "ibuf_data_ok ib \<longleftrightarrow> unat (ib_dlen ib) \<le> length (ib_data ib)
     \<and> unat (ib_nlen ib) + unat (ib_dlen ib) \<le> 2040"

lemma unat_ucast_16_32: "unat (ucast (w :: u16) :: u32) = unat w"
  using unsigned_less [of w, where 'a = nat] by (simp add: unsigned_ucast_eq take_bit_nat_eq_self)

lemma unat_ucast_64_32: "unat (w :: u64) < 2 ^ 32 \<Longrightarrow> unat (ucast w :: u32) = unat w"
  by (simp add: unsigned_ucast_eq take_bit_nat_eq_self)

lemma adaptor_ok_ibuf:
  "adaptor_ok c (st\<lparr>ibuf_nip_interest_in := ib\<rparr>) = adaptor_ok c st"
  "adaptor_ok c (st\<lparr>ibuf_nip_data_in := ib\<rparr>) = adaptor_ok c st"
  by (simp_all add: adaptor_ok_def)

definition interest_buffer :: "isockbuf \<Rightarrow> simple_name_data \<Rightarrow> simple_name_data" where
  "interest_buffer ib d0 = d0\<lparr>nd_nlen := ucast (ib_nlen ib),
     nd_buf := take (unat (ib_nlen ib)) (ib_name ib) @ drop (unat (ib_nlen ib)) (nd_buf d0),
     nd_dlen := 0\<rparr>"

lemma nip_interest_in_ok:
  assumes "adaptor_ok c st" "allocs_fit al st" "0 < wait" "irecv_interest irecv st = (len, ib)" "0 < len"
    "ibuf_name_ok ib"
  shows "\<exists>d0 st' c'. nip_interest_in wait irecv al st = Some ([], st') \<and> nd_ok d0
     \<and> accepted Realtosim_interest_queue al c st (interest_buffer ib d0) c' st'
     \<and> same_table st st' \<and> ibuf_nip_interest_in st' = ib \<and> ibuf_nip_data_in st' = ibuf_nip_data_in st"
proof -
  let ?st = "st\<lparr>ibuf_nip_interest_in := ib\<rparr>"
  have ok: "adaptor_ok c ?st" "allocs_fit al ?st"
    using assms(1,2) by (simp_all add: adaptor_ok_ibuf allocs_fit_def)
  obtain p st1 where g: "get_freebuf al ?st = Some (p, st1)" "got c ?st p st1"
    using get_freebuf_ok [OF ok] by blast
  obtain d0 where d0: "bufs st1 p = Some d0" "nd_ok d0" using gotD(7) [OF g(2)] by blast
  let ?d = "interest_buffer ib d0" and ?n = "unat (ib_nlen ib)"
  have mem: "amemcpy (nd_buf d0) 0 (ib_name ib) (uint (ucast (ib_nlen ib) :: u32)) =
      Some (take ?n (ib_name ib) @ drop ?n (nd_buf d0))"
    using amemcpy_in [of ?n "ib_name ib" "nd_buf d0"] assms(6) d0(2)
    by (simp add: ibuf_name_ok_def nd_ok_def uint_nat unat_ucast_16_32 del: of_nat_unat)
  have dok: "nd_ok ?d" using d0(2) assms(6) by (auto simp: nd_ok_def interest_buffer_def ibuf_name_ok_def)
  obtain q c' where "enq Realtosim_interest_queue (c_node al) p (put_buf p ?d st1) = Some ((put_buf p ?d st1)\<lparr>queues := q\<rparr>)"
      "accepted Realtosim_interest_queue al c ?st ?d c' ((put_buf p ?d st1)\<lparr>queues := q\<rparr>)"
    using fill_accepted [OF ok g(2) _ _ gotD(6) [OF g(2)] dok, of Realtosim_interest_queue]
    by (auto simp: same_places_def same_at_def)
  moreover have "accepted i al c ?st d c' st' = accepted i al c st d c' st'" for i d c' st'
    by (simp add: accepted_def same_at_def leaked_def)
  moreover have "same_table st ((put_buf p ?d st1)\<lparr>queues := q\<rparr>)"
     "ibuf_nip_interest_in ((put_buf p ?d st1)\<lparr>queues := q\<rparr>) = ib"
     "ibuf_nip_data_in ((put_buf p ?d st1)\<lparr>queues := q\<rparr>) = ibuf_nip_data_in st"
    using gotD(2-5) [OF g(2)] by (simp_all add: same_table_def put_buf_def)
  ultimately show ?thesis
    using g(1) d0 mem assms(3,4,5)
    by (intro exI [of _ d0] exI [of _ "(put_buf p ?d st1)\<lparr>queues := q\<rparr>"] exI [of _ c'])
       (simp add: nip_interest_in_def irecv_interest_def interest_buffer_def)
qed

definition data_buffer :: "isockbuf \<Rightarrow> simple_name_data \<Rightarrow> simple_name_data" where
  "data_buffer ib d0 =
     (let n = unat (ib_nlen ib); m = unat (ib_dlen ib);
          b = take n (ib_name ib) @ drop n (nd_buf d0)
      in if d_type ib = D_NACK then d0\<lparr>nd_nlen := ucast (ib_nlen ib), nd_buf := b, nd_dlen := 0\<rparr>
         else d0\<lparr>nd_nlen := ucast (ib_nlen ib), nd_buf := take n b @ take m (ib_data ib) @ drop (n + m) b,
                 nd_dlen := ucast (ib_dlen ib)\<rparr>)"

lemma nip_data_in_ok:
  assumes "adaptor_ok c st" "allocs_fit al st" "0 < wait" "irecv_data irecv st = (len, ib)" "0 < len"
    "ibuf_name_ok ib" "d_type ib = D_NACK \<or> ibuf_data_ok ib"
  shows "\<exists>d0 st' c'. nip_data_in wait irecv al st = Some ([], st') \<and> nd_ok d0
     \<and> accepted Realtosim_data_queue al c st (data_buffer ib d0) c' st'
     \<and> same_table st st' \<and> ibuf_nip_data_in st' = ib \<and> ibuf_nip_interest_in st' = ibuf_nip_interest_in st"
proof -
  let ?st = "st\<lparr>ibuf_nip_data_in := ib\<rparr>"
  have ok: "adaptor_ok c ?st" "allocs_fit al ?st"
    using assms(1,2) by (simp_all add: adaptor_ok_ibuf allocs_fit_def)
  obtain p st1 where g: "get_freebuf al ?st = Some (p, st1)" "got c ?st p st1"
    using get_freebuf_ok [OF ok] by blast
  obtain d0 where d0: "bufs st1 p = Some d0" "nd_ok d0" using gotD(7) [OF g(2)] by blast
  let ?d = "data_buffer ib d0" and ?n = "unat (ib_nlen ib)" and ?m = "unat (ib_dlen ib)"
  let ?b = "take ?n (ib_name ib) @ drop ?n (nd_buf d0)"
  have mem: "amemcpy (nd_buf d0) 0 (ib_name ib) (uint (ucast (ib_nlen ib) :: u32)) = Some ?b"
    using amemcpy_in [of ?n "ib_name ib" "nd_buf d0"] assms(6) d0(2)
    by (simp add: ibuf_name_ok_def nd_ok_def uint_nat unat_ucast_16_32 del: of_nat_unat)
  have lb: "length ?b = 2040" "?n \<le> 2040" using assms(6) d0(2) by (auto simp: nd_ok_def ibuf_name_ok_def)
  have mem2: "amemcpy ?b (uint (ucast (ib_nlen ib) :: u32)) (ib_data ib) (uint (ucast (ib_dlen ib) :: u32)) =
      Some (take ?n ?b @ take ?m (ib_data ib) @ drop (?n + ?m) ?b)" if "d_type ib \<noteq> D_NACK"
  proof -
    have m: "?m \<le> length (ib_data ib)" "?n + ?m \<le> 2040" using assms(7) that by (auto simp: ibuf_data_ok_def)
    then have "?m < 2 ^ 32" by simp
    note u = unat_ucast_64_32 [OF this] unat_ucast_16_32 [of "ib_nlen ib"]
    have "uint (ucast (ib_nlen ib) :: u32) = int ?n" "uint (ucast (ib_dlen ib) :: u32) = int ?m"
      using u by (simp_all only: uint_nat)
    then show ?thesis using m lb by (simp add: amemcpy_def nat_add_distrib del: of_nat_unat) 
  qed
  have dok: "nd_ok ?d"
    using lb assms(7) d0(2)
    by (auto simp: nd_ok_def data_buffer_def interest_buffer_def Let_def ibuf_data_ok_def)
  have fits: "name_fits ?d"
    using assms(6) by (auto simp: name_fits_def data_buffer_def interest_buffer_def Let_def
        unat_ucast_16_32 ibuf_name_ok_def)
  obtain q c' where "enq Realtosim_data_queue (c_node al) p (put_buf p ?d st1) = Some ((put_buf p ?d st1)\<lparr>queues := q\<rparr>)"
      "accepted Realtosim_data_queue al c ?st ?d c' ((put_buf p ?d st1)\<lparr>queues := q\<rparr>)"
    using fill_accepted [OF ok g(2) _ _ gotD(6) [OF g(2)] dok, of Realtosim_data_queue] fits
    by (auto simp: same_places_def same_at_def)
  moreover have "accepted i al c ?st d c' st' = accepted i al c st d c' st'" for i d c' st'
    by (simp add: accepted_def same_at_def leaked_def)
  moreover have "same_table st ((put_buf p ?d st1)\<lparr>queues := q\<rparr>)"
     "ibuf_nip_data_in ((put_buf p ?d st1)\<lparr>queues := q\<rparr>) = ib"
     "ibuf_nip_interest_in ((put_buf p ?d st1)\<lparr>queues := q\<rparr>) = ibuf_nip_interest_in st"
    using gotD(2-5) [OF g(2)] by (simp_all add: same_table_def put_buf_def)
  ultimately show ?thesis
    using g(1) d0 mem mem2 assms(3,4,5)
    by (intro exI [of _ d0] exI [of _ "(put_buf p ?d st1)\<lparr>queues := q\<rparr>"] exI [of _ c'])
       (auto simp: nip_data_in_def irecv_data_def data_buffer_def interest_buffer_def Let_def)
qed


text \<open>An interest: its name and endpoint go through the table first.\<close>

definition dropped :: "contents \<Rightarrow> adaptor \<Rightarrow> contents \<Rightarrow> adaptor \<Rightarrow> bool" where
  "dropped c st c' st' \<longleftrightarrow>
     (\<exists>p. c' = take_free c \<and> p \<notin> leaked c st \<and> leaked c' st' = insert p (leaked c st))
     \<and> (\<forall>x \<in># owned (take_free c) st. bufs st' x = bufs st x) \<and> same_at st st' \<and> adaptor_ok c' st'"

text \<open>The array stays when a slot is free: behind the entries in use, or one of them that is deleted.\<close>

definition has_slot :: "nut \<Rightarrow> bool" where
  "has_slot t \<longleftrightarrow> unat (entry_num t) < unat (table_cap t) \<or> (\<exists>e \<in> set (used t). is_deleted e)"

lemma nut_set_no_grow:
  assumes "nut_inv t" "name_ok nm nlen" "has_slot t"
  shows "\<not> nut_set_grows nm nlen a t"
proof (cases "idx_of (live_at (nut_key nm nlen)) (used t)")
  case None
  then have run: "nut_set_loop t nm nlen a 0 (-1) = Some (Ran_out (int (length (used t))) (enc (idx_of is_deleted (used t))))"
    using nut_set_loop_eq [OF assms(1,2), of 0 a] by simp
  show ?thesis
  proof (cases "idx_of is_deleted (used t)")
    case None
    then have "unat (entry_num t) < unat (table_cap t)" using assms(3) by (auto simp: has_slot_def idx_of_None_iff)
    then show ?thesis
      using run inv_facts(1-4) [OF assms(1)] by (simp add: nut_set_grows_def del: of_nat_unat)
  next
    case (Some m)
    then show ?thesis using run by (simp add: nut_set_grows_def)
  qed
next
  case (Some m)
  then show ?thesis
    using nut_set_loop_eq [OF assms(1,2), of 0 a]
    by (simp add: nut_set_grows_def set_hit_def Let_def)
qed

lemma sending_ok_keeps:
  assumes "sending_ok st" "keeps_live (nut_table st) t" "at_udp_data_out st \<noteq> None \<longrightarrow> n = nut_array st"
  shows "sending_ok (st\<lparr>nut_table := t, nut_array := n\<rparr>)"
  unfolding sending_ok_def
proof (intro allI impI)
  fix sd
  assume "at_udp_data_out (st\<lparr>nut_table := t, nut_array := n\<rparr>) = Some sd"
  with assms show "sd_array sd = nut_array (st\<lparr>nut_table := t, nut_array := n\<rparr>) \<and> 0 \<le> sd_entry sd
     \<and> nat (sd_entry sd) < length (used (nut_table (st\<lparr>nut_table := t, nut_array := n\<rparr>)))
     \<and> deleted (used (nut_table (st\<lparr>nut_table := t, nut_array := n\<rparr>)) ! nat (sd_entry sd)) \<noteq> 1
     \<and> 0 \<le> sd_i sd
     \<and> nat (sd_i sd) < length (e_addrs (used (nut_table (st\<lparr>nut_table := t, nut_array := n\<rparr>)) ! nat (sd_entry sd)))"
    by (fastforce simp: sending_ok_def keeps_live_def extends_def)
qed

definition interest_dgram_ok :: "char list \<Rightarrow> bool" where
  "interest_dgram_ok dg \<longleftrightarrow> 8 \<le> length dg \<and> length dg \<le> 2048 \<and> name_fits (nd_of_bytes dg)"

definition table_room :: "malloc \<Rightarrow> adaptor \<Rightarrow> bool" where
  "table_room mal st \<longleftrightarrow> malloc_good mal \<and> unat (entry_num (nut_table st)) < 2 ^ 30
     \<and> (at_udp_data_out st \<noteq> None \<longrightarrow> has_slot (nut_table st))"

lemma name_fits_ok: "nd_ok d \<Longrightarrow> name_fits d \<Longrightarrow> name_ok (nd_buf d) (sint (nd_nlen d))"
  by (simp add: nd_ok_def name_fits_def name_ok_def sint_small del: of_nat_unat)

abbreviation dgram_key :: "simple_name_data \<Rightarrow> char list" where
  "dgram_key d \<equiv> nut_key (nd_buf d) (sint (nd_nlen d))"

lemma udp_interest_in_ok:
  assumes "adaptor_ok c st" "allocs_fit al st" "interest_dgram_ok dg" "table_room mal st"
  shows "\<exists>d0 d st' c' r. udp_interest_in mal dg a al st = Some ([], st') \<and> nd_ok d0
     \<and> d = nd_of_bytes (dg @ drop (length dg) (nd_bytes d0))
     \<and> r = fst (nut_register (dgram_key d) a (nut_abs (nut_table st)))
     \<and> nut_abs (nut_table st') = snd (nut_register (dgram_key d) a (nut_abs (nut_table st)))
     \<and> (if r = 1 then accepted Simtoreal_interest_queue al c st d c' st' else dropped c st c' st')
     \<and> keeps_live (nut_table st) (nut_table st') \<and> same_ibufs st st'"
proof -
  have dg: "dg \<noteq> []" "length dg \<le> 2048" using assms(3) by (auto simp: interest_dgram_ok_def)
  obtain p st1 where g: "get_freebuf al st = Some (p, st1)" "got c st p st1"
    using get_freebuf_ok [OF assms(1,2)] by blast
  obtain d0 where d0: "bufs st1 p = Some d0" "nd_ok d0" using gotD(7) [OF g(2)] by blast
  define d where "d = nd_of_bytes (dg @ drop (length dg) (nd_bytes d0))"
  have mem: "nd_memcpy d0 dg = Some d" using nd_memcpy_eq [OF d0(2)] dg d_def by simp
  have dok: "nd_ok d" by (rule nd_memcpy_ok [OF d0(2) mem])
  have fits: "name_fits d"
    using assms(3) by (simp add: interest_dgram_ok_def name_fits_def d_def nd_of_bytes_def)
  let ?k = "dgram_key d" and ?t = "nut_table st"
  let ?reg = "nut_register ?k a (nut_abs ?t)"
  have inv: "nut_inv ?t" by (rule adaptor_okD(5) [OF assms(1)])
  note nm = name_fits_ok [OF dok fits]
  obtain t' where t': "nut_set mal (nd_buf d) (sint (nd_nlen d)) a ?t = Some (fst ?reg, t')" "nut_inv t'"
      "keeps_live ?t t'" "nut_abs t' = snd ?reg"
    using nut_set_refines_register [OF inv nm, of mal a] assms(4)
    by (auto simp: table_room_def malloc_good_def)
  let ?grows = "nut_set_grows (nd_buf d) (sint (nd_nlen d)) a ?t"
  let ?n = "nut_array st + (if ?grows then 1 else 0)"
  have n: "at_udp_data_out st \<noteq> None \<longrightarrow> ?n = nut_array st"
    using nut_set_no_grow [OF inv nm] assms(4) by (simp add: table_room_def)
  let ?st2 = "st1\<lparr>nut_table := t', nut_array := ?n\<rparr>"
  have ok1: "adaptor_ok (take_free c) st1" by (rule gotD(6) [OF g(2)])
  have "sending_ok ?st2"
    using sending_ok_keeps [OF adaptor_okD(6) [OF ok1]] t'(3) n gotD(1-3) [OF g(2)]
    by (simp add: same_at_def)
  then have ok2: "adaptor_ok (take_free c) ?st2" using ok1 t'(2) by (simp add: adaptor_ok_def)
  have same: "same_places st1 ?st2" "same_at st1 ?st2" by (simp_all add: same_places_def same_at_def)
  have put: "(put_buf p d st1)\<lparr>nut_table := t', nut_array := ?n\<rparr> = put_buf p d ?st2"
    by (simp add: put_buf_def)
  have run: "udp_interest_in mal dg a al st =
      (if fst ?reg = 1 then map_option (\<lambda>st. ([], st)) (enq Simtoreal_interest_queue (c_node al) p (put_buf p d ?st2))
       else Some ([], put_buf p d ?st2))"
    using g(1) d0(1) mem t'(1) dg(1) gotD(2,3) [OF g(2)] put
    by (simp add: udp_interest_in_def Let_def map_option_case split: option.split)
  have final: "nut_table (put_buf p d ?st2) = t'" "same_ibufs st (put_buf p d ?st2)"
    using gotD(4,5) [OF g(2)] by (simp_all add: put_buf_def same_ibufs_def)
  show ?thesis
  proof (cases "fst ?reg = 1")
    case True
    obtain q c' where q: "enq Simtoreal_interest_queue (c_node al) p (put_buf p d ?st2) = Some ((put_buf p d ?st2)\<lparr>queues := q\<rparr>)"
        "accepted Simtoreal_interest_queue al c st d c' ((put_buf p d ?st2)\<lparr>queues := q\<rparr>)"
      using fill_accepted [OF assms(1,2) g(2) same ok2 dok, of Simtoreal_interest_queue] fits by auto
    show ?thesis
      using run True q t' final d0(2) d_def
      by (intro exI [of _ d0] exI [of _ d] exI [of _ "(put_buf p d ?st2)\<lparr>queues := q\<rparr>"] exI [of _ c'])
         (simp add: same_ibufs_def)
  next
    case False
    have g': "p \<notin># owned (take_free c) st1" "p \<noteq> NULL" "p \<notin> leaked c st"
        "leaked (take_free c) st1 = insert p (leaked c st)"
        "\<forall>x \<in># owned (take_free c) st. bufs st1 x = bufs st x" "p \<notin># owned (take_free c) st"
      using g(2) by (auto simp: got_def)
    have "adaptor_ok (take_free c) (put_buf p d ?st2)"
      using adaptor_ok_put [OF ok2 _ g'(2) dok] g'(1) by simp
    moreover have "leaked (take_free c) (put_buf p d ?st2) = insert p (leaked c st)"
      using g'(4) d0(1) by (auto simp: leaked_def put_buf_def)
    moreover have "\<forall>x \<in># owned (take_free c) st. bufs (put_buf p d ?st2) x = bufs st x"
      using g'(5,6) by (auto simp: put_buf_def)
    moreover have "same_at st (put_buf p d ?st2)"
      using gotD(1) [OF g(2)] by (simp add: same_at_def put_buf_def)
    ultimately have "dropped c st (take_free c) (put_buf p d ?st2)"
      using g'(3) unfolding dropped_def by blast
    then show ?thesis
      using run False t' final d0(2) d_def
      by (intro exI [of _ d0] exI [of _ d] exI [of _ "put_buf p d ?st2"] exI [of _ "take_free c"]) simp
  qed
qed


section \<open>The coroutines that send\<close>

lemma adaptor_ok_hold:
  assumes "adaptor_ok c st" "p \<notin># owned c st" "bufs st p = Some d" "mset (held st') = add_mset p (mset (held st))"
    "queues st' = queues st" "bufs st' = bufs st" "nut_table st' = nut_table st" "sending_ok st'" "held_fits st'"
  shows "adaptor_ok c st'"
proof -
  have "owned c st' = add_mset p (owned c st)" using assms(4) by (simp add: owned_def)
  then show ?thesis
    using assms by (auto simp: adaptor_ok_def bufs_ok_def not_in_iff)
qed

lemma adaptor_ok_release:
  assumes "adaptor_ok c st" "mset (held st) = add_mset p (mset (held st'))"
    "queues st' = queues st" "bufs st' = bufs st" "nut_table st' = nut_table st" "sending_ok st'" "held_fits st'"
  shows "adaptor_ok c st'" "p \<notin># owned c st'" "\<exists>d. bufs st' p = Some d"
proof -
  have own: "owned c st = add_mset p (owned c st')" using assms(2) by (simp add: owned_def)
  have "count (owned c st') x \<le> 1" for x
    using adaptor_okD(2) [OF assms(1), of x] own by (simp split: if_splits)
  moreover have "set_mset (owned c st') \<subseteq> dom (bufs st')"
    using adaptor_okD(3) [OF assms(1)] own assms(4) by auto
  ultimately show "adaptor_ok c st'"
    using assms by (auto simp: adaptor_ok_def bufs_ok_def)
  show "p \<notin># owned c st'" using adaptor_okD(2) [OF assms(1), of p] own by (simp add: not_in_iff)
  show "\<exists>d. bufs st' p = Some d" using adaptor_okD(3) [OF assms(1), of p] own assms(4) by simp
qed

text \<open>
  \<open>fetched i c st p c' st'\<close>: the first buffer \<open>p\<close> of queue \<open>i\<close> is now with a coroutine.
  \<open>freed al c st p c' st'\<close>: the buffer \<open>p\<close> a coroutine had went back to the free list.
\<close>

definition fetched :: "queue_id \<Rightarrow> contents \<Rightarrow> adaptor \<Rightarrow> addr \<Rightarrow> contents \<Rightarrow> adaptor \<Rightarrow> bool" where
  "fetched i c st p c' st' \<longleftrightarrow> (\<exists>ps. c i = p # ps \<and> c' = c(i := ps)) \<and> bufs st' = bufs st
     \<and> leaked c' st' = leaked c st \<and> adaptor_ok c' st' \<and> (\<exists>d. bufs st p = Some d)"

definition freed :: "allocs \<Rightarrow> contents \<Rightarrow> adaptor \<Rightarrow> addr \<Rightarrow> contents \<Rightarrow> adaptor \<Rightarrow> bool" where
  "freed al c st p c' st' \<longleftrightarrow> c' = put_in Freebuf_list (c_node al) p c \<and> bufs st' = bufs st
     \<and> leaked c' st' = (if c_node al = NULL then insert p (leaked c st) else leaked c st) \<and> adaptor_ok c' st'"

lemma fetch_ok:
  assumes "adaptor_ok c st" "c i = p # ps"
  shows "\<exists>q d. deq i st = Some (p, st\<lparr>queues := q\<rparr>) \<and> bufs st p = Some d \<and> p \<noteq> NULL
     \<and> fits_queue i d
     \<and> (\<forall>st'. mset (held st') = add_mset p (mset (held st)) \<and> queues st' = q \<and> bufs st' = bufs st
              \<and> nut_table st' = nut_table st \<and> sending_ok st' \<and> held_fits st' \<longrightarrow> fetched i c st p (c(i := ps)) st')"
proof -
  obtain q d where q: "deq i st = Some (p, st\<lparr>queues := q\<rparr>)" "adaptor_ok (c(i := ps)) (st\<lparr>queues := q\<rparr>)"
      "p \<notin># owned (c(i := ps)) st" "bufs st p = Some d" "p \<noteq> NULL" "fits_queue i d"
    using deq_ok [OF assms] by blast
  have "fetched i c st p (c(i := ps)) st'"
    if "mset (held st') = add_mset p (mset (held st))" "queues st' = q" "bufs st' = bufs st"
      "nut_table st' = nut_table st" "sending_ok st'" "held_fits st'" for st'
  proof -
    have "adaptor_ok (c(i := ps)) st'"
      using adaptor_ok_hold [OF q(2), of p d st'] q that by simp
    moreover have "owned (c(i := ps)) st' = owned c st"
      using that(1) queued_cons [of c i p ps] assms(2) by (simp add: owned_def)
    ultimately show ?thesis
      using that(3) q(4) assms(2) by (auto simp: fetched_def leaked_def)
  qed
  with q show ?thesis by blast
qed

lemma release_ok:
  assumes "adaptor_ok c st" "c_node al = NULL \<or> lfq_fresh (c_node al) (queues st Freebuf_list)"
    "mset (held st) = add_mset p (mset (held st'))" "queues st' = queues st" "bufs st' = bufs st"
    "nut_table st' = nut_table st" "sending_ok st'" "held_fits st'"
  shows "\<exists>q. enq Freebuf_list (c_node al) p st' = Some (st'\<lparr>queues := q\<rparr>)
     \<and> freed al c st p (put_in Freebuf_list (c_node al) p c) (st'\<lparr>queues := q\<rparr>)"
proof -
  note rel = adaptor_ok_release [OF assms(1,3-8)]
  obtain d where d: "bufs st' p = Some d" using rel(3) by blast
  obtain q where q: "enq Freebuf_list (c_node al) p st' = Some (st'\<lparr>queues := q\<rparr>)"
      "adaptor_ok (put_in Freebuf_list (c_node al) p c) (st'\<lparr>queues := q\<rparr>)"
    using enq_ok [OF rel(1,2) d, of Freebuf_list "c_node al"] assms(2,4)
    unfolding put_in_def by (auto simp: named_queue_def)
  have own: "owned c st = add_mset p (owned c st')" using assms(3) by (simp add: owned_def)
  have "leaked (put_in Freebuf_list (c_node al) p c) (st'\<lparr>queues := q\<rparr>) =
      (if c_node al = NULL then insert p (leaked c st) else leaked c st)"
    using own rel(2) d assms(5) by (auto simp: leaked_def put_in_def owned_snoc)
  with q assms(5) show ?thesis by (auto simp: freed_def)
qed

lemma enq_at:
  "enq i a p (st\<lparr>at_udp_interest_out := x\<rparr>) = map_option (\<lambda>st. st\<lparr>at_udp_interest_out := x\<rparr>) (enq i a p st)"
  "enq i a p (st\<lparr>at_udp_data_out := y\<rparr>) = map_option (\<lambda>st. st\<lparr>at_udp_data_out := y\<rparr>) (enq i a p st)"
  "enq i a p (st\<lparr>at_nip_data_out := x\<rparr>) = map_option (\<lambda>st. st\<lparr>at_nip_data_out := x\<rparr>) (enq i a p st)"
  "enq i a p (st\<lparr>at_nip_interest_out := x\<rparr>) = map_option (\<lambda>st. st\<lparr>at_nip_interest_out := x\<rparr>) (enq i a p st)"
  by (cases st; auto simp: enq_def split: bind_splits)+

lemma at_queues_swap [simp]:
  fixes st :: adaptor
  shows "st\<lparr>at_udp_interest_out := x, queues := q\<rparr> = st\<lparr>queues := q, at_udp_interest_out := x\<rparr>"
    "st\<lparr>at_udp_data_out := y, queues := q\<rparr> = st\<lparr>queues := q, at_udp_data_out := y\<rparr>"
    "st\<lparr>at_nip_data_out := x, queues := q\<rparr> = st\<lparr>queues := q, at_nip_data_out := x\<rparr>"
    "st\<lparr>at_nip_interest_out := x, queues := q\<rparr> = st\<lparr>queues := q, at_nip_interest_out := x\<rparr>"
  by (cases st; simp)+

lemma allocs_fit_free:
  "allocs_fit al st \<Longrightarrow> c_node al = NULL \<or> lfq_fresh (c_node al) (queues st i)"
  by (auto simp: allocs_fit_def)

lemma udp_interest_out_idle:
  assumes "adaptor_ok c st" "at_udp_interest_out st = None" "c Realtosim_interest_queue = []"
  shows "udp_interest_out ina al st = Some ([], st)"
  using assms(2) deq_empty [OF adaptor_okD(1) [OF assms(1)] assms(3)] by (simp add: udp_interest_out_def)

lemma udp_interest_out_fetch:
  assumes "adaptor_ok c st" "at_udp_interest_out st = None" "c Realtosim_interest_queue = p # ps"
  shows "\<exists>q d. udp_interest_out ina al st =
        Some ([Udp_out (sim_addr ina) (nd_bytes d)], st\<lparr>queues := q, at_udp_interest_out := Some p\<rparr>)
     \<and> bufs st p = Some d \<and> fetched Realtosim_interest_queue c st p (c(Realtosim_interest_queue := ps))
          (st\<lparr>queues := q, at_udp_interest_out := Some p\<rparr>)"
proof -
  let ?i = Realtosim_interest_queue
  obtain q d where q: "deq ?i st = Some (p, st\<lparr>queues := q\<rparr>)" "bufs st p = Some d" "p \<noteq> NULL"
     "\<And>st'. mset (held st') = add_mset p (mset (held st)) \<and> queues st' = q \<and> bufs st' = bufs st
              \<and> nut_table st' = nut_table st \<and> sending_ok st' \<and> held_fits st' \<Longrightarrow> fetched ?i c st p (c(?i := ps)) st'"
    using fetch_ok [OF assms(1,3)] by blast
  have "fetched ?i c st p (c(?i := ps)) (st\<lparr>queues := q, at_udp_interest_out := Some p\<rparr>)"
    using assms(2) adaptor_okD(6,11) [OF assms(1)] by (intro q(4)) (simp add: held_def)
  with q assms(2) show ?thesis by (auto simp: udp_interest_out_def)
qed

lemma udp_interest_out_release:
  assumes "adaptor_ok c st" "allocs_fit al st" "at_udp_interest_out st = Some p"
  shows "\<exists>q. udp_interest_out ina al st = Some ([], st\<lparr>queues := q, at_udp_interest_out := None\<rparr>)
     \<and> freed al c st p (put_in Freebuf_list (c_node al) p c) (st\<lparr>queues := q, at_udp_interest_out := None\<rparr>)"
proof -
  let ?st = "st\<lparr>at_udp_interest_out := None\<rparr>"
  obtain q where q: "enq Freebuf_list (c_node al) p ?st = Some (?st\<lparr>queues := q\<rparr>)"
     "freed al c st p (put_in Freebuf_list (c_node al) p c) (?st\<lparr>queues := q\<rparr>)"
    using release_ok [OF assms(1) allocs_fit_free [OF assms(2)], of p ?st] assms(3) adaptor_okD(6,11) [OF assms(1)]
    by (auto simp: held_def)
  obtain st1 where "enq Freebuf_list (c_node al) p st = Some st1"
      "st1\<lparr>at_udp_interest_out := None\<rparr> = ?st\<lparr>queues := q\<rparr>"
    using q(1) by (auto simp: enq_at)
  with q(2) assms(3) show ?thesis by (auto simp: udp_interest_out_def)
qed


lemma nip_data_out_idle:
  assumes "adaptor_ok c st" "at_nip_data_out st = None" "c Simtoreal_data_queue = []"
  shows "nip_data_out wait al st = Some ([], st)"
  using assms(2) deq_empty [OF adaptor_okD(1) [OF assms(1)] assms(3)] by (simp add: nip_data_out_def)

lemma nip_data_out_fetch:
  assumes "adaptor_ok c st" "at_nip_data_out st = None" "c Simtoreal_data_queue = p # ps"
  shows "\<exists>q. nip_data_out wait al st = Some ([], st\<lparr>queues := q, at_nip_data_out := Some p\<rparr>)
     \<and> fetched Simtoreal_data_queue c st p (c(Simtoreal_data_queue := ps))
          (st\<lparr>queues := q, at_nip_data_out := Some p\<rparr>)"
proof -
  let ?i = Simtoreal_data_queue
  obtain q d where q: "deq ?i st = Some (p, st\<lparr>queues := q\<rparr>)" "p \<noteq> NULL"
     "\<And>st'. mset (held st') = add_mset p (mset (held st)) \<and> queues st' = q \<and> bufs st' = bufs st
              \<and> nut_table st' = nut_table st \<and> sending_ok st' \<and> held_fits st' \<Longrightarrow> fetched ?i c st p (c(?i := ps)) st'"
     "bufs st p = Some d" "packet_wf d"
    using fetch_ok [OF assms(1,3)] by auto
  have "held_fits (st\<lparr>queues := q, at_nip_data_out := Some p\<rparr>)"
    using q(4,5) adaptor_okD(11) [OF assms(1)] by (simp add: held_fits_def)
  then have "fetched ?i c st p (c(?i := ps)) (st\<lparr>queues := q, at_nip_data_out := Some p\<rparr>)"
    using assms(2) adaptor_okD(6) [OF assms(1)] by (intro q(3)) (simp add: held_def)
  with q assms(2) show ?thesis by (auto simp: nip_data_out_def)
qed

text \<open>A descriptor for a buffer whose lengths fit.\<close>

definition sent_ibuf :: "u32 \<Rightarrow> u64 \<Rightarrow> simple_name_data \<Rightarrow> isockbuf \<Rightarrow> isockbuf" where
  "sent_ibuf ty dlen d junk = junk\<lparr>ib_type := ty, ib_name := nd_buf d, ib_nlen := ucast (nd_nlen d),
     ib_data := drop (unat (nd_nlen d)) (nd_buf d), ib_dlen := dlen\<rparr>"

lemma send_ibuf_ok:
  assumes "nd_ok d" "name_fits d" "unat (nd_nlen d) + unat dlen \<le> 2040"
  shows "send_ibuf ty dlen d junk = Some (sent_ibuf ty dlen d junk)"
proof -
  have "unat (ucast (nd_nlen d) :: u16) = unat (nd_nlen d)"
    using assms(2) by (simp add: name_fits_def unsigned_ucast_eq take_bit_nat_eq_self)
  then show ?thesis
    using assms by (auto simp: send_ibuf_def sent_ibuf_def isend_reads_within_def nd_ok_def name_fits_def Let_def)
qed

lemma send_ibuf_packet:
  assumes "nd_ok d" "packet_wf d"
  shows "send_ibuf ty (ucast (nd_dlen d)) d junk = Some (sent_ibuf ty (ucast (nd_dlen d)) d junk)"
proof (rule send_ibuf_ok [OF assms(1) packet_wf_fits [OF assms(2)]])
  have "unat (ucast (nd_dlen d) :: u64) = unat (nd_dlen d)"
    using assms(2) by (simp add: packet_wf_def unsigned_ucast_eq take_bit_nat_eq_self)
  then show "unat (nd_nlen d) + unat (ucast (nd_dlen d) :: u64) \<le> 2040" using assms(2) by (simp add: packet_wf_def)
qed

lemma nip_data_out_release:
  assumes "adaptor_ok c st" "allocs_fit al st" "at_nip_data_out st = Some p" "0 < wait"
  shows "\<exists>q d. nip_data_out wait al st =
        Some ([Nip_out (sent_ibuf TYPE_DATA (ucast (nd_dlen d)) d (s_junk al))], st\<lparr>queues := q, at_nip_data_out := None\<rparr>)
     \<and> bufs st p = Some d
     \<and> freed al c st p (put_in Freebuf_list (c_node al) p c) (st\<lparr>queues := q, at_nip_data_out := None\<rparr>)"
proof -
  let ?st = "st\<lparr>at_nip_data_out := None\<rparr>"
  obtain q where q: "enq Freebuf_list (c_node al) p ?st = Some (?st\<lparr>queues := q\<rparr>)"
     "freed al c st p (put_in Freebuf_list (c_node al) p c) (?st\<lparr>queues := q\<rparr>)"
    using release_ok [OF assms(1) allocs_fit_free [OF assms(2)], of p ?st] assms(3) adaptor_okD(6,11) [OF assms(1)]
    by (auto simp: held_def)
  obtain st1 where "enq Freebuf_list (c_node al) p st = Some st1"
      "st1\<lparr>at_nip_data_out := None\<rparr> = ?st\<lparr>queues := q\<rparr>"
    using q(1) by (auto simp: enq_at)
  moreover obtain d where d: "bufs st p = Some d"
    using adaptor_okD(3) [OF assms(1), of p] assms(3) by (auto simp: owned_def held_def)
  moreover have "packet_wf d" using adaptor_okD(11) [OF assms(1)] assms(3) d by (simp add: held_fits_def)
  ultimately show ?thesis
    using q(2) assms(3,4) send_ibuf_packet [OF adaptor_okD(8) [OF assms(1) d]] by (auto simp: nip_data_out_def)
qed

lemma name_fits_printf:
  "nd_ok d \<Longrightarrow> name_fits d \<Longrightarrow> printf_reads_within (sint (nd_nlen d)) (nd_buf d)"
  by (simp add: printf_reads_within_def nd_ok_def name_fits_def sint_small del: of_nat_unat)

lemma nip_interest_out_idle:
  assumes "adaptor_ok c st" "at_nip_interest_out st = None" "c Simtoreal_interest_queue = []"
  shows "nip_interest_out wait al st = Some ([], st)"
  using assms(2) deq_empty [OF adaptor_okD(1) [OF assms(1)] assms(3)] by (simp add: nip_interest_out_def)

lemma nip_interest_out_fetch:
  assumes "adaptor_ok c st" "at_nip_interest_out st = None" "c Simtoreal_interest_queue = p # ps"
  shows "\<exists>q. nip_interest_out wait al st = Some ([], st\<lparr>queues := q, at_nip_interest_out := Some p\<rparr>)
     \<and> fetched Simtoreal_interest_queue c st p (c(Simtoreal_interest_queue := ps))
          (st\<lparr>queues := q, at_nip_interest_out := Some p\<rparr>)"
proof -
  let ?i = Simtoreal_interest_queue
  obtain q d where q: "deq ?i st = Some (p, st\<lparr>queues := q\<rparr>)" "bufs st p = Some d" "p \<noteq> NULL" "name_fits d"
     "\<And>st'. mset (held st') = add_mset p (mset (held st)) \<and> queues st' = q \<and> bufs st' = bufs st
              \<and> nut_table st' = nut_table st \<and> sending_ok st' \<and> held_fits st' \<Longrightarrow> fetched ?i c st p (c(?i := ps)) st'"
    using fetch_ok [OF assms(1,3)] by auto
  have "held_fits (st\<lparr>queues := q, at_nip_interest_out := Some p\<rparr>)"
    using q(2,4) adaptor_okD(11) [OF assms(1)] by (simp add: held_fits_def)
  then have "fetched ?i c st p (c(?i := ps)) (st\<lparr>queues := q, at_nip_interest_out := Some p\<rparr>)"
    using assms(2) adaptor_okD(6,11) [OF assms(1)] by (intro q(5)) (simp add: held_def)
  moreover have "printf_reads_within (sint (nd_nlen d)) (nd_buf d)"
    using name_fits_printf [OF adaptor_okD(8) [OF assms(1) q(2)] q(4)] .
  ultimately show ?thesis using q assms(2) by (auto simp: nip_interest_out_def)
qed

lemma nip_interest_out_release:
  assumes "adaptor_ok c st" "allocs_fit al st" "at_nip_interest_out st = Some p" "0 < wait"
  shows "\<exists>q d. nip_interest_out wait al st =
        Some ([Nip_out (sent_ibuf TYPE_INTEREST 0 d (s_junk al))], st\<lparr>queues := q, at_nip_interest_out := None\<rparr>)
     \<and> bufs st p = Some d
     \<and> freed al c st p (put_in Freebuf_list (c_node al) p c) (st\<lparr>queues := q, at_nip_interest_out := None\<rparr>)"
proof -
  let ?st = "st\<lparr>at_nip_interest_out := None\<rparr>"
  obtain q where q: "enq Freebuf_list (c_node al) p ?st = Some (?st\<lparr>queues := q\<rparr>)"
     "freed al c st p (put_in Freebuf_list (c_node al) p c) (?st\<lparr>queues := q\<rparr>)"
    using release_ok [OF assms(1) allocs_fit_free [OF assms(2)], of p ?st] assms(3) adaptor_okD(6,11) [OF assms(1)]
    by (auto simp: held_def)
  obtain st1 where "enq Freebuf_list (c_node al) p st = Some st1"
      "st1\<lparr>at_nip_interest_out := None\<rparr> = ?st\<lparr>queues := q\<rparr>"
    using q(1) by (auto simp: enq_at)
  moreover obtain d where d: "bufs st p = Some d"
    using adaptor_okD(3) [OF assms(1), of p] assms(3) by (auto simp: owned_def held_def)
  moreover have "name_fits d" using adaptor_okD(11) [OF assms(1)] assms(3) d by (simp add: held_fits_def)
  ultimately show ?thesis
    using q(2) assms(3,4) send_ibuf_ok [OF adaptor_okD(8) [OF assms(1) d], of 0]
    by (auto simp: nip_interest_out_def name_fits_def)
qed

section \<open>The coroutine that answers the clients\<close>

lemma entry_at_ok:
  assumes "adaptor_ok c st" "sd_array sd = nut_array st" "0 \<le> sd_entry sd"
    "nat (sd_entry sd) < length (used (nut_table st))"
  shows "entry_at sd st = Some (used (nut_table st) ! nat (sd_entry sd))"
  using assms(2-4) inv_facts(5,8) [OF adaptor_okD(5) [OF assms(1)]]
  by (auto simp: entry_at_def aread_def)

text \<open>The endpoint of the entry, and the end of its list.\<close>

lemma entry_addr:
  assumes "nut_inv t" "m < length (used t)" "deleted (used t ! m) \<noteq> 1" "0 \<le> i"
  shows "i < uint (addr_num (used t ! m)) \<longleftrightarrow> nat i < length (e_addrs (used t ! m))"
    "nat i < length (e_addrs (used t ! m)) \<Longrightarrow> aread (e_addr (used t ! m)) i = Some (e_addrs (used t ! m) ! nat i)"
proof -
  note ok = inv_entry(1) [OF assms(1,2)] inv_entry(2) [OF assms(1-3)]
  note len = length_e_addrs [OF ok]
  show "i < uint (addr_num (used t ! m)) \<longleftrightarrow> nat i < length (e_addrs (used t ! m))"
    unfolding len using assms(4) uint_nat [of "addr_num (used t ! m)"] by linarith
  show "nat i < length (e_addrs (used t ! m)) \<Longrightarrow> aread (e_addr (used t ! m)) i = Some (e_addrs (used t ! m) ! nat i)"
    using assms(4) by (auto simp: aread_def e_addrs_def)
qed


abbreviation sd_nut_entry :: "sending_data \<Rightarrow> adaptor \<Rightarrow> nut_entry" where
  "sd_nut_entry sd st \<equiv> used (nut_table st) ! nat (sd_entry sd)"

text \<open>A coroutine may be suspended at endpoint \<open>i\<close> of a live entry.\<close>

definition sd_live :: "sending_data \<Rightarrow> adaptor \<Rightarrow> bool" where
  "sd_live sd st \<longleftrightarrow> sd_array sd = nut_array st \<and> 0 \<le> sd_entry sd
     \<and> nat (sd_entry sd) < length (used (nut_table st)) \<and> deleted (sd_nut_entry sd st) \<noteq> 1 \<and> 0 \<le> sd_i sd"

lemma sending_ok_iff:
  "sending_ok st \<longleftrightarrow> (\<forall>sd. at_udp_data_out st = Some sd \<longrightarrow>
      sd_live sd st \<and> nat (sd_i sd) < length (e_addrs (sd_nut_entry sd st)))"
  by (simp add: sending_ok_def sd_live_def)

lemma udp_data_out_loop_send:
  assumes "adaptor_ok c st" "sd_live sd st" "nat (sd_i sd) < length (e_addrs (sd_nut_entry sd st))"
    "bufs st (sd_data sd) = Some d"
  shows "udp_data_out_loop sd al st =
     Some ([Udp_out (e_addrs (sd_nut_entry sd st) ! nat (sd_i sd)) (nd_bytes d)],
           st\<lparr>at_udp_data_out := Some sd\<rparr>)"
  using assms entry_at_ok [OF assms(1), of sd] entry_addr [OF adaptor_okD(5) [OF assms(1)], of "nat (sd_entry sd)" "sd_i sd"]
  by (simp add: udp_data_out_loop_def sd_live_def)

lemma udp_data_out_loop_end:
  assumes "adaptor_ok c st" "allocs_fit al st" "sd_live sd st" "length (e_addrs (sd_nut_entry sd st)) \<le> nat (sd_i sd)"
    "at_udp_data_out st = Some sd0" "sd_data sd = sd_data sd0"
  shows "\<exists>t q. udp_data_out_loop sd al st = Some ([], st\<lparr>queues := q, nut_table := t, at_udp_data_out := None\<rparr>)
     \<and> nut_abs t = (nut_abs (nut_table st))(e_key (sd_nut_entry sd st) := None)
     \<and> entry_num t = entry_num (nut_table st)
     \<and> freed al c st (sd_data sd) (put_in Freebuf_list (c_node al) (sd_data sd) c)
          (st\<lparr>queues := q, nut_table := t, at_udp_data_out := None\<rparr>)"
proof -
  let ?m = "nat (sd_entry sd)" and ?p = "sd_data sd"
  have m: "?m < length (used (nut_table st))" "deleted (used (nut_table st) ! ?m) \<noteq> 1" "int ?m = sd_entry sd" "0 \<le> sd_i sd"
    using assms(3) by (auto simp: sd_live_def)
  have inv: "nut_inv (nut_table st)" by (rule adaptor_okD(5) [OF assms(1)])
  have ndone: "\<not> sd_i sd < uint (addr_num (sd_nut_entry sd st))"
    using entry_addr(1) [OF inv m(1,2,4)] assms(4) by simp
  have at: "entry_at sd st = Some (sd_nut_entry sd st)"
    using entry_at_ok [OF assms(1), of sd] assms(3) by (simp add: sd_live_def)
  obtain t where t: "nut_del (sd_entry sd) (nut_table st) = Some t" "nut_inv t" "entry_num t = entry_num (nut_table st)"
      "nut_abs t = (nut_abs (nut_table st))(e_key (sd_nut_entry sd st) := None)"
    using nut_del_eq [OF inv m(1,2)] m(3) by auto
  let ?st = "st\<lparr>nut_table := t, at_udp_data_out := None\<rparr>"
  have ok1: "adaptor_ok c (st\<lparr>at_udp_data_out := None\<rparr>)" "?p \<notin># owned c (st\<lparr>at_udp_data_out := None\<rparr>)"
      "\<exists>d. bufs (st\<lparr>at_udp_data_out := None\<rparr>) ?p = Some d"
    using adaptor_ok_release [OF assms(1), of ?p "st\<lparr>at_udp_data_out := None\<rparr>"] assms(5,6) adaptor_okD(11) [OF assms(1)]
    by (auto simp: held_def sending_ok_def)
  have same: "owned c ?st = owned c (st\<lparr>at_udp_data_out := None\<rparr>)" by (simp add: owned_def held_def)
  have ok2: "adaptor_ok c ?st"
    using ok1(1) t(2) same by (auto simp: adaptor_ok_def bufs_ok_def sending_ok_def)
  obtain d where d: "bufs ?st ?p = Some d" using ok1(3) by auto
  obtain q where q: "enq Freebuf_list (c_node al) ?p ?st = Some (?st\<lparr>queues := q\<rparr>)"
      "adaptor_ok (put_in Freebuf_list (c_node al) ?p c) (?st\<lparr>queues := q\<rparr>)"
    using enq_ok [OF ok2 _ d, of Freebuf_list "c_node al"] allocs_fit_free [OF assms(2), of Freebuf_list] ok1(2) same
    unfolding put_in_def by (auto simp: named_queue_def)
  have eq: "?st\<lparr>queues := q\<rparr> = st\<lparr>queues := q, nut_table := t, at_udp_data_out := None\<rparr>" by (cases st) simp
  have own: "owned c st = add_mset ?p (owned c ?st)" using assms(5,6) by (simp add: owned_def held_def)
  have leak: "leaked (put_in Freebuf_list (c_node al) ?p c) (?st\<lparr>queues := q\<rparr>) =
      (if c_node al = NULL then insert ?p (leaked c st) else leaked c st)"
    using own ok1(2) same d by (auto simp: leaked_def put_in_def owned_snoc simp del: at_queues_swap)
  obtain st1 where st1: "enq Freebuf_list (c_node al) ?p (st\<lparr>nut_table := t\<rparr>) = Some st1"
      "st1\<lparr>at_udp_data_out := None\<rparr> = ?st\<lparr>queues := q\<rparr>"
    using q(1) enq_at(2) [of Freebuf_list "c_node al" ?p None "st\<lparr>nut_table := t\<rparr>"] by auto
  have run: "udp_data_out_loop sd al st = Some ([], st\<lparr>queues := q, nut_table := t, at_udp_data_out := None\<rparr>)"
    using at ndone t(1) st1 eq by (simp add: udp_data_out_loop_def)
  have "freed al c st ?p (put_in Freebuf_list (c_node al) ?p c) (?st\<lparr>queues := q\<rparr>)"
    using q(2) leak by (simp add: freed_def)
  with run t eq show ?thesis by metis
qed

lemma udp_data_out_idle:
  assumes "adaptor_ok c st" "at_udp_data_out st = None" "c Realtosim_data_queue = []"
  shows "udp_data_out al st = Some ([], st)"
  using assms(2) deq_empty [OF adaptor_okD(1) [OF assms(1)] assms(3)] by (simp add: udp_data_out_def)

lemma udp_data_out_unknown:
  assumes "adaptor_ok c st" "at_udp_data_out st = None" "c Realtosim_data_queue = p # ps"
    "bufs st p = Some d" "nut_abs (nut_table st) (dgram_key d) = None"
  shows "\<exists>q. udp_data_out al st = Some ([], st\<lparr>queues := q\<rparr>)
     \<and> adaptor_ok (c(Realtosim_data_queue := ps)) (st\<lparr>queues := q\<rparr>)
     \<and> p \<notin> leaked c st \<and> leaked (c(Realtosim_data_queue := ps)) (st\<lparr>queues := q\<rparr>) = insert p (leaked c st)"
proof -
  let ?i = Realtosim_data_queue
  obtain q where q: "deq ?i st = Some (p, st\<lparr>queues := q\<rparr>)" "adaptor_ok (c(?i := ps)) (st\<lparr>queues := q\<rparr>)"
      "p \<notin># owned (c(?i := ps)) st" "p \<noteq> NULL" "name_fits d"
    using deq_ok [OF assms(1,3)] assms(4) by auto
  have "nut_get (nut_table st) (nd_buf d) (sint (nd_nlen d)) = Some None"
    using nut_get_refines_lookup [OF adaptor_okD(5) [OF assms(1)] name_fits_ok [OF adaptor_okD(8) [OF assms(1,4)] q(5)]]
      assms(5) by simp
  then have "udp_data_out al st = Some ([], st\<lparr>queues := q\<rparr>)"
    using q assms(2,4) by (simp add: udp_data_out_def)
  moreover have "p \<notin> leaked c st \<and> leaked (c(?i := ps)) (st\<lparr>queues := q\<rparr>) = insert p (leaked c st)"
    using q(3) assms(4) owned_cons [of c ?i p ps st, OF assms(3)] by (auto simp: leaked_def)
  ultimately show ?thesis using q(2) by blast
qed

lemma udp_data_out_first:
  assumes "adaptor_ok c st" "at_udp_data_out st = None" "c Realtosim_data_queue = p # ps"
    "bufs st p = Some d" "nut_abs (nut_table st) (dgram_key d) = Some as"
  shows "\<exists>q sd. udp_data_out al st =
        Some ([Udp_out (hd as) (nd_bytes d)], st\<lparr>queues := q, at_udp_data_out := Some sd\<rparr>)
     \<and> fetched Realtosim_data_queue c st p (c(Realtosim_data_queue := ps)) (st\<lparr>queues := q, at_udp_data_out := Some sd\<rparr>)
     \<and> sd_data sd = p \<and> sd_i sd = 0 \<and> e_key (sd_nut_entry sd st) = dgram_key d \<and> as \<noteq> []"
proof -
  let ?i = Realtosim_data_queue
  obtain q where q: "deq ?i st = Some (p, st\<lparr>queues := q\<rparr>)" "p \<noteq> NULL" "name_fits d"
     "\<And>st'. mset (held st') = add_mset p (mset (held st)) \<and> queues st' = q \<and> bufs st' = bufs st
              \<and> nut_table st' = nut_table st \<and> sending_ok st' \<and> held_fits st' \<Longrightarrow> fetched ?i c st p (c(?i := ps)) st'"
    using fetch_ok [OF assms(1,3)] assms(4) by auto
  have inv: "nut_inv (nut_table st)" by (rule adaptor_okD(5) [OF assms(1)])
  obtain m where m: "nut_get (nut_table st) (nd_buf d) (sint (nd_nlen d)) = Some (Some (int m))"
      "m < length (used (nut_table st))" "live_at (dgram_key d) (used (nut_table st) ! m)"
      "e_addrs (used (nut_table st) ! m) = as"
    using nut_get_refines_lookup [OF inv name_fits_ok [OF adaptor_okD(8) [OF assms(1,4)] q(3)]] assms(5) by auto
  let ?sd = "\<lparr>sd_data = p, sd_entry = int m, sd_array = nut_array st, sd_i = 0\<rparr>"
  let ?st = "st\<lparr>queues := q, at_udp_data_out := Some ?sd\<rparr>"
  have live: "deleted (used (nut_table st) ! m) \<noteq> 1" "e_key (used (nut_table st) ! m) = dgram_key d"
    using m(3) by (auto simp: live_at_def)
  have ne: "as \<noteq> []"
    using inv_entry(2) [OF inv m(2) live(1)] length_e_addrs [OF inv_entry(1) [OF inv m(2)]] m(4)
    by (auto simp: entry_ok_def)
  have send: "sending_ok ?st" using m live ne by (auto simp: sending_ok_def)
  have f: "fetched ?i c st p (c(?i := ps)) ?st"
    using assms(2) send adaptor_okD(11) [OF assms(1)] by (intro q(4)) (simp add: held_def)
  have "adaptor_ok (c(?i := ps)) (st\<lparr>queues := q\<rparr>)" using deq_ok [OF assms(1,3)] q(1) by auto
  moreover have "sd_live ?sd (st\<lparr>queues := q\<rparr>)" using m live by (simp add: sd_live_def)
  ultimately have "udp_data_out_loop ?sd al (st\<lparr>queues := q\<rparr>) = Some ([Udp_out (hd as) (nd_bytes d)], ?st)"
    using udp_data_out_loop_send [of "c(?i := ps)" "st\<lparr>queues := q\<rparr>" ?sd d] m(4) ne assms(4)
    by (simp add: hd_conv_nth)
  then have "udp_data_out al st = Some ([Udp_out (hd as) (nd_bytes d)], ?st)"
    using q(1,2) assms(2,4) m(1) by (simp add: udp_data_out_def)
  with f live(2) ne show ?thesis by (intro exI [of _ q] exI [of _ ?sd]) simp
qed

lemma udp_data_out_next:
  assumes "adaptor_ok c st" "at_udp_data_out st = Some sd" "bufs st (sd_data sd) = Some d"
    "Suc (nat (sd_i sd)) < length (e_addrs (sd_nut_entry sd st))"
  shows "udp_data_out al st =
      Some ([Udp_out (e_addrs (sd_nut_entry sd st) ! Suc (nat (sd_i sd))) (nd_bytes d)],
            st\<lparr>at_udp_data_out := Some (sd\<lparr>sd_i := sd_i sd + 1\<rparr>)\<rparr>)"
    and "adaptor_ok c (st\<lparr>at_udp_data_out := Some (sd\<lparr>sd_i := sd_i sd + 1\<rparr>)\<rparr>)"
proof -
  let ?sd = "sd\<lparr>sd_i := sd_i sd + 1\<rparr>"
  have live: "sd_live sd st" "nat (sd_i sd) < length (e_addrs (sd_nut_entry sd st))"
    using adaptor_okD(6) [OF assms(1)] assms(2) by (auto simp: sending_ok_iff)
  have suc: "nat (sd_i sd + 1) = Suc (nat (sd_i sd))" using live by (simp add: sd_live_def nat_add_distrib)
  have live': "sd_live ?sd st" using live(1) by (simp add: sd_live_def)
  have "entry_at sd st = Some (sd_nut_entry sd st)" "aread (e_addr (sd_nut_entry sd st)) (sd_i sd) = Some (e_addrs (sd_nut_entry sd st) ! nat (sd_i sd))"
    using entry_at_ok [OF assms(1)] entry_addr(2) [OF adaptor_okD(5) [OF assms(1)]] live by (auto simp: sd_live_def)
  then show "udp_data_out al st =
      Some ([Udp_out (e_addrs (sd_nut_entry sd st) ! Suc (nat (sd_i sd))) (nd_bytes d)],
            st\<lparr>at_udp_data_out := Some ?sd\<rparr>)"
    using udp_data_out_loop_send [OF assms(1) live', of d al] assms suc by (simp add: udp_data_out_def)
  have "sending_ok (st\<lparr>at_udp_data_out := Some ?sd\<rparr>)"
    using live' assms(4) suc by (auto simp: sending_ok_def sd_live_def)
  then show "adaptor_ok c (st\<lparr>at_udp_data_out := Some ?sd\<rparr>)"
    using assms(1,2) by (auto simp: adaptor_ok_def bufs_ok_def owned_def held_def)
qed

lemma udp_data_out_last:
  assumes "adaptor_ok c st" "allocs_fit al st" "at_udp_data_out st = Some sd"
    "length (e_addrs (sd_nut_entry sd st)) \<le> Suc (nat (sd_i sd))"
  shows "\<exists>t q. udp_data_out al st = Some ([], st\<lparr>queues := q, nut_table := t, at_udp_data_out := None\<rparr>)
     \<and> nut_abs t = (nut_abs (nut_table st))(e_key (sd_nut_entry sd st) := None)
     \<and> entry_num t = entry_num (nut_table st)
     \<and> freed al c st (sd_data sd) (put_in Freebuf_list (c_node al) (sd_data sd) c)
          (st\<lparr>queues := q, nut_table := t, at_udp_data_out := None\<rparr>)"
proof -
  let ?sd = "sd\<lparr>sd_i := sd_i sd + 1\<rparr>"
  have live: "sd_live sd st" "nat (sd_i sd) < length (e_addrs (sd_nut_entry sd st))"
    using adaptor_okD(6) [OF assms(1)] assms(3) by (auto simp: sending_ok_iff)
  have live': "sd_live ?sd st" using live(1) by (simp add: sd_live_def)
  have fin: "length (e_addrs (sd_nut_entry ?sd st)) \<le> nat (sd_i ?sd)"
    using assms(4) live(1) by (simp add: sd_live_def nat_add_distrib)
  have "entry_at sd st = Some (sd_nut_entry sd st)" "aread (e_addr (sd_nut_entry sd st)) (sd_i sd) = Some (e_addrs (sd_nut_entry sd st) ! nat (sd_i sd))"
    using entry_at_ok [OF assms(1)] entry_addr(2) [OF adaptor_okD(5) [OF assms(1)]] live by (auto simp: sd_live_def)
  then have "udp_data_out al st = udp_data_out_loop ?sd al st"
    using assms(3) by (simp add: udp_data_out_def)
  with udp_data_out_loop_end [OF assms(1,2) live' fin assms(3)] show ?thesis by simp
qed

end
