(* ===== verification/Relay.thy ===== *)
theory Relay
  imports Adaptor Name_Map Nut_Proofs
begin

text \<open>
  What the adaptor is for, without its memory: four first-in first-out channels of packets (a name
  and a content) between the sockets, and the endpoints that wait for a name.  An interest from a
  client is forwarded when its endpoint was added to those that wait; a data packet goes to every
  endpoint that waits for its name, and the name is then forgotten; the rest is passed on as it
  comes.  A packet is lost when the queue gets no memory for it, or nobody waits for it.
\<close>

type_synonym packet = "char list \<times> char list"

text \<open>What a datagram and a buffer carry; a datagram is well-formed when it holds what its header announces.\<close>

definition packet_of :: "simple_name_data \<Rightarrow> packet" where
  "packet_of d = (take (unat (nd_nlen d)) (nd_buf d),
                  take (unat (nd_dlen d)) (drop (unat (nd_nlen d)) (nd_buf d)))"

definition dgram_wf :: "char list \<Rightarrow> bool" where
  "dgram_wf dg \<longleftrightarrow> 8 \<le> length dg \<and> length dg \<le> 2048 \<and>
     8 + unat (nd_nlen (nd_of_bytes dg)) + unat (nd_dlen (nd_of_bytes dg)) \<le> length dg"

text \<open>The name the table uses: the last 1024 bytes of a longer one.\<close>

definition name_key :: "char list \<Rightarrow> char list" where
  "name_key n = drop (length n - 1024) n"

datatype relay_out = To_udp sockaddr_in packet | To_nip u32 packet

record sending =
  s_packet :: packet
  s_key :: "char list"
  s_i :: nat

record relay =
  chan :: "queue_id \<Rightarrow> packet list"
  waiting :: "char list \<Rightarrow> sockaddr_in list option"
  to_sim :: "packet option"
  to_clients :: "sending option"
  to_nip_data :: "packet option"
  to_nip_interest :: "packet option"
  r_ibuf_interest :: isockbuf
  r_ibuf_data :: isockbuf

definition push :: "queue_id \<Rightarrow> allocs \<Rightarrow> packet \<Rightarrow> relay \<Rightarrow> relay" where
  "push i al p r = (if c_node al = NULL then r else r\<lparr>chan := (chan r)(i := chan r i @ [p])\<rparr>)"

definition ibuf_packet :: "isockbuf \<Rightarrow> packet" where
  "ibuf_packet ib = (take (unat (ib_nlen ib)) (ib_name ib), take (unat (ib_dlen ib)) (ib_data ib))"

fun relay_step :: "(char list \<Rightarrow> u32) \<Rightarrow> event \<Rightarrow> relay \<Rightarrow> relay_out list \<times> relay" where
  "relay_step ina (Udp_data_in dg al) r =
     (if dg = [] then ([], r) else ([], push Simtoreal_data_queue al (packet_of (nd_of_bytes dg)) r))"
| "relay_step ina (Udp_interest_out al) r =
     (case to_sim r of
        Some _ \<Rightarrow> ([], r\<lparr>to_sim := None\<rparr>)
      | None \<Rightarrow> (case chan r Realtosim_interest_queue of
            [] \<Rightarrow> ([], r)
          | p # ps \<Rightarrow> ([To_udp (sim_addr ina) p],
                       r\<lparr>chan := (chan r)(Realtosim_interest_queue := ps), to_sim := Some p\<rparr>)))"
| "relay_step ina (Udp_interest_in dg a al) r =
     (if dg = [] then ([], r)
      else let p = packet_of (nd_of_bytes dg);
               (res, w) = register endpoint 8 (name_key (fst p)) a (waiting r);
               r = r\<lparr>waiting := w\<rparr>
           in ([], if res = 1 then push Simtoreal_interest_queue al p r else r))"
| "relay_step ina (Udp_data_out al) r =
     (case to_clients r of
        None \<Rightarrow> (case chan r Realtosim_data_queue of
            [] \<Rightarrow> ([], r)
          | p # ps \<Rightarrow>
              (case waiting r (name_key (fst p)) of
                 None \<Rightarrow> ([], r\<lparr>chan := (chan r)(Realtosim_data_queue := ps)\<rparr>)
               | Some as \<Rightarrow> ([To_udp (hd as) p],
                   r\<lparr>chan := (chan r)(Realtosim_data_queue := ps),
                     to_clients := Some \<lparr>s_packet = p, s_key = name_key (fst p), s_i = 0\<rparr>\<rparr>)))
      | Some s \<Rightarrow>
          let as = the (waiting r (s_key s)); i = Suc (s_i s)
          in if i < length as
             then ([To_udp (as ! i) (s_packet s)], r\<lparr>to_clients := Some (s\<lparr>s_i := i\<rparr>)\<rparr>)
             else ([], r\<lparr>waiting := (waiting r)(s_key s := None), to_clients := None\<rparr>))"
| "relay_step ina (Nip_interest_in wait irecv al) r =
     (if wait \<le> 0 then ([], r)
      else let (len, ib) = irecv ((r_ibuf_interest r)
                 \<lparr>ib_type := TYPE_INTEREST, ib_nlen := MAX_NAME_LEN, ib_dlen := MAX_DATA_LEN\<rparr>);
               r = r\<lparr>r_ibuf_interest := ib\<rparr>
           in ([], if len \<le> 0 then r
                   else push Realtosim_interest_queue al (fst (ibuf_packet ib), []) r))"
| "relay_step ina (Nip_data_out wait al) r =
     (case to_nip_data r of
        Some p \<Rightarrow> if wait \<le> 0 then ([], r) else ([To_nip TYPE_DATA p], r\<lparr>to_nip_data := None\<rparr>)
      | None \<Rightarrow> (case chan r Simtoreal_data_queue of
            [] \<Rightarrow> ([], r)
          | p # ps \<Rightarrow> ([], r\<lparr>chan := (chan r)(Simtoreal_data_queue := ps), to_nip_data := Some p\<rparr>)))"
| "relay_step ina (Nip_interest_out wait al) r =
     (case to_nip_interest r of
        Some p \<Rightarrow> if wait \<le> 0 then ([], r)
                  else ([To_nip TYPE_INTEREST (fst p, [])], r\<lparr>to_nip_interest := None\<rparr>)
      | None \<Rightarrow> (case chan r Simtoreal_interest_queue of
            [] \<Rightarrow> ([], r)
          | p # ps \<Rightarrow> ([], r\<lparr>chan := (chan r)(Simtoreal_interest_queue := ps), to_nip_interest := Some p\<rparr>)))"
| "relay_step ina (Nip_data_in wait irecv al) r =
     (if wait \<le> 0 then ([], r)
      else let (len, ib) = irecv ((r_ibuf_data r)
                 \<lparr>ib_type := TYPE_DATA, ib_nlen := MAX_NAME_LEN, ib_dlen := MAX_DATA_LEN\<rparr>);
               r = r\<lparr>r_ibuf_data := ib\<rparr>
           in ([], if len \<le> 0 then r
                   else push Realtosim_data_queue al
                          (if d_type ib = D_NACK then (fst (ibuf_packet ib), []) else ibuf_packet ib) r))"

fun relay_run :: "(char list \<Rightarrow> u32) \<Rightarrow> event list \<Rightarrow> relay \<Rightarrow> relay_out list \<times> relay" where
  "relay_run ina [] r = ([], r)"
| "relay_run ina (ev # evs) r =
     (let (out, r) = relay_step ina ev r; (outs, r) = relay_run ina evs r in (out @ outs, r))"

text \<open>What a receiver of the adaptor's packets sees.\<close>

fun seen :: "packet_out \<Rightarrow> relay_out" where
  "seen (Udp_out a bs) = To_udp a (packet_of (nd_of_bytes bs))"
| "seen (Nip_out ib) = To_nip (ib_type ib) (ibuf_packet ib)"

end
