(* ===== verification/Adaptor_Refine.thy ===== *)
theory Adaptor_Refine
  imports Adaptor_Inv Relay
begin

text \<open>
  The adaptor implements the relay: what its queues, its table and its suspended coroutines hold
  represents a state of the relay, and every coroutine takes the relay's step.  This needs
  well-formed packets and an environment that keeps to its part; both are stated per event.
\<close>

section \<open>What may be asked of the environment\<close>

text \<open>\<open>ev_ok\<close> is enough for the invariant, \<open>ev_wf\<close> says in addition that datagrams hold what they announce.\<close>

fun ev_ok :: "malloc \<Rightarrow> adaptor \<Rightarrow> event \<Rightarrow> bool" where
  "ev_ok mal st (Udp_data_in dg al) = (allocs_fit al st \<and> (dg = [] \<or> data_dgram_ok dg))"
| "ev_ok mal st (Udp_interest_out al) = allocs_fit al st"
| "ev_ok mal st (Udp_interest_in dg a al) =
     (allocs_fit al st \<and> (dg = [] \<or> interest_dgram_ok dg \<and> table_room mal st))"
| "ev_ok mal st (Udp_data_out al) = allocs_fit al st"
| "ev_ok mal st (Nip_interest_in wait irecv al) =
     (allocs_fit al st \<and> (wait \<le> 0 \<or> fst (irecv_interest irecv st) \<le> 0
        \<or> ibuf_name_ok (snd (irecv_interest irecv st))))"
| "ev_ok mal st (Nip_data_out wait al) = allocs_fit al st"
| "ev_ok mal st (Nip_interest_out wait al) = allocs_fit al st"
| "ev_ok mal st (Nip_data_in wait irecv al) =
     (allocs_fit al st \<and> (wait \<le> 0 \<or> fst (irecv_data irecv st) \<le> 0
        \<or> (let ib = snd (irecv_data irecv st)
           in ibuf_name_ok ib \<and> (d_type ib = D_NACK \<or> ibuf_data_ok ib))))"

fun ev_wf :: "event \<Rightarrow> bool" where
  "ev_wf (Udp_data_in dg al) = (dg = [] \<or> dgram_wf dg)"
| "ev_wf (Udp_interest_in dg a al) = (dg = [] \<or> dgram_wf dg)"
| "ev_wf _ = True"

fun ev_allocs :: "event \<Rightarrow> allocs" where
  "ev_allocs (Udp_data_in dg al) = al"
| "ev_allocs (Udp_interest_out al) = al"
| "ev_allocs (Udp_interest_in dg a al) = al"
| "ev_allocs (Udp_data_out al) = al"
| "ev_allocs (Nip_interest_in wait irecv al) = al"
| "ev_allocs (Nip_data_out wait al) = al"
| "ev_allocs (Nip_interest_out wait al) = al"
| "ev_allocs (Nip_data_in wait irecv al) = al"

lemma ev_ok_allocs: "ev_ok mal st ev \<Longrightarrow> allocs_fit (ev_allocs ev) st"
  by (cases ev) auto

section \<open>Every event keeps the invariant\<close>

text \<open>
  Buffers get lost when the queue they should go to has no node for them, and at the two places
  where the code drops a packet without giving its buffer back.
\<close>

fun may_drop :: "event \<Rightarrow> bool" where
  "may_drop (Udp_interest_in dg a al) = True"
| "may_drop (Udp_data_out al) = True"
| "may_drop _ = False"

definition step_to :: "event \<Rightarrow> contents \<Rightarrow> adaptor \<Rightarrow> contents \<Rightarrow> adaptor \<Rightarrow> bool" where
  "step_to ev c st c' st' \<longleftrightarrow> adaptor_ok c' st' \<and> leaked c st \<subseteq> leaked c' st'
     \<and> (c_node (ev_allocs ev) \<noteq> NULL \<and> \<not> may_drop ev \<longrightarrow> leaked c' st' = leaked c st)"

lemma step_to_refl: "adaptor_ok c st \<Longrightarrow> step_to ev c st c st"
  by (simp add: step_to_def)

lemma step_toI:
  assumes "adaptor_ok c' st'"
    "leaked c' st' = (if c_node (ev_allocs ev) = NULL then insert p (leaked c st) else leaked c st)"
  shows "step_to ev c st c' st'"
  using assms
  unfolding step_to_def by (cases "c_node (ev_allocs ev) = NULL") (simp_all add: subset_insertI)

lemma step_to_accepted: "accepted i (ev_allocs ev) c st d c' st' \<Longrightarrow> step_to ev c st c' st'"
  unfolding accepted_def by (blast intro: step_toI)

lemma step_to_fetched: "fetched i c st p c' st' \<Longrightarrow> step_to ev c st c' st'"
  by (auto simp: fetched_def step_to_def)

lemma step_to_freed: "freed (ev_allocs ev) c st p c' st' \<Longrightarrow> step_to ev c st c' st'"
  unfolding freed_def by (blast intro: step_toI)

lemma adaptor_step_ok:
  assumes ok: "adaptor_ok c st" and ev: "ev_ok mal st ev"
  shows "\<exists>out st' c'. adaptor_step ina mal ev st = Some (out, st') \<and> step_to ev c st c' st'"
proof (cases ev)
  case (Udp_data_in dg al)
  show ?thesis
  proof (cases "dg = []")
    case True
    with Udp_data_in step_to_refl [OF ok] show ?thesis by (auto simp: udp_data_in_def)
  next
    case False
    obtain st' c' d where r: "udp_data_in dg al st = Some ([], st')"
        "accepted Simtoreal_data_queue al c st d c' st'"
      using udp_data_in_ok [OF ok, of al dg] ev Udp_data_in False by auto
    then have "step_to ev c st c' st'"
      using step_to_accepted [of Simtoreal_data_queue ev] Udp_data_in by simp
    with r(1) Udp_data_in show ?thesis by auto
  qed
next
  case (Udp_interest_out al)
  show ?thesis
  proof (cases "at_udp_interest_out st")
    case None
    show ?thesis
    proof (cases "c Realtosim_interest_queue")
      case Nil
      with udp_interest_out_idle [OF ok None Nil] Udp_interest_out step_to_refl [OF ok] show ?thesis by auto
    next
      case (Cons p ps)
      from udp_interest_out_fetch [OF ok None Cons, of ina al] Udp_interest_out
      show ?thesis by (auto intro: step_to_fetched)
    qed
  next
    case (Some p)
    have "allocs_fit al st" using ev Udp_interest_out by simp
    from udp_interest_out_release [OF ok this Some, of ina] Udp_interest_out
    show ?thesis using step_to_freed [of ev] by fastforce
  qed
next
  case (Udp_interest_in dg a al)
  show ?thesis
  proof (cases "dg = []")
    case True
    with Udp_interest_in step_to_refl [OF ok] show ?thesis by (auto simp: udp_interest_in_def)
  next
    case False
    obtain st' c' r d where "udp_interest_in mal dg a al st = Some ([], st')"
        "if r = (1 :: int) then accepted Simtoreal_interest_queue al c st d c' st' else dropped c st c' st'"
      using udp_interest_in_ok [OF ok, of al dg mal a] ev Udp_interest_in False by auto
    then have "step_to ev c st c' st'"
      using step_to_accepted [of Simtoreal_interest_queue ev] Udp_interest_in
      by (cases "r = 1") (auto simp: step_to_def dropped_def)
    with \<open>udp_interest_in mal dg a al st = Some ([], st')\<close> Udp_interest_in show ?thesis by auto
  qed
next
  case (Udp_data_out al)
  have al: "allocs_fit al st" using ev Udp_data_out by simp
  show ?thesis
  proof (cases "at_udp_data_out st")
    case None
    show ?thesis
    proof (cases "c Realtosim_data_queue")
      case Nil
      with udp_data_out_idle [OF ok None Nil] Udp_data_out step_to_refl [OF ok] show ?thesis by auto
    next
      case (Cons p ps)
      then obtain d where d: "bufs st p = Some d"
        using adaptor_okD(3) [OF ok in_owned_queue, of p Realtosim_data_queue] by auto
      show ?thesis
      proof (cases "nut_abs (nut_table st) (dgram_key d)")
        case None': None
        from udp_data_out_unknown [OF ok None Cons d None', of al] Udp_data_out
        show ?thesis by (auto simp: step_to_def)
      next
        case (Some as)
        from udp_data_out_first [OF ok None Cons d Some, of al] Udp_data_out
        show ?thesis by (auto intro: step_to_fetched)
      qed
    qed
  next
    case (Some sd)
    obtain d where d: "bufs st (sd_data sd) = Some d"
      using adaptor_okD(3) [OF ok, of "sd_data sd"] Some by (auto simp: owned_def held_def)
    show ?thesis
    proof (cases "Suc (nat (sd_i sd)) < length (e_addrs (sd_nut_entry sd st))")
      case True
      have "leaked c (st\<lparr>at_udp_data_out := Some (sd\<lparr>sd_i := sd_i sd + 1\<rparr>)\<rparr>) = leaked c st"
        using Some by (simp add: leaked_def owned_def held_def)
      with udp_data_out_next(1) [OF ok Some d True, of al] udp_data_out_next(2) [OF ok Some d True] Udp_data_out
      show ?thesis by (auto simp: step_to_def)
    next
      case False
      then have "length (e_addrs (sd_nut_entry sd st)) \<le> Suc (nat (sd_i sd))" by simp
      from udp_data_out_last [OF ok al Some this] Udp_data_out
      show ?thesis using step_to_freed [of ev] by fastforce
    qed
  qed
next
  case (Nip_interest_in wait irecv al)
  obtain len ib where ib: "irecv_interest irecv st = (len, ib)" by fastforce
  show ?thesis
  proof (cases "wait \<le> 0 \<or> len \<le> 0")
    case True
    have "step_to ev c st c (st\<lparr>ibuf_nip_interest_in := ib\<rparr>)"
      using ok by (simp add: step_to_def adaptor_ok_ibuf leaked_def)
    with True ib step_to_refl [OF ok] Nip_interest_in show ?thesis
      by (auto simp: nip_interest_in_def irecv_interest_def)
  next
    case False
    then have w: "0 < wait" "0 < len" by auto
    have "allocs_fit al st" "ibuf_name_ok ib" using ev Nip_interest_in ib False by auto
    then obtain st' c' d where r: "nip_interest_in wait irecv al st = Some ([], st')"
        "accepted Realtosim_interest_queue al c st d c' st'"
      using nip_interest_in_ok [OF ok _ w(1) ib w(2), of al] by auto
    then have "step_to ev c st c' st'"
      using step_to_accepted [of Realtosim_interest_queue ev] Nip_interest_in by simp
    with r(1) Nip_interest_in show ?thesis by auto
  qed
next
  case (Nip_data_out wait al)
  have al: "allocs_fit al st" using ev Nip_data_out by simp
  show ?thesis
  proof (cases "at_nip_data_out st")
    case None
    show ?thesis
    proof (cases "c Simtoreal_data_queue")
      case Nil
      with nip_data_out_idle [OF ok None Nil] Nip_data_out step_to_refl [OF ok] show ?thesis by auto
    next
      case (Cons p ps)
      from nip_data_out_fetch [OF ok None Cons, of wait al] Nip_data_out
      show ?thesis by (auto intro: step_to_fetched)
    qed
  next
    case (Some p)
    show ?thesis
    proof (cases "wait \<le> 0")
      case True
      with Some Nip_data_out step_to_refl [OF ok] show ?thesis by (auto simp: nip_data_out_def)
    next
      case False
      then have "0 < wait" by simp
      from nip_data_out_release [OF ok al Some this] Nip_data_out
      show ?thesis using step_to_freed [of ev] by fastforce
    qed
  qed
next
  case (Nip_interest_out wait al)
  have al: "allocs_fit al st" using ev Nip_interest_out by simp
  show ?thesis
  proof (cases "at_nip_interest_out st")
    case None
    show ?thesis
    proof (cases "c Simtoreal_interest_queue")
      case Nil
      with nip_interest_out_idle [OF ok None Nil] Nip_interest_out step_to_refl [OF ok] show ?thesis by auto
    next
      case (Cons p ps)
      from nip_interest_out_fetch [OF ok None Cons, of wait al] Nip_interest_out
      show ?thesis by (auto intro: step_to_fetched)
    qed
  next
    case (Some p)
    show ?thesis
    proof (cases "wait \<le> 0")
      case True
      with Some Nip_interest_out step_to_refl [OF ok] show ?thesis by (auto simp: nip_interest_out_def)
    next
      case False
      then have "0 < wait" by simp
      from nip_interest_out_release [OF ok al Some this] Nip_interest_out
      show ?thesis using step_to_freed [of ev] by fastforce
    qed
  qed
next
  case (Nip_data_in wait irecv al)
  obtain len ib where ib: "irecv_data irecv st = (len, ib)" by fastforce
  show ?thesis
  proof (cases "wait \<le> 0 \<or> len \<le> 0")
    case True
    have "step_to ev c st c (st\<lparr>ibuf_nip_data_in := ib\<rparr>)"
      using ok by (simp add: step_to_def adaptor_ok_ibuf leaked_def)
    with True ib step_to_refl [OF ok] Nip_data_in show ?thesis
      by (auto simp: nip_data_in_def irecv_data_def)
  next
    case False
    then have w: "0 < wait" "0 < len" by auto
    have "allocs_fit al st" "ibuf_name_ok ib" "d_type ib = D_NACK \<or> ibuf_data_ok ib"
      using ev Nip_data_in ib False by (auto simp: Let_def)
    then obtain st' c' d where r: "nip_data_in wait irecv al st = Some ([], st')"
        "accepted Realtosim_data_queue al c st d c' st'"
      using nip_data_in_ok [OF ok _ w(1) ib w(2), of al] by auto
    then have "step_to ev c st c' st'"
      using step_to_accepted [of Realtosim_data_queue ev] Nip_data_in by simp
    with r(1) Nip_data_in show ?thesis by auto
  qed
qed


section \<open>The state of the relay an adaptor stands for\<close>

definition packet_at :: "adaptor \<Rightarrow> addr \<Rightarrow> packet" where
  "packet_at st p = packet_of (the (bufs st p))"

definition view :: "contents \<Rightarrow> adaptor \<Rightarrow> queue_id \<Rightarrow> packet list" where
  "view c st i = (if i = Freebuf_list then [] else map (packet_at st) (c i))"

definition sending_of :: "adaptor \<Rightarrow> sending_data \<Rightarrow> sending" where
  "sending_of st sd = \<lparr>s_packet = packet_at st (sd_data sd), s_key = e_key (sd_nut_entry sd st),
                       s_i = nat (sd_i sd)\<rparr>"

text \<open>Buffers that carry a packet: those in the four queues and with the coroutines.\<close>

definition carriers :: "contents \<Rightarrow> adaptor \<Rightarrow> addr set" where
  "carriers c st = (\<Union>i \<in> - {Freebuf_list}. set (c i)) \<union> set (held st)"

definition all_wf :: "contents \<Rightarrow> adaptor \<Rightarrow> bool" where
  "all_wf c st \<longleftrightarrow> (\<forall>p \<in> carriers c st. packet_wf (the (bufs st p)))"

definition relay_of :: "contents \<Rightarrow> adaptor \<Rightarrow> relay" where
  "relay_of c st = \<lparr>chan = view c st, waiting = nut_abs (nut_table st),
     to_sim = map_option (packet_at st) (at_udp_interest_out st),
     to_clients = map_option (sending_of st) (at_udp_data_out st),
     to_nip_data = map_option (packet_at st) (at_nip_data_out st),
     to_nip_interest = map_option (packet_at st) (at_nip_interest_out st),
     r_ibuf_interest = ibuf_nip_interest_in st, r_ibuf_data = ibuf_nip_data_in st\<rparr>"

definition refines :: "contents \<Rightarrow> adaptor \<Rightarrow> relay \<Rightarrow> bool" where
  "refines c st r \<longleftrightarrow> adaptor_ok c st \<and> all_wf c st \<and> r = relay_of c st"

lemma refinesI: "adaptor_ok c st \<Longrightarrow> all_wf c st \<Longrightarrow> relay_of c st = r \<Longrightarrow> refines c st r"
  by (simp add: refines_def)

section \<open>Packets\<close>

lemma key_of_packet:
  assumes "nd_ok d" "name_fits d"
  shows "dgram_key d = name_key (fst (packet_of d))"
proof -
  let ?n = "unat (nd_nlen d)"
  have n: "sint (nd_nlen d) = int ?n" "?n \<le> 2040" "length (nd_buf d) = 2040"
    using assms by (auto simp: name_fits_def nd_ok_def sint_small)
  show ?thesis
  proof (cases "?n \<le> 1024")
    case True
    then show ?thesis using n by (simp add: nut_key_short name_key_def packet_of_def del: of_nat_unat)
  next
    case False
    then have "nut_key (nd_buf d) (int ?n) = take 1024 (drop (?n - 1024) (nd_buf d))"
      by (simp add: nut_key_long nat_diff_distrib del: of_nat_unat)
    then show ?thesis
      using n False by (simp add: name_key_def packet_of_def drop_take del: of_nat_unat)
  qed
qed

lemma dgram_packet:
  assumes "dgram_wf dg" "nd_ok d0"
  defines "d \<equiv> nd_of_bytes (dg @ drop (length dg) (nd_bytes d0))"
  shows "packet_of d = packet_of (nd_of_bytes dg)" "packet_wf d" "interest_dgram_ok dg" "length dg \<le> 2048"
    "nd_ok d" "data_dgram_ok dg"
proof -
  have len: "8 \<le> length dg" "length dg \<le> 2048"
      "8 + unat (nd_nlen (nd_of_bytes dg)) + unat (nd_dlen (nd_of_bytes dg)) \<le> length dg"
    using assms(1) by (auto simp: dgram_wf_def)
  have fields: "nd_nlen d = nd_nlen (nd_of_bytes dg)" "nd_dlen d = nd_dlen (nd_of_bytes dg)"
      "nd_buf d = drop 8 dg @ drop (length dg) (nd_bytes d0)"
    using len by (simp_all add: d_def nd_of_bytes_def)
  show "packet_of d = packet_of (nd_of_bytes dg)"
    using len(3) unfolding packet_of_def fields by (simp add: nd_of_bytes_def)
  show "packet_wf d" using len unfolding packet_wf_def fields by simp
  show "interest_dgram_ok dg" using len by (simp add: interest_dgram_ok_def name_fits_def)
  show "length dg \<le> 2048" by (rule len(2))
  show "data_dgram_ok dg" using len by (simp add: data_dgram_ok_def packet_wf_def)
  show "nd_ok d" using len length_nd_bytes [OF assms(2)] by (simp add: nd_ok_def fields)
qed

lemma seen_nip_data:
  assumes "packet_wf d"
  shows "seen (Nip_out (sent_ibuf ty (ucast (nd_dlen d)) d junk)) = To_nip ty (packet_of d)"
    and "seen (Nip_out (sent_ibuf ty 0 d junk)) = To_nip ty (fst (packet_of d), [])"
proof -
  have n: "unat (ucast (nd_nlen d) :: u16) = unat (nd_nlen d)"
    using assms by (simp add: packet_wf_def unsigned_ucast_eq take_bit_nat_eq_self)
  have m: "unat (ucast (nd_dlen d) :: u64) = unat (nd_dlen d)"
    using assms by (simp add: packet_wf_def unsigned_ucast_eq take_bit_nat_eq_self)
  show "seen (Nip_out (sent_ibuf ty (ucast (nd_dlen d)) d junk)) = To_nip ty (packet_of d)"
    using n m by (simp add: ibuf_packet_def packet_of_def sent_ibuf_def)
  show "seen (Nip_out (sent_ibuf ty 0 d junk)) = To_nip ty (fst (packet_of d), [])"
    using n by (simp add: ibuf_packet_def packet_of_def sent_ibuf_def)
qed

lemma interest_packet:
  assumes "ibuf_name_ok ib" "nd_ok d0"
  shows "packet_of (interest_buffer ib d0) = (fst (ibuf_packet ib), [])" "packet_wf (interest_buffer ib d0)"
  using assms by (auto simp: packet_of_def interest_buffer_def ibuf_packet_def packet_wf_def
      unat_ucast_16_32 ibuf_name_ok_def)

lemma data_packet:
  assumes "ibuf_name_ok ib" "d_type ib = D_NACK \<or> ibuf_data_ok ib" "nd_ok d0"
  shows "packet_of (data_buffer ib d0) =
      (if d_type ib = D_NACK then (fst (ibuf_packet ib), []) else ibuf_packet ib)"
    "packet_wf (data_buffer ib d0)"
proof -
  have m: "unat (ucast (ib_dlen ib) :: u32) = unat (ib_dlen ib)" if "ibuf_data_ok ib"
    using that by (intro unat_ucast_64_32) (simp add: ibuf_data_ok_def)
  show "packet_of (data_buffer ib d0) =
      (if d_type ib = D_NACK then (fst (ibuf_packet ib), []) else ibuf_packet ib)"
    using assms m
    by (auto simp: packet_of_def data_buffer_def ibuf_packet_def Let_def unat_ucast_16_32 ibuf_name_ok_def ibuf_data_ok_def)
  show "packet_wf (data_buffer ib d0)"
    using assms m by (auto simp: data_buffer_def packet_wf_def Let_def unat_ucast_16_32 ibuf_name_ok_def ibuf_data_ok_def)
qed


section \<open>What the elementary moves are for the relay\<close>

lemma kept_packets:
  assumes "\<forall>x \<in># owned (take_free c) st. bufs st' x = bufs st x"
  shows "x \<in> carriers c st \<Longrightarrow> bufs st' x = bufs st x"
    and "j \<noteq> Freebuf_list \<Longrightarrow> map (packet_at st') (c j) = map (packet_at st) (c j)"
    and "x \<in> set (held st) \<Longrightarrow> packet_at st' x = packet_at st x"
proof -
  have q: "bufs st' x = bufs st x" if "j \<noteq> Freebuf_list" "x \<in> set (c j)" for j x
    using assms in_owned_queue [of x "take_free c" j st] that by simp
  have h: "bufs st' x = bufs st x" if "x \<in> set (held st)" for x
    using assms that by (simp add: owned_def)
  show "x \<in> carriers c st \<Longrightarrow> bufs st' x = bufs st x" using q h by (auto simp: carriers_def)
  show "j \<noteq> Freebuf_list \<Longrightarrow> map (packet_at st') (c j) = map (packet_at st) (c j)"
    using q by (simp add: packet_at_def)
  show "x \<in> set (held st) \<Longrightarrow> packet_at st' x = packet_at st x" using h by (simp add: packet_at_def)
qed

lemma same_at_held: "same_at st st' \<Longrightarrow> held st' = held st"
  by (simp add: same_at_def held_def)

lemma relay_same_at:
  assumes "same_at st st'" "\<And>x. x \<in> set (held st) \<Longrightarrow> packet_at st' x = packet_at st x" "sending_ok st"
    "keeps_live (nut_table st) (nut_table st')"
  shows "relay_of c' st' = (relay_of c st)\<lparr>chan := view c' st', waiting := nut_abs (nut_table st'),
     r_ibuf_interest := ibuf_nip_interest_in st', r_ibuf_data := ibuf_nip_data_in st'\<rparr>"
proof -
  have 1: "map_option (packet_at st') (at_udp_interest_out st) = map_option (packet_at st) (at_udp_interest_out st)"
      "map_option (packet_at st') (at_nip_data_out st) = map_option (packet_at st) (at_nip_data_out st)"
      "map_option (packet_at st') (at_nip_interest_out st) = map_option (packet_at st) (at_nip_interest_out st)"
    using assms(2) by (auto simp: held_def intro!: option.map_cong0)
  have "sending_of st' sd = sending_of st sd" if "at_udp_data_out st = Some sd" for sd
    using assms(2-4) that
    by (auto simp: sending_of_def held_def sending_ok_def keeps_live_def extends_def)
  then have 2: "map_option (sending_of st') (at_udp_data_out st) = map_option (sending_of st) (at_udp_data_out st)"
    by (cases "at_udp_data_out st") auto
  show ?thesis using assms(1) 1 2 by (simp add: relay_of_def same_at_def)
qed

lemma relay_accepted:
  assumes "adaptor_ok c st" "all_wf c st" "accepted i al c st d c' st'" "i \<noteq> Freebuf_list" "packet_wf d"
    "keeps_live (nut_table st) (nut_table st')"
  shows "refines c' st' (push i al (packet_of d) ((relay_of c st)\<lparr>waiting := nut_abs (nut_table st'),
     r_ibuf_interest := ibuf_nip_interest_in st', r_ibuf_data := ibuf_nip_data_in st'\<rparr>))"
proof -
  obtain p where p: "c' = put_in i (c_node al) p (take_free c)" "bufs st' p = Some d"
      "\<forall>x \<in># owned (take_free c) st. bufs st' x = bufs st x" "same_at st st'" "adaptor_ok c' st'"
    using assms(3) unfolding accepted_def by blast
  note kept = kept_packets [OF p(3)]
  have view: "view c' st' = (if c_node al = NULL then view c st else (view c st)(i := view c st i @ [packet_of d]))"
  proof
    fix j
    have "packet_at st' p = packet_of d" using p(2) by (simp add: packet_at_def)
    then show "view c' st' j = (if c_node al = NULL then view c st else (view c st)(i := view c st i @ [packet_of d])) j"
      using kept(2) [of j] assms(4) p(1) by (auto simp: view_def put_in_def)
  qed
  have "carriers c' st' \<subseteq> insert p (carriers c st)"
    using assms(4) p(1) same_at_held [OF p(4)]
    by (auto simp: carriers_def put_in_def split: if_splits)
  moreover have "packet_wf (the (bufs st' x))" if "x \<in> insert p (carriers c st)" for x
    using that kept(1) [of x] assms(2,5) p(2) by (cases "x = p") (auto simp: all_wf_def)
  ultimately have "all_wf c' st'" unfolding all_wf_def by blast
  then show ?thesis
    using relay_same_at [OF p(4) kept(3) adaptor_okD(6) [OF assms(1)] assms(6), of c' c] view p(5)
    by (intro refinesI) (auto simp: push_def relay_of_def)
qed

lemma relay_dropped:
  assumes "adaptor_ok c st" "all_wf c st" "dropped c st c' st'" "keeps_live (nut_table st) (nut_table st')"
  shows "refines c' st' ((relay_of c st)\<lparr>waiting := nut_abs (nut_table st'),
     r_ibuf_interest := ibuf_nip_interest_in st', r_ibuf_data := ibuf_nip_data_in st'\<rparr>)"
proof -
  have p: "c' = take_free c" "same_at st st'" "adaptor_ok c' st'"
    and kept': "\<forall>x \<in># owned (take_free c) st. bufs st' x = bufs st x"
    using assms(3) unfolding dropped_def by blast+
  note kept = kept_packets [OF kept']
  have view: "view c' st' = view c st"
  proof
    show "view c' st' j = view c st j" for j
      using kept(2) [of j] p(1) by (simp add: view_def)
  qed
  have "carriers c' st' = carriers c st"
    using p(1) same_at_held [OF p(2)] by (auto simp: carriers_def)
  then have "all_wf c' st'" using kept(1) assms(2) by (simp add: all_wf_def)
  then show ?thesis
    using relay_same_at [OF p(2) kept(3) adaptor_okD(6) [OF assms(1)] assms(4), of c' c] view p(3)
    by (intro refinesI) (auto simp: relay_of_def)
qed

text \<open>Moves that leave the buffers alone: only the contents of the queues and the coroutines change.\<close>

lemma packet_at_bufs: "bufs st' = bufs st \<Longrightarrow> packet_at st' = packet_at st"
  by (simp add: packet_at_def fun_eq_iff)

lemma view_bufs: "bufs st' = bufs st \<Longrightarrow> view c st' = view c st"
  by (drule packet_at_bufs, rule ext) (simp add: view_def split: if_split)

lemma view_fetch:
  "c i = p # ps \<Longrightarrow> i \<noteq> Freebuf_list \<Longrightarrow>
     view (c(i := ps)) st = (view c st)(i := map (packet_at st) ps)"
  by (auto simp: view_def fun_eq_iff)

lemma view_free: "view (put_in Freebuf_list a p c) st = view c st"
  by (auto simp: view_def fun_eq_iff put_in_def)

lemma carriers_fetch:
  assumes "c i = p # ps" "i \<noteq> Freebuf_list" "set (held st') \<subseteq> insert p (set (held st))"
  shows "carriers (c(i := ps)) st' \<subseteq> carriers c st"
proof -
  have "p \<in> carriers c st" using assms(1,2) unfolding carriers_def by (intro UnI1 UN_I [of i]) auto
  then show ?thesis using assms unfolding carriers_def by (auto split: if_splits)
qed

lemma carriers_free:
  "set (held st') \<subseteq> set (held st) \<Longrightarrow> carriers (put_in Freebuf_list a p c) st' \<subseteq> carriers c st"
  by (auto simp: carriers_def put_in_def split: if_splits)

lemma all_wf_subset:
  "all_wf c st \<Longrightarrow> carriers c' st' \<subseteq> carriers c st \<Longrightarrow> bufs st' = bufs st \<Longrightarrow> all_wf c' st'"
  by (auto simp: all_wf_def)


section \<open>Every coroutine takes the step of the relay\<close>

definition simulates ::
  "(char list \<Rightarrow> u32) \<Rightarrow> malloc \<Rightarrow> event \<Rightarrow> contents \<Rightarrow> adaptor \<Rightarrow> bool" where
  "simulates ina mal ev c st \<longleftrightarrow>
     (\<exists>out st' c'. adaptor_step ina mal ev st = Some (out, st')
        \<and> refines c' st' (snd (relay_step ina ev (relay_of c st)))
        \<and> map seen out = fst (relay_step ina ev (relay_of c st)))"

lemma simulatesI:
  "adaptor_step ina mal ev st = Some (out, st') \<Longrightarrow>
   refines c' st' (snd (relay_step ina ev (relay_of c st))) \<Longrightarrow>
   map seen out = fst (relay_step ina ev (relay_of c st)) \<Longrightarrow> simulates ina mal ev c st"
  unfolding simulates_def by blast

lemma refines_refl: "adaptor_ok c st \<Longrightarrow> all_wf c st \<Longrightarrow> refines c st (relay_of c st)"
  by (simp add: refines_def)

lemma relay_of_sel [simp]:
  "chan (relay_of c st) = view c st" "waiting (relay_of c st) = nut_abs (nut_table st)"
  "to_sim (relay_of c st) = map_option (packet_at st) (at_udp_interest_out st)"
  "to_clients (relay_of c st) = map_option (sending_of st) (at_udp_data_out st)"
  "to_nip_data (relay_of c st) = map_option (packet_at st) (at_nip_data_out st)"
  "to_nip_interest (relay_of c st) = map_option (packet_at st) (at_nip_interest_out st)"
  "r_ibuf_interest (relay_of c st) = ibuf_nip_interest_in st"
  "r_ibuf_data (relay_of c st) = ibuf_nip_data_in st"
  by (simp_all add: relay_of_def)

lemma view_cons: "c i = p # ps \<Longrightarrow> i \<noteq> Freebuf_list \<Longrightarrow> view c st i = packet_at st p # map (packet_at st) ps"
  by (simp add: view_def)

lemma view_nil: "c i = [] \<Longrightarrow> view c st i = []"
  by (simp add: view_def)

text \<open>A fetch and a release, for the relay.\<close>

lemma relay_fetched:
  assumes "all_wf c st" "fetched i c st p (c(i := ps)) st'" "c i = p # ps" "i \<noteq> Freebuf_list"
    "set (held st') \<subseteq> insert p (set (held st))"
    "relay_of (c(i := ps)) st' = r"
  shows "refines (c(i := ps)) st' r"
proof -
  have "bufs st' = bufs st" "adaptor_ok (c(i := ps)) st'" using assms(2) by (auto simp: fetched_def)
  then show ?thesis
    using all_wf_subset [OF assms(1) carriers_fetch [of c i p ps st' st, OF assms(3-5)]] assms(6) by (intro refinesI) auto
qed

lemma relay_freed:
  assumes "all_wf c st" "freed al c st p c' st'" "set (held st') \<subseteq> set (held st)" "relay_of c' st' = r"
  shows "refines c' st' r"
proof -
  have c': "c' = put_in Freebuf_list (c_node al) p c" and "bufs st' = bufs st" "adaptor_ok c' st'"
    using assms(2) by (auto simp: freed_def)
  then show ?thesis
    using all_wf_subset [OF assms(1) carriers_free [OF assms(3), of "c_node al" p]] assms(4)
    by (intro refinesI) auto
qed

lemma bufs_of_moves:
  "fetched i c st p c' st' \<Longrightarrow> packet_at st' = packet_at st"
  "freed al c st p c' st' \<Longrightarrow> packet_at st' = packet_at st"
  "fetched i c st p c' st' \<Longrightarrow> view c'' st' = view c'' st"
  "freed al c st p c' st' \<Longrightarrow> view c'' st' = view c'' st"
  by (auto simp: fetched_def freed_def intro!: packet_at_bufs view_bufs)

lemma sim_udp_data_in:
  assumes ok: "adaptor_ok c st" "all_wf c st" and ev: "ev_ok mal st (Udp_data_in dg al)" "ev_wf (Udp_data_in dg al)"
  shows "simulates ina mal (Udp_data_in dg al) c st"
proof (cases "dg = []")
  case True
  show ?thesis
    by (rule simulatesI [of _ _ _ _ "[]" st c]) (use True refines_refl [OF ok] in \<open>simp_all add: udp_data_in_def\<close>)
next
  case False
  then have wf: "dgram_wf dg" "allocs_fit al st" "data_dgram_ok dg" using ev by auto
  obtain d0 st' c' where r: "udp_data_in dg al st = Some ([], st')" "nd_ok d0"
      "accepted Simtoreal_data_queue al c st (nd_of_bytes (dg @ drop (length dg) (nd_bytes d0))) c' st'"
      "same_table st st'" "same_ibufs st st'"
    using udp_data_in_ok [OF ok(1) wf(2,3)] by blast
  have "keeps_live (nut_table st) (nut_table st')" using r(4) by (simp add: same_table_def)
  from relay_accepted [OF ok r(3) _ dgram_packet(2) [OF wf(1) r(2)] this]
  show ?thesis
    using r False dgram_packet(1) [OF wf(1) r(2)]
    by (intro simulatesI [of _ _ _ _ "[]" st' c']) (auto simp: same_table_def same_ibufs_def relay_of_def)
qed

lemma sim_udp_interest_in:
  assumes ok: "adaptor_ok c st" "all_wf c st"
    and ev: "ev_ok mal st (Udp_interest_in dg a al)" "ev_wf (Udp_interest_in dg a al)"
  shows "simulates ina mal (Udp_interest_in dg a al) c st"
proof (cases "dg = []")
  case True
  show ?thesis
    by (rule simulatesI [of _ _ _ _ "[]" st c]) (use True refines_refl [OF ok] in \<open>simp_all add: udp_interest_in_def\<close>)
next
  case False
  then have wf: "dgram_wf dg" "allocs_fit al st" "interest_dgram_ok dg" "table_room mal st" using ev by auto
  obtain d0 d st' c' r where s: "udp_interest_in mal dg a al st = Some ([], st')" "nd_ok d0"
      "d = nd_of_bytes (dg @ drop (length dg) (nd_bytes d0))"
      "r = fst (nut_register (dgram_key d) a (nut_abs (nut_table st)))"
      "nut_abs (nut_table st') = snd (nut_register (dgram_key d) a (nut_abs (nut_table st)))"
      "if r = 1 then accepted Simtoreal_interest_queue al c st d c' st' else dropped c st c' st'"
      "keeps_live (nut_table st) (nut_table st')" "same_ibufs st st'"
    using udp_interest_in_ok [OF ok(1) wf(2-4), of a] by blast
  note pk = dgram_packet [OF wf(1) s(2), folded s(3)]
  have key: "dgram_key d = name_key (fst (packet_of (nd_of_bytes dg)))"
    using key_of_packet [OF pk(5) packet_wf_fits [OF pk(2)]] pk(1) by simp
  obtain w where w: "nut_register (dgram_key d) a (nut_abs (nut_table st)) = (r, w)" "nut_abs (nut_table st') = w"
    using s(4,5) by (metis prod.collapse)
  have step: "relay_step ina (Udp_interest_in dg a al) (relay_of c st) =
     ([], if r = 1 then push Simtoreal_interest_queue al (packet_of d) ((relay_of c st)\<lparr>waiting := w\<rparr>)
          else (relay_of c st)\<lparr>waiting := w\<rparr>)"
    using False w key pk(1) by (simp add: Let_def)
  have "refines c' st' (snd (relay_step ina (Udp_interest_in dg a al) (relay_of c st)))"
  proof (cases "r = 1")
    case True
    with relay_accepted [OF ok _ _ pk(2) s(7), of Simtoreal_interest_queue al c'] s(6,8) w(2) show ?thesis
      unfolding step by (auto simp: same_ibufs_def relay_of_def)
  next
    case False
    with relay_dropped [OF ok _ s(7), of c'] s(6,8) w(2) show ?thesis
      unfolding step by (auto simp: same_ibufs_def relay_of_def)
  qed
  then show ?thesis
    by (rule simulatesI [rotated]) (use s(1) step in \<open>simp_all del: relay_step.simps\<close>)
qed

lemma sim_nip_interest_in:
  assumes ok: "adaptor_ok c st" "all_wf c st" and ev: "ev_ok mal st (Nip_interest_in wait irecv al)"
  shows "simulates ina mal (Nip_interest_in wait irecv al) c st"
proof -
  obtain len ib where ib: "irecv_interest irecv st = (len, ib)" by fastforce
  then have ib': "irecv ((ibuf_nip_interest_in st)
      \<lparr>ib_type := TYPE_INTEREST, ib_nlen := MAX_NAME_LEN, ib_dlen := MAX_DATA_LEN\<rparr>) = (len, ib)"
    by (simp add: irecv_interest_def)
  consider "wait \<le> 0" | "0 < wait" "len \<le> 0" | "0 < wait" "0 < len" by linarith
  then show ?thesis
  proof cases
    case 1
    then show ?thesis
      using refines_refl [OF ok] by (intro simulatesI [of _ _ _ _ "[]" st c]) (auto simp: nip_interest_in_def)
  next
    case 2
    have "refines c (st\<lparr>ibuf_nip_interest_in := ib\<rparr>) ((relay_of c st)\<lparr>r_ibuf_interest := ib\<rparr>)"
      using ok by (intro refinesI)
        (auto simp: adaptor_ok_ibuf all_wf_def carriers_def relay_of_def view_def packet_at_def fun_eq_iff
          sending_of_def intro!: option.map_cong0)
    with 2 ib' show ?thesis
      by (intro simulatesI [of _ _ _ _ "[]" "st\<lparr>ibuf_nip_interest_in := ib\<rparr>" c]) (auto simp: nip_interest_in_def)
  next
    case 3
    then have al: "allocs_fit al st" and nm: "ibuf_name_ok ib" using ev ib by auto
    obtain d0 st' c' where r: "nip_interest_in wait irecv al st = Some ([], st')" "nd_ok d0"
        "accepted Realtosim_interest_queue al c st (interest_buffer ib d0) c' st'"
        "same_table st st'" "ibuf_nip_interest_in st' = ib" "ibuf_nip_data_in st' = ibuf_nip_data_in st"
      using nip_interest_in_ok [OF ok(1) al 3(1) ib 3(2) nm] by blast
    have "keeps_live (nut_table st) (nut_table st')" using r(4) by (simp add: same_table_def)
    from relay_accepted [OF ok r(3) _ interest_packet(2) [OF nm r(2)] this]
    show ?thesis
      using r 3 ib' interest_packet(1) [OF nm r(2)]
      by (intro simulatesI [of _ _ _ _ "[]" st' c']) (auto simp: same_table_def relay_of_def)
  qed
qed

lemma sim_nip_data_in:
  assumes ok: "adaptor_ok c st" "all_wf c st" and ev: "ev_ok mal st (Nip_data_in wait irecv al)"
  shows "simulates ina mal (Nip_data_in wait irecv al) c st"
proof -
  obtain len ib where ib: "irecv_data irecv st = (len, ib)" by fastforce
  then have ib': "irecv ((ibuf_nip_data_in st)
      \<lparr>ib_type := TYPE_DATA, ib_nlen := MAX_NAME_LEN, ib_dlen := MAX_DATA_LEN\<rparr>) = (len, ib)"
    by (simp add: irecv_data_def)
  consider "wait \<le> 0" | "0 < wait" "len \<le> 0" | "0 < wait" "0 < len" by linarith
  then show ?thesis
  proof cases
    case 1
    then show ?thesis
      using refines_refl [OF ok] by (intro simulatesI [of _ _ _ _ "[]" st c]) (auto simp: nip_data_in_def)
  next
    case 2
    have "refines c (st\<lparr>ibuf_nip_data_in := ib\<rparr>) ((relay_of c st)\<lparr>r_ibuf_data := ib\<rparr>)"
      using ok by (intro refinesI)
        (auto simp: adaptor_ok_ibuf all_wf_def carriers_def relay_of_def view_def packet_at_def fun_eq_iff
          sending_of_def intro!: option.map_cong0)
    with 2 ib' show ?thesis
      by (intro simulatesI [of _ _ _ _ "[]" "st\<lparr>ibuf_nip_data_in := ib\<rparr>" c]) (auto simp: nip_data_in_def)
  next
    case 3
    then have al: "allocs_fit al st" and nm: "ibuf_name_ok ib" and dt: "d_type ib = D_NACK \<or> ibuf_data_ok ib"
      using ev ib by (auto simp: Let_def)
    obtain d0 st' c' where r: "nip_data_in wait irecv al st = Some ([], st')" "nd_ok d0"
        "accepted Realtosim_data_queue al c st (data_buffer ib d0) c' st'"
        "same_table st st'" "ibuf_nip_data_in st' = ib" "ibuf_nip_interest_in st' = ibuf_nip_interest_in st"
      using nip_data_in_ok [OF ok(1) al 3(1) ib 3(2) nm dt] by blast
    have "keeps_live (nut_table st) (nut_table st')" using r(4) by (simp add: same_table_def)
    from relay_accepted [OF ok r(3) _ data_packet(2) [OF nm dt r(2)] this]
    show ?thesis
      using r 3 ib' data_packet(1) [OF nm dt r(2)]
      by (intro simulatesI [of _ _ _ _ "[]" st' c']) (auto simp: same_table_def relay_of_def)
  qed
qed


lemma sending_of_move:
  "packet_at st' = packet_at st \<Longrightarrow> nut_table st' = nut_table st \<Longrightarrow> sending_of st' = sending_of st"
  by (simp add: sending_of_def fun_eq_iff)

lemma sim_udp_interest_out:
  assumes ok: "adaptor_ok c st" "all_wf c st" and ev: "ev_ok mal st (Udp_interest_out al)"
  shows "simulates ina mal (Udp_interest_out al) c st"
proof (cases "at_udp_interest_out st")
  case None
  show ?thesis
  proof (cases "c Realtosim_interest_queue")
    case Nil
    with None udp_interest_out_idle [OF ok(1) None Nil, of ina al] refines_refl [OF ok] show ?thesis
      by (intro simulatesI [of _ _ _ _ "[]" st c]) (auto simp: view_nil)
  next
    case (Cons p ps)
    let ?i = Realtosim_interest_queue
    obtain q d where r: "udp_interest_out ina al st =
          Some ([Udp_out (sim_addr ina) (nd_bytes d)], st\<lparr>queues := q, at_udp_interest_out := Some p\<rparr>)"
        "bufs st p = Some d" "fetched ?i c st p (c(?i := ps)) (st\<lparr>queues := q, at_udp_interest_out := Some p\<rparr>)"
      using udp_interest_out_fetch [OF ok(1) None Cons] by blast
    let ?st = "st\<lparr>queues := q, at_udp_interest_out := Some p\<rparr>"
    note mv = bufs_of_moves(1,3) [OF r(3)]
    have "relay_of (c(?i := ps)) ?st = (relay_of c st)
        \<lparr>chan := (view c st)(?i := map (packet_at st) ps), to_sim := Some (packet_at st p)\<rparr>"
      using mv sending_of_move [OF mv(1)] view_fetch [of c ?i p ps st] Cons by (simp add: relay_of_def)
    from relay_fetched [OF ok(2) r(3) Cons _ _ this] have "refines (c(?i := ps)) ?st
        (snd (relay_step ina (Udp_interest_out al) (relay_of c st)))"
      using None Cons by (simp add: view_cons held_def)
    then show ?thesis
      by (rule simulatesI [rotated]) (use r None Cons in \<open>simp_all add: view_cons packet_at_def\<close>)
  qed
next
  case (Some p)
  have al: "allocs_fit al st" using ev by simp
  obtain q where r: "udp_interest_out ina al st = Some ([], st\<lparr>queues := q, at_udp_interest_out := None\<rparr>)"
      "freed al c st p (put_in Freebuf_list (c_node al) p c) (st\<lparr>queues := q, at_udp_interest_out := None\<rparr>)"
    using udp_interest_out_release [OF ok(1) al Some] by blast
  let ?st = "st\<lparr>queues := q, at_udp_interest_out := None\<rparr>"
  have hs: "set (held ?st) \<subseteq> set (held st)" by (auto simp: held_def)
  note mv = bufs_of_moves(2,4) [OF r(2)]
  have "relay_of (put_in Freebuf_list (c_node al) p c) ?st = (relay_of c st)\<lparr>to_sim := None\<rparr>"
    using mv sending_of_move [OF mv(1)] by (simp add: relay_of_def view_free)
  from relay_freed [OF ok(2) r(2) hs this] have "refines (put_in Freebuf_list (c_node al) p c) ?st
      (snd (relay_step ina (Udp_interest_out al) (relay_of c st)))"
    using Some by (simp add: held_def)
  then show ?thesis by (rule simulatesI [rotated]) (use r Some in simp_all)
qed

lemma sim_nip_data_out:
  assumes ok: "adaptor_ok c st" "all_wf c st" and ev: "ev_ok mal st (Nip_data_out wait al)"
  shows "simulates ina mal (Nip_data_out wait al) c st"
proof (cases "at_nip_data_out st")
  case None
  show ?thesis
  proof (cases "c Simtoreal_data_queue")
    case Nil
    with None nip_data_out_idle [OF ok(1) None Nil, of wait al] refines_refl [OF ok] show ?thesis
      by (intro simulatesI [of _ _ _ _ "[]" st c]) (auto simp: view_nil)
  next
    case (Cons p ps)
    let ?i = Simtoreal_data_queue
    obtain q where r: "nip_data_out wait al st = Some ([], st\<lparr>queues := q, at_nip_data_out := Some p\<rparr>)"
        "fetched ?i c st p (c(?i := ps)) (st\<lparr>queues := q, at_nip_data_out := Some p\<rparr>)"
      using nip_data_out_fetch [OF ok(1) None Cons] by blast
    let ?st = "st\<lparr>queues := q, at_nip_data_out := Some p\<rparr>"
    note mv = bufs_of_moves(1,3) [OF r(2)]
    have "relay_of (c(?i := ps)) ?st = (relay_of c st)
        \<lparr>chan := (view c st)(?i := map (packet_at st) ps), to_nip_data := Some (packet_at st p)\<rparr>"
      using mv sending_of_move [OF mv(1)] view_fetch [of c ?i p ps st] Cons by (simp add: relay_of_def)
    from relay_fetched [OF ok(2) r(2) Cons _ _ this] have "refines (c(?i := ps)) ?st
        (snd (relay_step ina (Nip_data_out wait al) (relay_of c st)))"
      using None Cons by (simp add: view_cons held_def)
    then show ?thesis
      by (rule simulatesI [rotated]) (use r None Cons in \<open>simp_all add: view_cons\<close>)
  qed
next
  case (Some p)
  have al: "allocs_fit al st" using ev by simp
  show ?thesis
  proof (cases "wait \<le> 0")
    case True
    with Some refines_refl [OF ok] show ?thesis
      by (intro simulatesI [of _ _ _ _ "[]" st c]) (auto simp: nip_data_out_def)
  next
    case False
    then have w: "0 < wait" by simp
    obtain q d where r: "nip_data_out wait al st =
        Some ([Nip_out (sent_ibuf TYPE_DATA (ucast (nd_dlen d)) d (s_junk al))], st\<lparr>queues := q, at_nip_data_out := None\<rparr>)"
       "bufs st p = Some d"
       "freed al c st p (put_in Freebuf_list (c_node al) p c) (st\<lparr>queues := q, at_nip_data_out := None\<rparr>)"
      using nip_data_out_release [OF ok(1) al Some w] by blast
    let ?st = "st\<lparr>queues := q, at_nip_data_out := None\<rparr>"
    have hs: "set (held ?st) \<subseteq> set (held st)" by (auto simp: held_def)
    note mv = bufs_of_moves(2,4) [OF r(3)]
    have wf: "packet_wf d"
      using ok(2) r(2) Some by (auto simp: all_wf_def carriers_def held_def)
    have "relay_of (put_in Freebuf_list (c_node al) p c) ?st = (relay_of c st)\<lparr>to_nip_data := None\<rparr>"
      using mv sending_of_move [OF mv(1)] by (simp add: relay_of_def view_free)
    from relay_freed [OF ok(2) r(3) hs this] have "refines (put_in Freebuf_list (c_node al) p c) ?st
        (snd (relay_step ina (Nip_data_out wait al) (relay_of c st)))"
      using Some w by (simp add: held_def)
    then show ?thesis
      by (rule simulatesI [rotated])
         (use r Some w seen_nip_data(1) [OF wf] in \<open>simp_all add: packet_at_def del: seen.simps\<close>)
  qed
qed

lemma sim_nip_interest_out:
  assumes ok: "adaptor_ok c st" "all_wf c st" and ev: "ev_ok mal st (Nip_interest_out wait al)"
  shows "simulates ina mal (Nip_interest_out wait al) c st"
proof (cases "at_nip_interest_out st")
  case None
  show ?thesis
  proof (cases "c Simtoreal_interest_queue")
    case Nil
    with None nip_interest_out_idle [OF ok(1) None Nil, of wait al] refines_refl [OF ok] show ?thesis
      by (intro simulatesI [of _ _ _ _ "[]" st c]) (auto simp: view_nil)
  next
    case (Cons p ps)
    let ?i = Simtoreal_interest_queue
    obtain q where r: "nip_interest_out wait al st = Some ([], st\<lparr>queues := q, at_nip_interest_out := Some p\<rparr>)"
        "fetched ?i c st p (c(?i := ps)) (st\<lparr>queues := q, at_nip_interest_out := Some p\<rparr>)"
      using nip_interest_out_fetch [OF ok(1) None Cons] by blast
    let ?st = "st\<lparr>queues := q, at_nip_interest_out := Some p\<rparr>"
    note mv = bufs_of_moves(1,3) [OF r(2)]
    have "relay_of (c(?i := ps)) ?st = (relay_of c st)
        \<lparr>chan := (view c st)(?i := map (packet_at st) ps), to_nip_interest := Some (packet_at st p)\<rparr>"
      using mv sending_of_move [OF mv(1)] view_fetch [of c ?i p ps st] Cons by (simp add: relay_of_def)
    from relay_fetched [OF ok(2) r(2) Cons _ _ this] have "refines (c(?i := ps)) ?st
        (snd (relay_step ina (Nip_interest_out wait al) (relay_of c st)))"
      using None Cons by (simp add: view_cons held_def)
    then show ?thesis
      by (rule simulatesI [rotated]) (use r None Cons in \<open>simp_all add: view_cons\<close>)
  qed
next
  case (Some p)
  have al: "allocs_fit al st" using ev by simp
  show ?thesis
  proof (cases "wait \<le> 0")
    case True
    with Some refines_refl [OF ok] show ?thesis
      by (intro simulatesI [of _ _ _ _ "[]" st c]) (auto simp: nip_interest_out_def)
  next
    case False
    then have w: "0 < wait" by simp
    obtain q d where r: "nip_interest_out wait al st =
        Some ([Nip_out (sent_ibuf TYPE_INTEREST 0 d (s_junk al))], st\<lparr>queues := q, at_nip_interest_out := None\<rparr>)"
       "bufs st p = Some d"
       "freed al c st p (put_in Freebuf_list (c_node al) p c) (st\<lparr>queues := q, at_nip_interest_out := None\<rparr>)"
      using nip_interest_out_release [OF ok(1) al Some w] by blast
    let ?st = "st\<lparr>queues := q, at_nip_interest_out := None\<rparr>"
    have hs: "set (held ?st) \<subseteq> set (held st)" by (auto simp: held_def)
    note mv = bufs_of_moves(2,4) [OF r(3)]
    have wf: "packet_wf d"
      using ok(2) r(2) Some by (auto simp: all_wf_def carriers_def held_def)
    have "relay_of (put_in Freebuf_list (c_node al) p c) ?st = (relay_of c st)\<lparr>to_nip_interest := None\<rparr>"
      using mv sending_of_move [OF mv(1)] by (simp add: relay_of_def view_free)
    from relay_freed [OF ok(2) r(3) hs this] have "refines (put_in Freebuf_list (c_node al) p c) ?st
        (snd (relay_step ina (Nip_interest_out wait al) (relay_of c st)))"
      using Some w by (simp add: held_def)
    then show ?thesis
      by (rule simulatesI [rotated])
         (use r Some w seen_nip_data(2) [OF wf] in \<open>simp_all add: packet_at_def del: seen.simps\<close>)
  qed
qed


lemma waiting_of_sending:
  assumes "adaptor_ok c st" "at_udp_data_out st = Some sd"
  shows "nut_abs (nut_table st) (e_key (sd_nut_entry sd st)) = Some (e_addrs (sd_nut_entry sd st))"
proof -
  have "sd_live sd st" using adaptor_okD(6) [OF assms(1)] assms(2) by (auto simp: sending_ok_iff)
  moreover have "keys_distinct (used (nut_table st))"
    using adaptor_okD(5) [OF assms(1)] by (simp add: nut_inv_def)
  ultimately show ?thesis
    unfolding nut_abs_def sd_live_def by (intro look_at) (auto simp: live_at_def)
qed

lemma sim_udp_data_out_fetch:
  assumes ok: "adaptor_ok c st" "all_wf c st" and None: "at_udp_data_out st = None"
    and Cons: "c Realtosim_data_queue = p # ps"
  shows "simulates ina mal (Udp_data_out al) c st"
proof -
  let ?i = Realtosim_data_queue
  obtain d where d: "bufs st p = Some d"
    using adaptor_okD(3) [OF ok(1) in_owned_queue, of p ?i] Cons by auto
  have "name_fits d" using adaptor_okD(7) [OF ok(1) _ _ d, of ?i] Cons by (simp add: named_queue_def)
  then have key: "dgram_key d = name_key (fst (packet_at st p))"
    using key_of_packet [OF adaptor_okD(8) [OF ok(1) d]] d by (simp add: packet_at_def)
  show ?thesis
  proof (cases "nut_abs (nut_table st) (dgram_key d)")
    case None': None
    obtain q where q: "udp_data_out al st = Some ([], st\<lparr>queues := q\<rparr>)"
        "adaptor_ok (c(?i := ps)) (st\<lparr>queues := q\<rparr>)"
      using udp_data_out_unknown [OF ok(1) None Cons d None'] by blast
    have "carriers (c(?i := ps)) (st\<lparr>queues := q\<rparr>) \<subseteq> carriers c st"
      using Cons by (intro carriers_fetch) auto
    moreover have "relay_of (c(?i := ps)) (st\<lparr>queues := q\<rparr>) = (relay_of c st)\<lparr>chan := (view c st)(?i := map (packet_at st) ps)\<rparr>"
      using view_fetch [of c ?i p ps st] Cons packet_at_bufs [of "st\<lparr>queues := q\<rparr>" st] view_bufs [of "st\<lparr>queues := q\<rparr>" st]
        sending_of_move [of "st\<lparr>queues := q\<rparr>" st]
      by (simp add: relay_of_def)
    ultimately have "refines (c(?i := ps)) (st\<lparr>queues := q\<rparr>) (snd (relay_step ina (Udp_data_out al) (relay_of c st)))"
      using all_wf_subset [OF ok(2), of "c(?i := ps)" "st\<lparr>queues := q\<rparr>"] q(2) None None' Cons key
      by (intro refinesI) (simp_all add: view_cons)
    then show ?thesis
      by (rule simulatesI [rotated]) (use q None None' Cons key in \<open>simp_all add: view_cons\<close>)
  next
    case (Some as)
    obtain q sd where q: "udp_data_out al st =
          Some ([Udp_out (hd as) (nd_bytes d)], st\<lparr>queues := q, at_udp_data_out := Some sd\<rparr>)"
        "fetched ?i c st p (c(?i := ps)) (st\<lparr>queues := q, at_udp_data_out := Some sd\<rparr>)"
        "sd_data sd = p" "sd_i sd = 0" "e_key (sd_nut_entry sd st) = dgram_key d"
      using udp_data_out_first [OF ok(1) None Cons d Some] by blast
    let ?st = "st\<lparr>queues := q, at_udp_data_out := Some sd\<rparr>"
    note mv = bufs_of_moves(1,3) [OF q(2)]
    have sd: "sending_of ?st sd = \<lparr>s_packet = packet_at st p, s_key = dgram_key d, s_i = 0\<rparr>"
      using q(3-5) mv(1) by (simp add: sending_of_def)
    have "relay_of (c(?i := ps)) ?st = (relay_of c st)
        \<lparr>chan := (view c st)(?i := map (packet_at st) ps),
         to_clients := Some \<lparr>s_packet = packet_at st p, s_key = dgram_key d, s_i = 0\<rparr>\<rparr>"
      using mv view_fetch [of c ?i p ps st] Cons sd by (simp add: relay_of_def)
    moreover have "set (held ?st) \<subseteq> insert p (set (held st))" using q(3) None by (simp add: held_def)
    ultimately have "refines (c(?i := ps)) ?st (snd (relay_step ina (Udp_data_out al) (relay_of c st)))"
      using relay_fetched [OF ok(2) q(2) Cons] None Cons Some key by (simp add: view_cons)
    then show ?thesis
      by (rule simulatesI [rotated]) (use q(1) None Cons Some key d in \<open>simp_all add: view_cons packet_at_def\<close>)
  qed
qed

lemma sim_udp_data_out_resume:
  assumes ok: "adaptor_ok c st" "all_wf c st" and al: "allocs_fit al st"
    and Some: "at_udp_data_out st = Some sd"
  shows "simulates ina mal (Udp_data_out al) c st"
proof -
  obtain d where d: "bufs st (sd_data sd) = Some d"
    using adaptor_okD(3) [OF ok(1), of "sd_data sd"] Some by (auto simp: owned_def held_def)
  have live: "sd_live sd st" using adaptor_okD(6) [OF ok(1)] Some by (auto simp: sending_ok_iff)
  note w = waiting_of_sending [OF ok(1) Some]
  have key: "s_key (sending_of st sd) = e_key (sd_nut_entry sd st)" "s_i (sending_of st sd) = nat (sd_i sd)"
      "s_packet (sending_of st sd) = packet_of d"
    using d by (simp_all add: sending_of_def packet_at_def)
  show ?thesis
  proof (cases "Suc (nat (sd_i sd)) < length (e_addrs (sd_nut_entry sd st))")
    case True
    let ?sd = "sd\<lparr>sd_i := sd_i sd + 1\<rparr>"
    let ?st = "st\<lparr>at_udp_data_out := Some ?sd\<rparr>"
    note n = udp_data_out_next [OF ok(1) Some d True]
    have same: "packet_at ?st = packet_at st" "view c ?st = view c st"
      by (intro packet_at_bufs view_bufs, simp)+
    have "nat (sd_i sd + 1) = Suc (nat (sd_i sd))" using live by (simp add: sd_live_def nat_add_distrib)
    then have "sending_of ?st ?sd = (sending_of st sd)\<lparr>s_i := Suc (nat (sd_i sd))\<rparr>"
      using same by (simp add: sending_of_def)
    then have "relay_of c ?st = (relay_of c st)\<lparr>to_clients := Some ((sending_of st sd)\<lparr>s_i := Suc (nat (sd_i sd))\<rparr>)\<rparr>"
      using same by (simp add: relay_of_def)
    moreover have "all_wf c ?st"
      using ok(2) Some by (intro all_wf_subset [OF ok(2)]) (auto simp: carriers_def held_def)
    ultimately have "refines c ?st (snd (relay_step ina (Udp_data_out al) (relay_of c st)))"
      using n(2) Some True key w by (intro refinesI) (simp_all add: Let_def)
    then show ?thesis
      by (rule simulatesI [rotated]) (use n(1) Some True key w in \<open>simp_all add: Let_def\<close>)
  next
    case False
    then have le: "length (e_addrs (sd_nut_entry sd st)) \<le> Suc (nat (sd_i sd))" by simp
    obtain t q where q: "udp_data_out al st = Some ([], st\<lparr>queues := q, nut_table := t, at_udp_data_out := None\<rparr>)"
        "nut_abs t = (nut_abs (nut_table st))(e_key (sd_nut_entry sd st) := None)"
        "freed al c st (sd_data sd) (put_in Freebuf_list (c_node al) (sd_data sd) c)
            (st\<lparr>queues := q, nut_table := t, at_udp_data_out := None\<rparr>)"
      using udp_data_out_last [OF ok(1) al Some le] by blast
    let ?st = "st\<lparr>queues := q, nut_table := t, at_udp_data_out := None\<rparr>"
    note mv = bufs_of_moves(2,4) [OF q(3)]
    have hs: "set (held ?st) \<subseteq> set (held st)" by (auto simp: held_def)
    have "relay_of (put_in Freebuf_list (c_node al) (sd_data sd) c) ?st = (relay_of c st)
        \<lparr>waiting := (nut_abs (nut_table st))(e_key (sd_nut_entry sd st) := None), to_clients := None\<rparr>"
      using mv q(2) by (simp add: relay_of_def view_free)
    from relay_freed [OF ok(2) q(3) hs this]
    have "refines (put_in Freebuf_list (c_node al) (sd_data sd) c) ?st
        (snd (relay_step ina (Udp_data_out al) (relay_of c st)))"
      using Some False key w by (simp add: Let_def)
    then show ?thesis
      by (rule simulatesI [rotated]) (use q(1) Some False key w in \<open>simp_all add: Let_def\<close>)
  qed
qed

lemma sim_udp_data_out:
  assumes ok: "adaptor_ok c st" "all_wf c st" and ev: "ev_ok mal st (Udp_data_out al)"
  shows "simulates ina mal (Udp_data_out al) c st"
proof (cases "at_udp_data_out st")
  case None
  show ?thesis
  proof (cases "c Realtosim_data_queue")
    case Nil
    with None udp_data_out_idle [OF ok(1) None Nil, of al] refines_refl [OF ok] show ?thesis
      by (intro simulatesI [of _ _ _ _ "[]" st c]) (auto simp: view_nil)
  next
    case (Cons p ps)
    then show ?thesis by (rule sim_udp_data_out_fetch [OF ok None])
  qed
next
  case (Some sd)
  then show ?thesis using sim_udp_data_out_resume [OF ok] ev by simp
qed

lemma adaptor_simulates:
  assumes "adaptor_ok c st" "all_wf c st" "ev_ok mal st ev" "ev_wf ev"
  shows "simulates ina mal ev c st"
  using assms
  by (cases ev)
     (blast intro: sim_udp_data_in sim_udp_interest_out sim_udp_interest_in sim_udp_data_out
        sim_nip_interest_in sim_nip_data_out sim_nip_interest_out sim_nip_data_in)+

section \<open>Runs\<close>

fun run_wf :: "(char list \<Rightarrow> u32) \<Rightarrow> malloc \<Rightarrow> event list \<Rightarrow> adaptor \<Rightarrow> bool" where
  "run_wf ina mal [] st = True"
| "run_wf ina mal (ev # evs) st =
     (ev_ok mal st ev \<and> ev_wf ev \<and>
      (case adaptor_step ina mal ev st of None \<Rightarrow> True | Some (_, st) \<Rightarrow> run_wf ina mal evs st))"

lemma adaptor_run_refines:
  assumes "refines c st r" "run_wf ina mal evs st"
  shows "\<exists>out st' c'. adaptor_run ina mal evs st = Some (out, st') \<and> refines c' st' (snd (relay_run ina evs r))
     \<and> map seen out = fst (relay_run ina evs r)"
  using assms
proof (induction evs arbitrary: c st r)
  case Nil
  then show ?case by auto
next
  case (Cons ev evs)
  then have "simulates ina mal ev c st" and r: "r = relay_of c st"
    using adaptor_simulates [of c st mal ev ina] by (auto simp: refines_def)
  then obtain out st' c' where 1: "adaptor_step ina mal ev st = Some (out, st')"
      "refines c' st' (snd (relay_step ina ev r))" "map seen out = fst (relay_step ina ev r)"
    unfolding simulates_def by blast
  have "run_wf ina mal evs st'" using Cons.prems(2) 1(1) by simp
  from Cons.IH [OF 1(2) this] 1 show ?case by (auto simp: split_beta)
qed

end
