(* ===== verification/Lfq_Frame.thy ===== *)
theory Lfq_Frame
  imports Lfq_Seq
begin

text \<open>
  What the queue operations can do to the store of nodes at most, from any state: an enqueue adds the
  node it was given, a dequeue adds none.
\<close>

definition shrinks :: "lfq \<Rightarrow> lfq \<Rightarrow> bool" where
  "shrinks s s' \<longleftrightarrow> dom (nodes s') \<subseteq> dom (nodes s)"

lemma shrinks_refl [simp]: "shrinks s s"
  by (simp add: shrinks_def)

lemma shrinks_trans: "shrinks s s1 \<Longrightarrow> shrinks s1 s2 \<Longrightarrow> shrinks s s2"
  by (auto simp: shrinks_def)

lemma shrinks_same: "nodes s' = nodes s \<Longrightarrow> shrinks s s'"
  by (simp add: shrinks_def)

lemma shrinks_store: "store p f s = Some s' \<Longrightarrow> shrinks s s'"
  by (auto simp: store_def shrinks_def split: option.splits if_splits)

lemma shrinks_free: "free_node p s = Some s' \<Longrightarrow> shrinks s s'"
  by (auto simp: free_node_def shrinks_def split: if_splits option.splits)

lemma shrinks_upd [simp]:
  "shrinks s (s'\<lparr>fph := a\<rparr>) = shrinks s s'" "shrinks s (s'\<lparr>fpt := a\<rparr>) = shrinks s s'"
  "shrinks s (s'\<lparr>is_freeing := f\<rparr>) = shrinks s s'" "shrinks s (s'\<lparr>head := a\<rparr>) = shrinks s s'"
  "shrinks s (s'\<lparr>HP := hp\<rparr>) = shrinks s s'" "shrinks s (s'\<lparr>tid_map := tm\<rparr>) = shrinks s s'"
  "shrinks (s\<lparr>fph := a\<rparr>) s' = shrinks s s'" "shrinks (s\<lparr>fpt := a\<rparr>) s' = shrinks s s'"
  "shrinks (s\<lparr>is_freeing := f\<rparr>) s' = shrinks s s'" "shrinks (s\<lparr>head := a\<rparr>) s' = shrinks s s'"
  "shrinks (s\<lparr>HP := hp\<rparr>) s' = shrinks s s'" "shrinks (s\<lparr>tid_map := tm\<rparr>) s' = shrinks s s'"
  by (simp_all add: shrinks_def)

lemma free_pool_loop_shrinks: "free_pool_loop b i s = Some s' \<Longrightarrow> shrinks s s'"
proof (rule free_pool_loop.raw_induct [where P = "\<lambda>b i s s'. shrinks s s'"], goal_cases)
  case (1 f b i s s')
  from 1(3) consider "s' = s"
    | n s1 where "free_node (fph s) (s\<lparr>fph := n\<rparr>) = Some s1" "f b (i + 1) s1 = Some s'"
    by (auto simp: Let_def bind_eq_Some_conv split: if_splits)
  then show ?case
  proof cases
    case 2
    from shrinks_trans [OF shrinks_free [OF 2(1)] 1(2) [OF 2(2)]] show ?thesis by simp
  qed simp
qed

lemma free_pool_shrinks: "free_pool b s = Some s' \<Longrightarrow> shrinks s s'"
  by (cases "is_freeing s = 0") (auto simp: free_pool_def bind_eq_Some_conv dest: free_pool_loop_shrinks)

lemma enpool_shrinks: "enpool p s = Some s' \<Longrightarrow> shrinks s s'"
  by (auto simp: enpool_def bind_eq_Some_conv XCHG_def dest!: shrinks_store intro: shrinks_trans)

lemma safe_free_shrinks: "safe_free p s = Some s' \<Longrightarrow> shrinks s s'"
  by (cases "is_freeing s = 0")
     (auto simp: safe_free_def bind_eq_Some_conv CAS_def Let_def split: if_splits
        dest!: shrinks_store shrinks_free enpool_shrinks free_pool_shrinks; meson shrinks_trans)+

lemma shrinks_write_HP: "write_HP i p s = Some s' \<Longrightarrow> shrinks s s'"
  by (auto simp: write_HP_def split: option.splits)

lemma shrinks_write_tid_map: "write_tid_map i v s = Some s' \<Longrightarrow> shrinks s s'"
  by (auto simp: write_tid_map_def split: option.splits)

lemma dequeue_loop_shrinks:
  assumes "dequeue_loop t s = Some r"
  shows "shrinks s (snd r)"
  using assms
proof (rule dequeue_loop.raw_induct [where P = "\<lambda>t s r. shrinks s (snd r)", rotated], goal_cases)
  case (1 f t s r)
  from 1(2) obtain s1 where s1: "write_HP t (head s) s = Some s1"
    and "f t s1 = Some r \<or> (\<exists>c s2. r = (c, s2) \<and> shrinks s1 s2)"
    by (auto simp: Let_def bind_eq_Some_conv CAS_def split: if_splits dest: shrinks_write_HP)
  moreover have "f t s1 = Some r \<Longrightarrow> shrinks s1 (snd r)" using 1(1) by (cases r) fastforce
  ultimately show ?case using shrinks_trans [OF shrinks_write_HP [OF s1]] by auto
qed

lemma alloc_tid_from_shrinks: "alloc_tid_from s i = Some (t, s') \<Longrightarrow> shrinks s s'"
proof (induction s i rule: alloc_tid_from.induct)
  case (1 s i)
  then show ?case
    by (subst (asm) alloc_tid_from.simps)
       (auto simp: bind_eq_Some_conv CAS_def Let_def split: if_splits dest: shrinks_write_tid_map)
qed

lemma lfq_dequeue_tid_shrinks:
  assumes "lfq_dequeue_tid t s = Some (p, s')"
  shows "shrinks s s'"
proof -
  obtain c s1 where s1: "dequeue_loop t s = Some (c, s1)" and "shrinks s1 s'"
    using assms
    by (auto simp: lfq_dequeue_tid_def bind_eq_Some_conv Let_def split: option.splits
          dest!: shrinks_write_HP shrinks_store safe_free_shrinks; meson shrinks_trans)
  then show ?thesis using dequeue_loop_shrinks [OF s1] shrinks_trans by auto
qed

lemma lfq_dequeue_shrinks: "lfq_dequeue s = Some (p, s') \<Longrightarrow> shrinks s s'"
  by (auto simp: lfq_dequeue_def alloc_tid_def free_tid_def bind_eq_Some_conv split: if_splits
        dest!: alloc_tid_from_shrinks lfq_dequeue_tid_shrinks shrinks_write_tid_map; meson shrinks_trans)

lemma lfq_enqueue_adds:
  assumes "lfq_enqueue a d s = Some (r, s')"
  shows "dom (nodes s') \<subseteq> insert a (dom (nodes s))"
proof (cases "a = NULL")
  case True
  with assms show ?thesis by (auto simp: lfq_enqueue_def)
next
  case False
  have "shrinks (calloc_node a s) s'"
    using False assms
    by (auto simp: lfq_enqueue_def bind_eq_Some_conv XCHG_def Let_def dest!: shrinks_store) (simp add: shrinks_def)
  then show ?thesis by (auto simp: shrinks_def calloc_node_def split: if_splits)
qed

end
