(* ===== verification/Adaptor_Init.thy ===== *)
theory Adaptor_Init
  imports Adaptor_Refine Lfq_Frame
begin

text \<open>
  \<open>init_adaptor\<close> builds a state of the invariant: sixteen buffers in the free list, the other queues
  empty, nobody waiting.  From it the reachable states are those the events lead to while the
  environment keeps to its part.
\<close>

section \<open>The block of buffers\<close>

definition init_ok :: "init_allocs \<Rightarrow> bool" where
  "init_ok ia \<longleftrightarrow>
     i_tab_ok ia \<and> malloc_good (i_entries ia)
     \<and> (\<forall>i. i_node1 ia i \<noteq> NULL \<and> i_node2 ia i \<noteq> NULL \<and> i_node1 ia i \<noteq> i_node2 ia i
           \<and> i_HP_ok ia i \<and> i_tid_ok ia i)
     \<and> i_freeblock ia \<noteq> NULL \<and> unat (i_freeblock ia) + 16 * 2048 \<le> 2 ^ 64
     \<and> (\<forall>k < 16. nd_ok (i_junk ia k) \<and> i_cnode ia k \<noteq> NULL
           \<and> i_cnode ia k \<noteq> i_node1 ia Freebuf_list \<and> i_cnode ia k \<noteq> i_node2 ia Freebuf_list)
     \<and> distinct (map (i_cnode ia) [0..<16])"

text \<open>The globals before \<open>init_adaptor\<close>: no node, no buffer, no coroutine has started.\<close>

definition boot :: "adaptor \<Rightarrow> bool" where
  "boot st \<longleftrightarrow> (\<forall>i. nodes (queues st i) = Map.empty) \<and> bufs st = Map.empty \<and> held st = []"

definition init_contents :: "init_allocs \<Rightarrow> contents" where
  "init_contents ia = (\<lambda>_. [])(Freebuf_list := map (block_addr (i_freeblock ia)) [0..<16])"

text \<open>The addresses of the queue nodes \<open>init_adaptor\<close> is given.\<close>

definition init_nodes :: "init_allocs \<Rightarrow> addr set" where
  "init_nodes ia = range (i_node1 ia) \<union> range (i_node2 ia) \<union> i_cnode ia ` {..<16}"

lemma block_addr_unat:
  assumes "unat fb + 16 * 2048 \<le> 2 ^ 64" "k < 16"
  shows "unat (block_addr fb k) = unat fb + 2048 * k"
proof -
  have "unat (word_of_nat (2048 * k) :: addr) = 2048 * k"
    by (rule of_nat_inverse [OF refl]) (use assms(2) in simp)
  then show ?thesis
    using assms unfolding block_addr_def sizeof_simple_name_data_def
    by (subst unat_add_lem [THEN iffD1]) auto
qed

lemma block_addr_inj:
  assumes "unat fb + 16 * 2048 \<le> 2 ^ 64"
  shows "distinct (map (block_addr fb) [0..<16])"
proof -
  have "inj_on (block_addr fb) {0..<16}"
  proof (rule inj_onI)
    fix x y assume "x \<in> {0..<16 :: nat}" "y \<in> {0..<16}" "block_addr fb x = block_addr fb y"
    then have "unat fb + 2048 * x = unat fb + 2048 * y"
      using block_addr_unat [OF assms, of x] block_addr_unat [OF assms, of y] by (metis atLeastLessThan_iff)
    then show "x = y" by simp
  qed
  then show ?thesis by (simp add: distinct_map)
qed

lemma block_addr_nonnull:
  assumes "unat fb + 16 * 2048 \<le> 2 ^ 64" "fb \<noteq> NULL" "k < 16"
  shows "block_addr fb k \<noteq> NULL"
proof
  assume "block_addr fb k = NULL"
  then have "unat fb + 2048 * k = 0" using block_addr_unat [OF assms(1,3)] by simp
  then show False using assms(2) by (simp add: unat_eq_0)
qed

lemma bufs_put_fold:
  "bufs (fold (\<lambda>i. put_buf (f i) (g i)) ks st) p = Some d \<Longrightarrow>
     bufs st p = Some d \<or> (\<exists>k \<in> set ks. p = f k \<and> d = g k)"
proof (induction ks arbitrary: st)
  case Nil
  then show ?case by simp
next
  case (Cons k ks)
  from Cons.IH [of "put_buf (f k) (g k) st"] Cons.prems show ?case
    by (auto simp: put_buf_def split: if_splits)
qed

lemma dom_put_fold:
  "dom (bufs (fold (\<lambda>i. put_buf (f i) (g i)) ks st)) = f ` set ks \<union> dom (bufs st)"
  by (induction ks arbitrary: st) (auto simp: put_buf_def)

lemma fold_put_frame:
  "\<exists>b. fold (\<lambda>i. put_buf (f i) (g i)) ks st = st\<lparr>bufs := b\<rparr>"
proof (induction ks arbitrary: st)
  case Nil
  show ?case by (intro exI [of _ "bufs st"]) simp
next
  case (Cons k ks)
  from Cons.IH [of "put_buf (f k) (g k) st"] show ?case by (auto simp: put_buf_def)
qed

lemma enq_blocks_shape:
  assumes "lfq_shape (queues st Freebuf_list) z ns ps"
    "\<forall>k \<in> {i..<i + n}. i_cnode ia k \<noteq> NULL \<and> i_cnode ia k \<notin> fst ` set (z # ns @ ps)"
    "distinct (map (i_cnode ia) [i..<i + n])"
  shows "\<exists>q. enq_blocks ia i n st = Some (st\<lparr>queues := (queues st)(Freebuf_list := q)\<rparr>)
     \<and> lfq_shape q z (ns @ map (\<lambda>k. (i_cnode ia k, block_addr (i_freeblock ia) k)) [i..<i + n]) ps"
  using assms
proof (induction n arbitrary: i st ns)
  case 0
  then show ?case by (intro exI [of _ "queues st Freebuf_list"]) simp
next
  case (Suc n)
  let ?a = "i_cnode ia i" and ?p = "block_addr (i_freeblock ia) i"
  have "nodes (queues st Freebuf_list) ?a = None"
  proof -
    have "i \<in> {i..<i + Suc n}" by simp
    with Suc.prems(2) have "?a \<notin> dom (nodes (queues st Freebuf_list))"
      unfolding lfq_shape_dom [OF Suc.prems(1)] by blast
    then show ?thesis by (simp add: domIff)
  qed
  then obtain q where q: "lfq_enqueue ?a ?p (queues st Freebuf_list) = Some (0, q)"
      "lfq_shape q z (ns @ [(?a, ?p)]) ps"
    using lfq_enqueue_shape [OF Suc.prems(1), of ?a ?p] Suc.prems(2) by auto
  let ?st = "st\<lparr>queues := (queues st)(Freebuf_list := q)\<rparr>"
  have up: "[i..<i + Suc n] = i # [Suc i..<Suc i + n]" by (simp add: upt_conv_Cons)
  have "\<forall>k \<in> {Suc i..<Suc i + n}. i_cnode ia k \<noteq> NULL \<and> i_cnode ia k \<notin> fst ` set (z # (ns @ [(?a, ?p)]) @ ps)"
  proof
    fix k assume k: "k \<in> {Suc i..<Suc i + n}"
    then have "i_cnode ia k \<in> set (map (i_cnode ia) [Suc i..<Suc i + n])" by (simp del: upt_Suc)
    then have "i_cnode ia k \<noteq> ?a" using Suc.prems(3) unfolding up by (metis distinct.simps(2) list.simps(9))
    moreover have "k \<in> {i..<i + Suc n}" using k by simp
    ultimately show "i_cnode ia k \<noteq> NULL \<and> i_cnode ia k \<notin> fst ` set (z # (ns @ [(?a, ?p)]) @ ps)"
      using Suc.prems(2) by auto
  qed
  note nodes = this
  have dist: "distinct (map (i_cnode ia) [Suc i..<Suc i + n])" using Suc.prems(3) unfolding up by simp
  have "lfq_shape (queues ?st Freebuf_list) z (ns @ [(?a, ?p)]) ps" using q(2) by simp
  from Suc.IH [OF this nodes dist] obtain q' where q': "enq_blocks ia (Suc i) n ?st = Some (?st\<lparr>queues := (queues ?st)(Freebuf_list := q')\<rparr>)"
      "lfq_shape q' z ((ns @ [(?a, ?p)]) @ map (\<lambda>k. (i_cnode ia k, block_addr (i_freeblock ia) k)) [Suc i..<Suc i + n]) ps"
    by blast
  then show ?case using q(1) unfolding up by (intro exI [of _ q']) (simp add: enq_def del: fun_upd_apply)
qed

section \<open>The initial state\<close>

lemma init_queue_ok:
  assumes "init_ok ia" "nodes (queues st i) = Map.empty"
  shows "\<exists>q. init_queue ia i st = Some (st\<lparr>queues := (queues st)(i := q)\<rparr>)
     \<and> lfq_shape q (i_node1 ia i, NULL) [] [(i_node2 ia i, NULL)]"
proof -
  obtain q where "lfq_init (i_node1 ia i) (i_node2 ia i) True True 1 (queues st i) = Some (0, q)"
      "lfq_shape q (i_node1 ia i, NULL) [] [(i_node2 ia i, NULL)]"
  proof (rule lfq_init_shape [OF assms(2), of "i_node1 ia i" "i_node2 ia i" 1])
    show "i_node1 ia i \<noteq> NULL" "i_node2 ia i \<noteq> NULL" "i_node1 ia i \<noteq> i_node2 ia i"
      using assms(1) by (auto simp: init_ok_def)
  qed simp_all
  then show ?thesis using assms(1) by (auto simp: init_queue_def init_ok_def)
qed

lemma init_adaptor_ok:
  assumes "init_ok ia" "boot st"
  shows "\<exists>st'. init_adaptor ia st = Some st' \<and> adaptor_ok (init_contents ia) st'
     \<and> leaked (init_contents ia) st' = {} \<and> all_wf (init_contents ia) st'
     \<and> nut_abs (nut_table st') = (\<lambda>_. None) \<and> entry_num (nut_table st') = 0 \<and> held st' = []
     \<and> unat (table_cap (nut_table st')) = 32
     \<and> ibuf_nip_interest_in st' = ibuf_nip_interest_in st \<and> ibuf_nip_data_in st' = ibuf_nip_data_in st
     \<and> (\<forall>i. dom (nodes (queues st' i)) \<subseteq> init_nodes ia) \<and> dom (bufs st') = set (init_contents ia Freebuf_list)"
proof -
  let ?fb = "i_freeblock ia" and ?ks = "[0..<16 :: nat]"
  have fb: "unat ?fb + 16 * 2048 \<le> 2 ^ 64" "?fb \<noteq> NULL" using assms(1) by (auto simp: init_ok_def)
  obtain t where t: "nut_create (i_entries ia) True 64 = Some t" "nut_inv t" "nut_abs t = (\<lambda>_. None)"
      "entry_num t = 0" "int (unat (table_cap t)) = 32"
    using nut_create_eq [of "i_entries ia" 64] assms(1) by (auto simp: init_ok_def)
  have cap: "unat (table_cap t) = 32" using t(5) by linarith
  define st0 where "st0 = st\<lparr>nut_table := t\<rparr>"
  obtain q0 where q0: "init_queue ia Freebuf_list st0 = Some (st0\<lparr>queues := (queues st0)(Freebuf_list := q0)\<rparr>)"
      "lfq_shape q0 (i_node1 ia Freebuf_list, NULL) [] [(i_node2 ia Freebuf_list, NULL)]"
    using init_queue_ok [OF assms(1), of st0 Freebuf_list] assms(2) by (auto simp: boot_def st0_def)
  define st1 where "st1 = st0\<lparr>queues := (queues st0)(Freebuf_list := q0)\<rparr>"
  obtain b where b: "add_block ia st1 = st1\<lparr>bufs := b\<rparr>"
    using fold_put_frame [of "block_addr ?fb" "i_junk ia" ?ks st1] fb(2) by (auto simp: add_block_def)
  have blank: "bufs st1 = Map.empty" using assms(2) by (simp add: boot_def st0_def st1_def)
  have bdom: "dom b = block_addr ?fb ` set ?ks"
    using dom_put_fold [of "block_addr ?fb" "i_junk ia" ?ks st1] b fb(2) blank by (simp add: add_block_def)
  have bval: "\<exists>k < 16. p = block_addr ?fb k \<and> d = i_junk ia k" if "b p = Some d" for p d
    using bufs_put_fold [of "block_addr ?fb" "i_junk ia" ?ks st1 p d] b fb(2) blank that
    by (auto simp: add_block_def)
  define st2 where "st2 = st1\<lparr>bufs := b\<rparr>"
  have cn: "\<forall>k \<in> {0..<0 + 16}. i_cnode ia k \<noteq> NULL \<and> i_cnode ia k \<notin> fst `
      set ((i_node1 ia Freebuf_list, NULL) # [] @ [(i_node2 ia Freebuf_list, NULL)])"
    "distinct (map (i_cnode ia) [0..<0 + 16])"
    using assms(1) by (auto simp: init_ok_def)
  have sh2: "lfq_shape (queues st2 Freebuf_list) (i_node1 ia Freebuf_list, NULL) [] [(i_node2 ia Freebuf_list, NULL)]"
    using q0(2) by (simp add: st2_def st1_def)
  obtain q1 where q1: "enq_blocks ia 0 16 st2 = Some (st2\<lparr>queues := (queues st2)(Freebuf_list := q1)\<rparr>)"
      "lfq_shape q1 (i_node1 ia Freebuf_list, NULL)
         (map (\<lambda>k. (i_cnode ia k, block_addr ?fb k)) ?ks) [(i_node2 ia Freebuf_list, NULL)]"
    using enq_blocks_shape [OF sh2 cn] by auto
  define st3 where "st3 = st2\<lparr>queues := (queues st2)(Freebuf_list := q1)\<rparr>"
  have fresh3: "nodes (queues st3 i) = Map.empty" if "i \<noteq> Freebuf_list" for i
    using assms(2) that by (simp add: boot_def st3_def st2_def st1_def st0_def)
  have rest: "\<exists>q. init_queue ia i s = Some (s\<lparr>queues := (queues s)(i := q)\<rparr>) \<and> lfq_rep q []
      \<and> dom (nodes q) \<subseteq> init_nodes ia"
    if fresh: "nodes (queues s i) = Map.empty" for i s
  proof -
    obtain q where q: "init_queue ia i s = Some (s\<lparr>queues := (queues s)(i := q)\<rparr>)"
        "lfq_shape q (i_node1 ia i, NULL) [] [(i_node2 ia i, NULL)]"
      using init_queue_ok [OF assms(1) fresh] by blast
    have "lfq_rep q []" using q(2) by (rule lfq_repI) simp
    moreover have "dom (nodes q) \<subseteq> init_nodes ia" using lfq_shape_dom [OF q(2)] by (auto simp: init_nodes_def)
    ultimately show ?thesis using q(1) by blast
  qed
  obtain qa where qa: "init_queue ia Realtosim_interest_queue st3 = Some (st3\<lparr>queues := (queues st3)(Realtosim_interest_queue := qa)\<rparr>)" "lfq_rep qa []" "dom (nodes qa) \<subseteq> init_nodes ia"
    using rest [OF fresh3] by blast
  define st4 where "st4 = st3\<lparr>queues := (queues st3)(Realtosim_interest_queue := qa)\<rparr>"
  obtain qb where qb: "init_queue ia Simtoreal_interest_queue st4 = Some (st4\<lparr>queues := (queues st4)(Simtoreal_interest_queue := qb)\<rparr>)" "lfq_rep qb []" "dom (nodes qb) \<subseteq> init_nodes ia"
    using rest [of st4 Simtoreal_interest_queue] fresh3 by (auto simp: st4_def)
  define st5 where "st5 = st4\<lparr>queues := (queues st4)(Simtoreal_interest_queue := qb)\<rparr>"
  obtain qc where qc: "init_queue ia Simtoreal_data_queue st5 = Some (st5\<lparr>queues := (queues st5)(Simtoreal_data_queue := qc)\<rparr>)" "lfq_rep qc []" "dom (nodes qc) \<subseteq> init_nodes ia"
    using rest [of st5 Simtoreal_data_queue] fresh3 by (auto simp: st5_def st4_def)
  define st6 where "st6 = st5\<lparr>queues := (queues st5)(Simtoreal_data_queue := qc)\<rparr>"
  obtain qd where qd: "init_queue ia Realtosim_data_queue st6 = Some (st6\<lparr>queues := (queues st6)(Realtosim_data_queue := qd)\<rparr>)" "lfq_rep qd []" "dom (nodes qd) \<subseteq> init_nodes ia"
    using rest [of st6 Realtosim_data_queue] fresh3 by (auto simp: st6_def st5_def st4_def)
  define st7 where "st7 = st6\<lparr>queues := (queues st6)(Realtosim_data_queue := qd)\<rparr>"
  note defs = st7_def st6_def st5_def st4_def st3_def st2_def st1_def st0_def
  have run: "init_adaptor ia st = Some st7"
    using t(1) q0(1) b q1(1) qa(1) qb(1) qc(1) qd(1) assms(1)
    by (simp add: init_adaptor_def init_ok_def
        st0_def [symmetric] st1_def [symmetric] st2_def [symmetric] st3_def [symmetric]
        st4_def [symmetric] st5_def [symmetric] st6_def [symmetric] st7_def [symmetric])
  have qs: "queues st7 i = (case i of Freebuf_list \<Rightarrow> q1 | Realtosim_interest_queue \<Rightarrow> qa
      | Simtoreal_interest_queue \<Rightarrow> qb | Simtoreal_data_queue \<Rightarrow> qc | Realtosim_data_queue \<Rightarrow> qd)" for i
    by (cases i) (simp_all add: defs)
  have "lfq_rep q1 (map (block_addr ?fb) ?ks)" using q1(2) by (rule lfq_repI) simp
  then have reps: "lfq_rep (queues st7 i) (init_contents ia i)" for i
    using qa(2) qb(2) qc(2) qd(2) by (cases i) (simp_all add: qs init_contents_def)
  have same: "bufs st7 = b" "nut_table st7 = t" "held st7 = []"
    using assms(2) by (simp_all add: defs boot_def held_def)
  have own: "owned (init_contents ia) st7 = mset (map (block_addr ?fb) ?ks)"
    by (simp add: owned_def queued_def init_contents_def same(3) del: upt_rec_numeral)
  have count: "\<forall>p. count (owned (init_contents ia) st7) p \<le> 1"
    unfolding own count_le_1_iff by (rule block_addr_inj [OF fb(1)])
  have bn: "b NULL = None"
    using bval [of NULL] block_addr_nonnull [OF fb] by (cases "b NULL") auto
  have ndok: "nd_ok d" if "b p = Some d" for p d
    using bval [OF that] assms(1) by (auto simp: init_ok_def)
  have send: "sending_ok st7" using same(3) by (auto simp: sending_ok_def held_def)
  have ok: "adaptor_ok (init_contents ia) st7"
    unfolding adaptor_ok_def
  proof (intro conjI)
    show "set_mset (owned (init_contents ia) st7) \<subseteq> dom (bufs st7)"
      unfolding own same(1) bdom by simp
    show "bufs_ok st7" using bn ndok by (simp add: bufs_ok_def same(1))
    show "\<forall>i p d. p \<in> set (init_contents ia i) \<longrightarrow> bufs st7 p = Some d \<longrightarrow> fits_queue i d"
      by (auto simp: fits_queue_def named_queue_def init_contents_def)
    show "held_fits st7" using same(3) by (auto simp: held_fits_def held_def)
  qed (use reps count t(2) send same(2) in simp_all)
  have "leaked (init_contents ia) st7 = {}"
    unfolding leaked_def own same(1) bdom by simp
  moreover have "all_wf (init_contents ia) st7"
    by (auto simp: all_wf_def carriers_def init_contents_def same(3))
  moreover have "ibuf_nip_interest_in st7 = ibuf_nip_interest_in st" "ibuf_nip_data_in st7 = ibuf_nip_data_in st"
    by (simp_all add: defs)
  moreover have "dom (nodes q1) \<subseteq> init_nodes ia"
    unfolding lfq_shape_dom [OF q1(2)] by (auto simp: init_nodes_def)
  then have "dom (nodes (queues st7 i)) \<subseteq> init_nodes ia" for i
    using qa(3) qb(3) qc(3) qd(3) by (cases i) (simp_all add: qs)
  moreover have "dom (bufs st7) = set (init_contents ia Freebuf_list)"
    using bdom same(1) by (simp add: init_contents_def)
  ultimately show ?thesis using run ok same t(3,4) cap by blast
qed

section \<open>Reachable states\<close>

inductive reachable :: "(char list \<Rightarrow> u32) \<Rightarrow> malloc \<Rightarrow> adaptor \<Rightarrow> bool" for ina mal where
  start: "init_ok ia \<Longrightarrow> boot st \<Longrightarrow> init_adaptor ia st = Some st' \<Longrightarrow> reachable ina mal st'"
| step: "reachable ina mal st \<Longrightarrow> ev_ok mal st ev \<Longrightarrow> adaptor_step ina mal ev st = Some (out, st') \<Longrightarrow>
         reachable ina mal st'"

lemma reachable_ok: "reachable ina mal st \<Longrightarrow> \<exists>c. adaptor_ok c st"
proof (induction rule: reachable.induct)
  case (start ia st st')
  then show ?case using init_adaptor_ok by fastforce
next
  case (step st ev out st')
  then show ?case using adaptor_step_ok [of _ st mal ev ina] by (fastforce simp: step_to_def)
qed


section \<open>Memory in use\<close>

text \<open>
  \<open>within A B st\<close>: the queues use no node address outside \<open>A\<close>, and no buffer has an address outside \<open>B\<close>.
  An environment that hands out fresh memory and never reuses an address keeps to its part.
\<close>

definition within :: "addr set \<Rightarrow> addr set \<Rightarrow> adaptor \<Rightarrow> bool" where
  "within A B st \<longleftrightarrow> (\<forall>i. dom (nodes (queues st i)) \<subseteq> A) \<and> dom (bufs st) \<subseteq> B"

lemma enq_within:
  assumes "enq i a p st = Some st'" "within A B st"
  shows "within (insert a A) B st'"
proof -
  obtain r q where "lfq_enqueue a p (queues st i) = Some (r, q)"
      "st' = st\<lparr>queues := (queues st)(i := q)\<rparr>"
    using assms(1) by (auto simp: enq_def bind_eq_Some_conv)
  with lfq_enqueue_adds [of a p "queues st i" r q] assms(2) show ?thesis
    unfolding within_def by (simp add: subset_insertI2) blast
qed

lemma deq_within:
  assumes "deq i st = Some (p, st')" "within A B st"
  shows "within A B st'"
proof -
  obtain q where "lfq_dequeue (queues st i) = Some (p, q)"
      "st' = st\<lparr>queues := (queues st)(i := q)\<rparr>"
    using assms(1) by (auto simp: deq_def bind_eq_Some_conv)
  with lfq_dequeue_shrinks [of "queues st i" p q] assms(2) show ?thesis
    by (auto simp: within_def shrinks_def)
qed

lemma within_upd [simp]:
  "within A B (st\<lparr>nut_table := t\<rparr>) = within A B st" "within A B (st\<lparr>nut_array := n\<rparr>) = within A B st"
  "within A B (st\<lparr>at_udp_interest_out := x\<rparr>) = within A B st" "within A B (st\<lparr>at_udp_data_out := y\<rparr>) = within A B st"
  "within A B (st\<lparr>at_nip_data_out := x\<rparr>) = within A B st" "within A B (st\<lparr>at_nip_interest_out := x\<rparr>) = within A B st"
  "within A B (st\<lparr>ibuf_nip_interest_in := ib\<rparr>) = within A B st" "within A B (st\<lparr>ibuf_nip_data_in := ib\<rparr>) = within A B st"
  by (simp_all add: within_def)

lemma within_mono: "within A B st \<Longrightarrow> A \<subseteq> A' \<Longrightarrow> B \<subseteq> B' \<Longrightarrow> within A' B' st"
  unfolding within_def by blast

lemma within_put: "within A B st \<Longrightarrow> bufs st p = Some d0 \<Longrightarrow> within A B (put_buf p d st)"
  by (auto simp: within_def put_buf_def split: if_splits)

lemma get_freebuf_within:
  assumes "get_freebuf al st = Some (p, st')" "within A B st"
  shows "within A (insert (m_buf al) B) st'"
proof -
  obtain q st1 where q: "deq Freebuf_list st = Some (q, st1)"
      "st' = st1 \<or> st' = st1\<lparr>bufs := (bufs st1)(m_buf al := Some (m_junk al))\<rparr>"
    using assms(1) by (auto simp: get_freebuf_def bind_eq_Some_conv split: if_splits)
  from deq_within [OF q(1) assms(2)] have "\<forall>i. dom (nodes (queues st1 i)) \<subseteq> A" "dom (bufs st1) \<subseteq> B"
    by (auto simp: within_def)
  with q(2) show ?thesis unfolding within_def by (elim disjE) (simp_all add: subset_insertI2 insert_mono)
qed

abbreviation grown :: "addr set \<Rightarrow> addr set \<Rightarrow> allocs \<Rightarrow> adaptor \<Rightarrow> bool" where
  "grown A B al st \<equiv> within (insert (c_node al) A) (insert (m_buf al) B) st"

lemma grown_mono: "within A B st \<Longrightarrow> grown A B al st"
  by (rule within_mono) auto

lemma enq_grown: "enq i (c_node al) p st = Some st' \<Longrightarrow> grown A B al st \<Longrightarrow> grown A B al st'"
  using enq_within [of i "c_node al" p st st'] by fastforce

lemma deq_grown: "deq i st = Some (p, st') \<Longrightarrow> grown A B al st \<Longrightarrow> grown A B al st'"
  by (rule deq_within)

lemma get_freebuf_grown: "get_freebuf al st = Some (p, st') \<Longrightarrow> grown A B al st \<Longrightarrow> grown A B al st'"
  using get_freebuf_within [of al st p st'] by fastforce

lemma grown_put: "bufs st p = Some d0 \<Longrightarrow> grown A B al st \<Longrightarrow> grown A B al (put_buf p d st)"
  by (rule within_put)

lemma receive_grown:
  "get_freebuf al st = Some (p, st1) \<Longrightarrow> enq i (c_node al) p (put_buf p d st1) = Some st' \<Longrightarrow>
   bufs st1 p = Some d0 \<Longrightarrow> grown A B al st \<Longrightarrow> grown A B al st'"
  by (blast intro: enq_grown grown_put get_freebuf_grown)

lemmas grown_moves = enq_grown deq_grown get_freebuf_grown grown_put

lemma udp_data_out_loop_grown:
  "udp_data_out_loop sd al st = Some (out, st') \<Longrightarrow> grown A B al st \<Longrightarrow> grown A B al st'"
  by (auto simp: udp_data_out_loop_def bind_eq_Some_conv split: if_splits dest!: enq_grown)

lemma adaptor_step_grown:
  assumes "adaptor_step ina mal ev st = Some (out, st')" "within A B st"
  shows "grown A B (ev_allocs ev) st'"
proof -
  have g: "grown A B (ev_allocs ev) st" by (rule grown_mono [OF assms(2)])
  show ?thesis
  proof (cases ev)
    case (Udp_data_in dg al)
    with assms(1) g show ?thesis
      by (auto simp: udp_data_in_def bind_eq_Some_conv split: if_splits intro: grown_moves)
  next
    case (Udp_interest_out al)
    with assms(1) g show ?thesis
      by (auto simp: udp_interest_out_def bind_eq_Some_conv split: if_splits option.splits intro: grown_moves)
  next
    case (Udp_interest_in dg a al)
    show ?thesis
    proof (cases "dg = []")
      case True
      with assms(1) g Udp_interest_in show ?thesis by (simp add: udp_interest_in_def)
    next
      case False
      obtain p st1 d0 d t n where s: "get_freebuf al st = Some (p, st1)" "bufs st1 p = Some d0"
        and st': "st' = (put_buf p d st1)\<lparr>nut_table := t, nut_array := n\<rparr> \<or>
          enq Simtoreal_interest_queue (c_node al) p ((put_buf p d st1)\<lparr>nut_table := t, nut_array := n\<rparr>) = Some st'"
        using assms(1) Udp_interest_in False
        by (auto simp: udp_interest_in_def bind_eq_Some_conv Let_def split: if_splits) metis+
      have "grown A B al (put_buf p d st1)"
        using g Udp_interest_in by (intro grown_put [OF s(2)] get_freebuf_grown [OF s(1)]) simp
      then have "grown A B al ((put_buf p d st1)\<lparr>nut_table := t, nut_array := n\<rparr>)" by simp
      with st' enq_grown show ?thesis using Udp_interest_in by auto
    qed
  next
    case (Udp_data_out al)
    with assms(1) g show ?thesis
      by (auto simp: udp_data_out_def bind_eq_Some_conv split: if_splits option.splits
            intro: grown_moves udp_data_out_loop_grown)
  next
    case (Nip_interest_in wait irecv al)
    with assms(1) g show ?thesis
      by (auto simp: nip_interest_in_def bind_eq_Some_conv Let_def split: if_splits prod.splits
            dest: receive_grown [where A = A and B = B])
  next
    case (Nip_data_out wait al)
    with assms(1) g show ?thesis
      by (auto simp: nip_data_out_def bind_eq_Some_conv split: if_splits option.splits intro: grown_moves)
  next
    case (Nip_interest_out wait al)
    with assms(1) g show ?thesis
      by (auto simp: nip_interest_out_def bind_eq_Some_conv split: if_splits option.splits intro: grown_moves)
  next
    case (Nip_data_in wait irecv al)
    with assms(1) g show ?thesis
      by (auto simp: nip_data_in_def bind_eq_Some_conv Let_def split: if_splits prod.splits
            dest: receive_grown [where A = A and B = B])
  qed
qed


section \<open>Entries in use\<close>

lemma nut_set_loop_entry_num:
  "nut_set_loop t nm nlen a i fd = Some (Returned r t') \<Longrightarrow> entry_num t' = entry_num t"
proof (induction t nm nlen a i fd rule: nut_set_loop.induct)
  case (1 t nm nlen a i fd)
  then show ?case
    by (subst (asm) (3) nut_set_loop.simps) (auto simp: bind_eq_Some_conv split: if_splits)
qed

lemma new_entry_entry_num: "new_entry nm nlen a i t = Some (r, t') \<Longrightarrow> entry_num t' = entry_num t"
  by (cases "truncate_name nm nlen") (auto simp: new_entry_def bind_eq_Some_conv)

lemma nut_grow_entry_num: "nut_grow mal t = Some t' \<Longrightarrow> entry_num t' = entry_num t"
  by (auto simp: nut_grow_def bind_eq_Some_conv Let_def)

lemma nut_set_entry_num:
  assumes "nut_set mal nm nlen a t = Some (r, t')"
  shows "entry_num t' = entry_num t \<or> entry_num t' = entry_num t + 1"
proof -
  obtain s where s: "nut_set_loop t nm nlen a 0 (-1) = Some s"
    using assms by (cases "nut_set_loop t nm nlen a 0 (-1)") (simp_all add: nut_set_unfold)
  show ?thesis
  proof (cases s)
    case (Returned r' t1)
    with assms s nut_set_loop_entry_num [of t nm nlen a 0 "-1"] show ?thesis by (simp add: nut_set_unfold)
  next
    case (Ran_out i fd)
    then show ?thesis
      using assms s
      by (cases "fd = -1") (auto simp: nut_set_unfold bind_eq_Some_conv dest!: new_entry_entry_num nut_grow_entry_num
            split: if_splits)
  qed
qed

text \<open>The table does not shrink.\<close>

lemma nut_set_loop_cap:
  "nut_set_loop t nm nlen a i fd = Some (Returned r t') \<Longrightarrow> table_cap t' = table_cap t"
proof (induction t nm nlen a i fd rule: nut_set_loop.induct)
  case (1 t nm nlen a i fd)
  then show ?case
    by (subst (asm) (3) nut_set_loop.simps) (auto simp: bind_eq_Some_conv split: if_splits)
qed

lemma nut_set_loop_ran_out:
  "nut_set_loop t nm nlen a i fd = Some (Ran_out j fd') \<Longrightarrow> i \<le> sint (entry_num t) \<Longrightarrow> j = sint (entry_num t)"
proof (induction t nm nlen a i fd rule: nut_set_loop.induct)
  case (1 t nm nlen a i fd)
  then show ?case
    by (subst (asm) (3) nut_set_loop.simps) (auto simp: bind_eq_Some_conv split: if_splits)
qed

lemma new_entry_cap: "new_entry nm nlen a i t = Some (r, t') \<Longrightarrow> table_cap t' = table_cap t"
  by (cases "truncate_name nm nlen") (auto simp: new_entry_def bind_eq_Some_conv)

lemma nut_grow_cap:
  assumes "nut_grow mal t = Some t'" "0 < unat (table_cap t)" "unat (table_cap t) < 2 ^ 30"
  shows "unat (table_cap t) \<le> unat (table_cap t')"
proof -
  obtain n where "(if table_cap t < 256 then sint (table_cap t * 2) else sint (table_cap t + table_cap t div 4)) = int n"
      "unat (table_cap t) < n" "unat (word_of_int (int n) :: u32) = n"
    using target_cap [OF assms(2,3)] by blast
  with assms(1) show ?thesis by (auto simp: nut_grow_def bind_eq_Some_conv Let_def simp del: of_int_of_nat_eq)
qed

lemma nut_set_cap:
  assumes "nut_set mal nm nlen a t = Some (r, t')" "nut_inv t" "unat (entry_num t) < 2 ^ 30"
  shows "unat (table_cap t) \<le> unat (table_cap t')"
proof -
  obtain s where s: "nut_set_loop t nm nlen a 0 (-1) = Some s"
    using assms(1) by (cases "nut_set_loop t nm nlen a 0 (-1)") (simp_all add: nut_set_unfold)
  show ?thesis
  proof (cases s)
    case (Returned r' t1)
    then have "t1 = t'" using assms(1) s by (simp add: nut_set_unfold)
    with Returned s nut_set_loop_cap [of t nm nlen a 0 "-1" r' t'] show ?thesis by simp
  next
    case (Ran_out i fd)
    have num: "0 \<le> sint (entry_num t)" "sint (entry_num t) = int (unat (entry_num t))"
      using inv_facts(2,3) [OF assms(2)] by simp_all
    have "nut_set_loop t nm nlen a 0 (-1) = Some (Ran_out i fd)" using s Ran_out by simp
    from nut_set_loop_ran_out [OF this num(1)] have i: "i = sint (entry_num t)" .
    have small: "0 < unat (table_cap t) \<and> unat (table_cap t) < 2 ^ 30" if "i = sint (table_cap t)"
    proof -
      have "int (unat (entry_num t)) = int (unat (table_cap t))"
        using that i num(2) inv_facts(1,2,4) [OF assms(2)] by simp
      then have "unat (entry_num t) = unat (table_cap t)" by (simp only: of_nat_eq_iff)
      moreover have "0 < unat (table_cap t)" using assms(2) by (simp only: nut_inv_def)
      ultimately show ?thesis using assms(3) by (simp only:)
    qed
    show ?thesis
    proof (cases "fd = -1")
      case False
      then show ?thesis using assms(1) s Ran_out new_entry_cap [of nm nlen a fd t] by (simp add: nut_set_unfold)
    next
      case True
      then obtain t1 where t1: "(if i = sint (table_cap t) then nut_grow mal t else Some t) = Some t1"
          "new_entry nm nlen a i (t1\<lparr>entry_num := entry_num t1 + 1\<rparr>) = Some (r, t')"
        using assms(1) s Ran_out by (auto simp: nut_set_unfold bind_eq_Some_conv)
      have "unat (table_cap t) \<le> unat (table_cap t1)"
        using t1(1) small nut_grow_cap [of mal t t1] by (cases "i = sint (table_cap t)") auto
      then show ?thesis using new_entry_cap [OF t1(2)] by simp
    qed
  qed
qed

text \<open>After \<open>n\<close> events: an entry at most for each of them, in an array that has at least its first size.\<close>

definition entries_le :: "nat \<Rightarrow> adaptor \<Rightarrow> bool" where
  "entries_le n st \<longleftrightarrow> unat (entry_num (nut_table st)) \<le> n \<and> 32 \<le> unat (table_cap (nut_table st))"

lemma table_moves:
  "enq i a p st = Some st' \<Longrightarrow> nut_table st' = nut_table st"
  "deq i st = Some (p, st') \<Longrightarrow> nut_table st' = nut_table st"
  "get_freebuf al st = Some (p, st') \<Longrightarrow> nut_table st' = nut_table st"
  by (auto simp: enq_def deq_def get_freebuf_def bind_eq_Some_conv split: if_splits)

lemma put_buf_table [simp]: "nut_table (put_buf p d st) = nut_table st"
  by (simp add: put_buf_def)

lemma nut_del_entry_num:
  "nut_del i t = Some t' \<Longrightarrow> entry_num t' = entry_num t \<and> table_cap t' = table_cap t"
  by (auto simp: nut_del_def bind_eq_Some_conv)

lemma udp_data_out_loop_entries:
  "udp_data_out_loop sd al st = Some (out, st') \<Longrightarrow>
     entry_num (nut_table st') = entry_num (nut_table st) \<and> table_cap (nut_table st') = table_cap (nut_table st)"
  by (auto simp: udp_data_out_loop_def bind_eq_Some_conv split: if_splits dest!: table_moves nut_del_entry_num)

lemma adaptor_step_entries:
  assumes "adaptor_step ina mal ev st = Some (out, st')"
  shows "(entry_num (nut_table st') = entry_num (nut_table st)
       \<or> entry_num (nut_table st') = entry_num (nut_table st) + 1)
     \<and> (nut_inv (nut_table st) \<longrightarrow> unat (entry_num (nut_table st)) < 2 ^ 30 \<longrightarrow>
          unat (table_cap (nut_table st)) \<le> unat (table_cap (nut_table st')))"
proof (cases ev)
  case (Udp_interest_in dg a al)
  show ?thesis
  proof (cases "dg = []")
    case True
    with assms Udp_interest_in show ?thesis by (simp add: udp_interest_in_def)
  next
    case False
    then obtain p st1 nm nlen r t d n where s: "get_freebuf al st = Some (p, st1)"
      and set: "nut_set mal nm nlen a (nut_table st1) = Some (r, t)"
      and st': "st' = (put_buf p d st1)\<lparr>nut_table := t, nut_array := n\<rparr> \<or>
          enq Simtoreal_interest_queue (c_node al) p ((put_buf p d st1)\<lparr>nut_table := t, nut_array := n\<rparr>) = Some st'"
      using assms Udp_interest_in
      by (auto simp: udp_interest_in_def bind_eq_Some_conv Let_def split: if_splits) metis+
    have "nut_table st' = t" using st' table_moves(1) by fastforce
    with nut_set_entry_num [OF set] nut_set_cap [OF set] table_moves(3) [OF s] show ?thesis by simp
  qed
next
  case (Udp_data_out al)
  with assms show ?thesis
    by (auto simp: udp_data_out_def bind_eq_Some_conv split: if_splits option.splits
        dest!: table_moves udp_data_out_loop_entries)
qed (use assms in \<open>auto simp: udp_data_in_def udp_interest_out_def nip_interest_in_def nip_data_in_def nip_data_out_def
      nip_interest_out_def bind_eq_Some_conv Let_def split: if_splits option.splits prod.splits
      dest!: table_moves\<close>)

lemma entries_le_step:
  assumes "adaptor_step ina mal ev st = Some (out, st')" "entries_le n st" "n < 2 ^ 30" "nut_inv (nut_table st)"
  shows "entries_le (Suc n) st'"
proof -
  have le: "unat (w + 1) \<le> Suc (unat w)" for w :: u32
    using unat_add_lem [of w 1] by (simp add: unat_word_ariths)
  have n: "unat (entry_num (nut_table st)) \<le> n" "32 \<le> unat (table_cap (nut_table st))"
    using assms(2) by (simp_all add: entries_le_def)
  have "unat (entry_num (nut_table st')) \<le> Suc n"
    using adaptor_step_entries [OF assms(1)] n(1) le [of "entry_num (nut_table st)"] by auto
  moreover have "unat (table_cap (nut_table st)) \<le> unat (table_cap (nut_table st'))"
    using adaptor_step_entries [OF assms(1)] n(1) assms(3,4) by auto
  ultimately show ?thesis using n(2) by (simp add: entries_le_def)
qed

text \<open>While fewer than 32 names are waited for, the table has a slot for another.\<close>

lemma has_slot_few:
  assumes "nut_inv t" "32 \<le> unat (table_cap t)" "card (dom (nut_abs t)) < 32"
  shows "has_slot t"
proof (rule ccontr)
  assume no: "\<not> has_slot t"
  then have live: "\<forall>e \<in> set (used t). \<not> is_deleted e" and full: "unat (table_cap t) \<le> unat (entry_num t)"
    by (auto simp: has_slot_def)
  have "distinct (map e_key (used t))"
    using assms(1) live by (auto simp: nut_inv_def keys_distinct_def distinct_conv_nth)
  then have "card (set (map e_key (used t))) = unat (entry_num t)"
    using inv_facts(2) [OF assms(1)] by (simp only: distinct_card length_map)
  moreover have dom: "dom (nut_abs t) = set (map e_key (used t))"
    using live by (auto simp: nut_abs_def look_def idx_of_None_iff live_at_def dom_def)
  ultimately show False using assms(2,3) full by simp
qed

section \<open>Environments that hand out fresh memory\<close>

text \<open>
  The condition on an event in terms of the relay: the allocator hands out addresses that were not in
  use, packets are well-formed, and while data is being sent to clients an interest arrives only when fewer than 32
  names are waited for, so that the table cannot grow (what happens when it does is \<open>table_growth_breaks_sending\<close>).
\<close>

definition fresh_allocs :: "addr set \<Rightarrow> addr set \<Rightarrow> allocs \<Rightarrow> bool" where
  "fresh_allocs A B al \<longleftrightarrow> (c_node al = NULL \<or> c_node al \<notin> A) \<and> m_buf al \<noteq> NULL \<and> m_buf al \<notin> B
     \<and> nd_ok (m_junk al)"

fun ev_env :: "malloc \<Rightarrow> nat \<Rightarrow> relay \<Rightarrow> event \<Rightarrow> bool" where
  "ev_env mal n r (Udp_data_in dg al) = (dg = [] \<or> dgram_wf dg)"
| "ev_env mal n r (Udp_interest_in dg a al) =
     (dg = [] \<or> dgram_wf dg \<and> malloc_good mal \<and> n < 2 ^ 30
        \<and> (to_clients r = None \<or> card (dom (waiting r)) < 32))"
| "ev_env mal n r (Nip_interest_in wait irecv al) =
     (let (len, ib) = irecv ((r_ibuf_interest r)
          \<lparr>ib_type := TYPE_INTEREST, ib_nlen := MAX_NAME_LEN, ib_dlen := MAX_DATA_LEN\<rparr>)
      in wait \<le> 0 \<or> len \<le> 0 \<or> ibuf_name_ok ib)"
| "ev_env mal n r (Nip_data_in wait irecv al) =
     (let (len, ib) = irecv ((r_ibuf_data r)
          \<lparr>ib_type := TYPE_DATA, ib_nlen := MAX_NAME_LEN, ib_dlen := MAX_DATA_LEN\<rparr>)
      in wait \<le> 0 \<or> len \<le> 0 \<or> ibuf_name_ok ib \<and> (d_type ib = D_NACK \<or> ibuf_data_ok ib))"
| "ev_env mal n r _ = True"

fun run_env :: "(char list \<Rightarrow> u32) \<Rightarrow> malloc \<Rightarrow> addr set \<Rightarrow> addr set \<Rightarrow> nat \<Rightarrow> event list \<Rightarrow> relay \<Rightarrow> bool" where
  "run_env ina mal A B n [] r = True"
| "run_env ina mal A B n (ev # evs) r =
     (fresh_allocs A B (ev_allocs ev) \<and> ev_env mal n r ev \<and> n < 2 ^ 30
      \<and> run_env ina mal (insert (c_node (ev_allocs ev)) A) (insert (m_buf (ev_allocs ev)) B) (Suc n) evs
          (snd (relay_step ina ev r)))"

lemma ev_env_ok:
  assumes "refines c st r" "within A B st" "entries_le n st" "fresh_allocs A B (ev_allocs ev)" "ev_env mal n r ev"
  shows "ev_ok mal st ev" "ev_wf ev"
proof -
  have "nodes (queues st i) x = None" if "x \<notin> A" for i x
    using assms(2) that unfolding within_def by blast
  moreover have "bufs st x = None" if "x \<notin> B" for x
    using assms(2) that unfolding within_def by blast
  ultimately have al: "allocs_fit (ev_allocs ev) st"
    using assms(4) by (auto simp: allocs_fit_def fresh_allocs_def lfq_fresh_def)
  have r: "r = relay_of c st" using assms(1) by (simp add: refines_def)
  have slot: "has_slot (nut_table st)" if "card (dom (nut_abs (nut_table st))) < 32"
    using has_slot_few [OF _ _ that] adaptor_okD(5) [of c st] assms(1,3) by (simp add: refines_def entries_le_def)
  have dg: "interest_dgram_ok dg \<and> data_dgram_ok dg" if "dgram_wf dg" for dg
    using that dgram_packet(3,6) [OF that, of "\<lparr>nd_nlen = 0, nd_dlen = 0, nd_buf = replicate 2040 CHR 0x00\<rparr>"]
    by (simp add: nd_ok_def)
  show "ev_wf ev" using assms(5) by (cases ev) auto
  show "ev_ok mal st ev"
    using al assms(3,5) dg slot
    by (cases ev)
       (auto simp: r table_room_def entries_le_def irecv_interest_def irecv_data_def Let_def split: prod.splits)
qed

lemma run_env_wf:
  assumes "refines c st r" "within A B st" "entries_le n st" "run_env ina mal A B n evs r"
  shows "run_wf ina mal evs st"
  using assms
proof (induction evs arbitrary: c st r A B n)
  case Nil
  then show ?case by simp
next
  case (Cons ev evs)
  then have env: "fresh_allocs A B (ev_allocs ev)" "ev_env mal n r ev" "n < 2 ^ 30" by auto
  note ok = ev_env_ok [OF Cons.prems(1-3) env(1,2)]
  have "run_wf ina mal evs st'" if step: "adaptor_step ina mal ev st = Some (out, st')" for out st'
  proof -
    have "simulates ina mal ev c st" and r: "r = relay_of c st"
      using Cons.prems(1) adaptor_simulates [of c st mal ev ina] ok by (auto simp: refines_def)
    then obtain c' where "refines c' st' (snd (relay_step ina ev r))"
      using step unfolding simulates_def by auto
    moreover have "entries_le (Suc n) st'" using entries_le_step [OF step Cons.prems(3)] env(3)
        adaptor_okD(5) [of c st] Cons.prems(1) by (simp add: refines_def)
    ultimately show ?thesis
      using Cons.IH adaptor_step_grown [OF step Cons.prems(2)] Cons.prems(4) by simp
  qed
  then show ?case using ok by (auto split: option.split)
qed

end
