(* ===== verification/Adaptor_Leaks.thy ===== *)
theory Adaptor_Leaks
  imports Adaptor_Init
begin

text \<open>
  Which buffers get lost.  The contents of the queues are determined by the state, so the lost
  buffers are too; a run from the initial state loses exactly one buffer with each packet that
  \<open>udp_interest_in\<close> and \<open>udp_data_out\<close> drop, and no other.
\<close>

section \<open>The contents are determined by the state\<close>

lemma lfq_rep_unique:
  assumes "lfq_rep q xs" "lfq_rep q ys" "NULL \<notin> set xs" "NULL \<notin> set ys"
  shows "xs = ys"
  using assms
proof (induction xs arbitrary: q ys)
  case Nil
  then show ?case
    using lfq_queue.deq_empty [of q] lfq_queue.deq_cons [of q "hd ys" "tl ys"] by (cases ys) auto
next
  case (Cons x xs)
  obtain q1 where q1: "lfq_dequeue q = Some (x, q1)" "lfq_rep q1 xs"
    using lfq_queue.deq_cons [OF Cons.prems(1)] by blast
  show ?case
  proof (cases ys)
    case Nil
    then show ?thesis using lfq_queue.deq_empty [of q] q1(1) Cons.prems by auto
  next
    case (Cons y ys')
    then obtain q2 where q2: "lfq_dequeue q = Some (y, q2)" "lfq_rep q2 ys'"
      using lfq_queue.deq_cons [of q y ys'] Cons.prems(2) by auto
    then show ?thesis using q1 Cons.IH [of q1 ys'] Cons.prems Cons by auto
  qed
qed

lemma contents_unique:
  assumes "adaptor_ok c st" "adaptor_ok c' st"
  shows "c' = c"
proof
  fix i
  have "NULL \<notin> set (b i)" if "adaptor_ok b st" for b
    using adaptor_okD(3) [OF that in_owned_queue [of NULL b i st]] adaptor_okD(9) [OF that] by auto
  then show "c' i = c i"
    using lfq_rep_unique [of "queues st i" "c' i" "c i"] assms adaptor_okD(1) by blast
qed

section \<open>Dropped packets\<close>

text \<open>The two places where the code drops a packet: an interest the table did not take, and data nobody waits for.\<close>

fun relay_drops :: "event \<Rightarrow> relay \<Rightarrow> bool" where
  "relay_drops (Udp_interest_in dg a al) r \<longleftrightarrow>
     dg \<noteq> [] \<and> fst (register endpoint 8 (name_key (fst (packet_of (nd_of_bytes dg)))) a (waiting r)) \<noteq> 1"
| "relay_drops (Udp_data_out al) r \<longleftrightarrow> to_clients r = None \<and>
     (case chan r Realtosim_data_queue of
        [] \<Rightarrow> False | p # ps \<Rightarrow> waiting r (name_key (fst p)) = None)"
| "relay_drops _ r \<longleftrightarrow> False"

fun drops_in :: "(char list \<Rightarrow> u32) \<Rightarrow> event list \<Rightarrow> relay \<Rightarrow> nat" where
  "drops_in ina [] r = 0"
| "drops_in ina (ev # evs) r =
     (if relay_drops ev r then 1 else 0) + drops_in ina evs (snd (relay_step ina ev r))"

definition loses :: "nat \<Rightarrow> contents \<Rightarrow> adaptor \<Rightarrow> contents \<Rightarrow> adaptor \<Rightarrow> bool" where
  "loses n c st c' st' \<longleftrightarrow>
     (\<exists>L. length L = n \<and> distinct L \<and> set L \<inter> leaked c st = {} \<and> leaked c' st' = set L \<union> leaked c st)"

lemma loses_none: "leaked c' st' = leaked c st \<Longrightarrow> loses 0 c st c' st'"
  by (auto simp: loses_def)

lemma loses_one: "p \<notin> leaked c st \<Longrightarrow> leaked c' st' = insert p (leaked c st) \<Longrightarrow> loses (Suc 0) c st c' st'"
  unfolding loses_def by (intro exI [of _ "[p]"]) auto

lemma loses_trans:
  assumes "loses m c st c1 st1" "loses n c1 st1 c2 st2"
  shows "loses (m + n) c st c2 st2"
proof -
  obtain L L' where "length L = m" "distinct L" "set L \<inter> leaked c st = {}" "leaked c1 st1 = set L \<union> leaked c st"
      "length L' = n" "distinct L'" "set L' \<inter> leaked c1 st1 = {}" "leaked c2 st2 = set L' \<union> leaked c1 st1"
    using assms unfolding loses_def by blast
  then show ?thesis unfolding loses_def by (intro exI [of _ "L' @ L"]) auto
qed

lemma loses_accepted: "accepted i al c st d c' st' \<Longrightarrow> c_node al \<noteq> NULL \<Longrightarrow> loses 0 c st c' st'"
  by (rule loses_none) (auto simp: accepted_def)

lemma loses_freed: "freed al c st p c' st' \<Longrightarrow> c_node al \<noteq> NULL \<Longrightarrow> loses 0 c st c' st'"
  by (rule loses_none) (auto simp: freed_def)

lemma loses_fetched: "fetched i c st p c' st' \<Longrightarrow> loses 0 c st c' st'"
  by (rule loses_none) (auto simp: fetched_def)

lemma loses_dropped: "dropped c st c' st' \<Longrightarrow> loses (Suc 0) c st c' st'"
  by (auto simp: dropped_def intro: loses_one)

lemma udp_interest_in_loses:
  assumes "adaptor_ok c st" "ev_ok mal st (Udp_interest_in dg a al)" "dgram_wf dg" "c_node al \<noteq> NULL"
  shows "\<exists>out st' c'. udp_interest_in mal dg a al st = Some (out, st') \<and> adaptor_ok c' st'
     \<and> loses (if relay_drops (Udp_interest_in dg a al) (relay_of c st) then 1 else 0) c st c' st'"
proof -
  have dg: "dg \<noteq> []" using assms(3) by (auto simp: dgram_wf_def)
  obtain d0 d st' c' r where s: "udp_interest_in mal dg a al st = Some ([], st')" "nd_ok d0"
      "d = nd_of_bytes (dg @ drop (length dg) (nd_bytes d0))"
      "r = fst (nut_register (dgram_key d) a (nut_abs (nut_table st)))"
      "if r = 1 then accepted Simtoreal_interest_queue al c st d c' st' else dropped c st c' st'"
    using udp_interest_in_ok [OF assms(1), of al dg mal a] assms(2) dg by auto
  note pk = dgram_packet [OF assms(3) s(2)]
  have key: "dgram_key d = name_key (fst (packet_of (nd_of_bytes dg)))"
    using key_of_packet [of d] packet_wf_fits [of d] pk s(3) by simp
  have drop: "relay_drops (Udp_interest_in dg a al) (relay_of c st) \<longleftrightarrow> r \<noteq> 1"
    using dg s(4) key by simp
  show ?thesis
  proof (cases "r = 1")
    case True
    then have acc: "accepted Simtoreal_interest_queue al c st d c' st'" using s(5) by simp
    then have "adaptor_ok c' st'" by (simp add: accepted_def)
    with s(1) drop True loses_accepted [OF acc assms(4)] show ?thesis by (auto simp del: relay_drops.simps)
  next
    case False
    then have dr: "dropped c st c' st'" using s(5) by simp
    then have "adaptor_ok c' st'" unfolding dropped_def by blast
    with s(1) drop False loses_dropped [OF dr] show ?thesis by (auto simp del: relay_drops.simps)
  qed
qed

lemma udp_data_out_loses:
  assumes "adaptor_ok c st" "allocs_fit al st" "c_node al \<noteq> NULL"
  shows "\<exists>out st' c'. udp_data_out al st = Some (out, st') \<and> adaptor_ok c' st'
     \<and> loses (if relay_drops (Udp_data_out al) (relay_of c st) then 1 else 0) c st c' st'"
proof (cases "at_udp_data_out st")
  case None
  show ?thesis
  proof (cases "c Realtosim_data_queue")
    case Nil
    with udp_data_out_idle [OF assms(1) None Nil] assms(1) None show ?thesis
      by (auto simp: view_def intro: loses_none)
  next
    case (Cons p ps)
    then obtain d where d: "bufs st p = Some d"
      using adaptor_okD(3) [OF assms(1) in_owned_queue, of p Realtosim_data_queue] by auto
    have "name_fits d" using adaptor_okD(7) [OF assms(1) _ _ d, of Realtosim_data_queue] Cons by (simp add: named_queue_def)
    then have key: "dgram_key d = name_key (fst (packet_at st p))"
      using key_of_packet [OF adaptor_okD(8) [OF assms(1) d]] d by (simp add: packet_at_def)
    have drop: "relay_drops (Udp_data_out al) (relay_of c st) \<longleftrightarrow> nut_abs (nut_table st) (dgram_key d) = None"
      using None Cons key by (simp add: view_cons)
    show ?thesis
    proof (cases "nut_abs (nut_table st) (dgram_key d)")
      case None': None
      from udp_data_out_unknown [OF assms(1) None Cons d None', of al] drop None' show ?thesis
        by (auto intro: loses_one simp del: relay_drops.simps)
    next
      case (Some as)
      obtain out st' c' where f: "udp_data_out al st = Some (out, st')"
          "fetched Realtosim_data_queue c st p c' st'"
        using udp_data_out_first [OF assms(1) None Cons d Some, of al] by blast
      moreover have "adaptor_ok c' st'" using f(2) by (simp add: fetched_def)
      ultimately show ?thesis using drop Some loses_fetched by (auto simp del: relay_drops.simps)
    qed
  qed
next
  case (Some sd)
  obtain d where d: "bufs st (sd_data sd) = Some d"
    using adaptor_okD(3) [OF assms(1), of "sd_data sd"] Some by (auto simp: owned_def held_def)
  show ?thesis
  proof (cases "Suc (nat (sd_i sd)) < length (e_addrs (sd_nut_entry sd st))")
    case True
    have "leaked c (st\<lparr>at_udp_data_out := Some (sd\<lparr>sd_i := sd_i sd + 1\<rparr>)\<rparr>) = leaked c st"
      using Some by (simp add: leaked_def owned_def held_def)
    with udp_data_out_next(1) [OF assms(1) Some d True, of al] udp_data_out_next(2) [OF assms(1) Some d True] Some
    show ?thesis by (auto intro: loses_none)
  next
    case False
    then have "length (e_addrs (sd_nut_entry sd st)) \<le> Suc (nat (sd_i sd))" by simp
    then obtain st' c' where f: "udp_data_out al st = Some ([], st')" "freed al c st (sd_data sd) c' st'"
      using udp_data_out_last [OF assms(1,2) Some] by blast
    moreover have "adaptor_ok c' st'" using f(2) unfolding freed_def by blast
    ultimately show ?thesis using Some loses_freed [OF _ assms(3)] by auto
  qed
qed

lemma adaptor_step_loses:
  assumes "refines c st r" "ev_ok mal st ev" "ev_wf ev" "c_node (ev_allocs ev) \<noteq> NULL"
  shows "\<exists>out st' c'. adaptor_step ina mal ev st = Some (out, st') \<and> refines c' st' (snd (relay_step ina ev r))
     \<and> loses (if relay_drops ev r then 1 else 0) c st c' st'"
proof -
  have ok: "adaptor_ok c st" "all_wf c st" and r: "r = relay_of c st" using assms(1) by (auto simp: refines_def)
  obtain out st' c' where sim: "adaptor_step ina mal ev st = Some (out, st')" "refines c' st' (snd (relay_step ina ev r))"
    using adaptor_simulates [OF ok assms(2,3), of ina] r unfolding simulates_def by blast
  have "\<exists>out st' c'. adaptor_step ina mal ev st = Some (out, st') \<and> adaptor_ok c' st'
      \<and> loses (if relay_drops ev r then 1 else 0) c st c' st'"
  proof (cases "may_drop ev")
    case False
    then have "\<not> relay_drops ev r" by (cases ev) auto
    with adaptor_step_ok [OF ok(1) assms(2), of ina] False assms(4) show ?thesis
      by (auto simp: step_to_def intro: loses_none)
  next
    case True
    then consider dg a al where "ev = Udp_interest_in dg a al" | al where "ev = Udp_data_out al"
      by (cases ev) auto
    then show ?thesis
    proof cases
      case 1
      show ?thesis
      proof (cases "dg = []")
        case True
        with 1 ok(1) show ?thesis by (auto simp: udp_interest_in_def intro: loses_none)
      next
        case False
        with udp_interest_in_loses [OF ok(1), of mal dg a al] assms(2-4) 1 r show ?thesis by simp
      qed
    next
      case 2
      with udp_data_out_loses [OF ok(1), of al] assms(2,4) r show ?thesis by simp
    qed
  qed
  then obtain c'' where "adaptor_ok c'' st'" "loses (if relay_drops ev r then 1 else 0) c st c'' st'"
    using sim(1) by auto
  moreover have "c'' = c'" using contents_unique [OF _ calculation(1)] sim(2) by (simp add: refines_def)
  ultimately show ?thesis using sim by blast
qed

lemma adaptor_run_loses:
  assumes "refines c st r" "run_wf ina mal evs st" "\<forall>ev \<in> set evs. c_node (ev_allocs ev) \<noteq> NULL"
  shows "\<exists>out st' c'. adaptor_run ina mal evs st = Some (out, st') \<and> adaptor_ok c' st'
     \<and> loses (drops_in ina evs r) c st c' st'"
  using assms
proof (induction evs arbitrary: c st r)
  case Nil
  then show ?case by (auto simp: refines_def intro: loses_none)
next
  case (Cons ev evs)
  have ev: "ev_ok mal st ev" "ev_wf ev" "c_node (ev_allocs ev) \<noteq> NULL" using Cons.prems(2,3) by simp_all
  obtain out st1 c1 where s: "adaptor_step ina mal ev st = Some (out, st1)"
      "refines c1 st1 (snd (relay_step ina ev r))" "loses (if relay_drops ev r then 1 else 0) c st c1 st1"
    using adaptor_step_loses [OF Cons.prems(1) ev, of ina] by blast
  have "run_wf ina mal evs st1" using Cons.prems(2) s(1) by simp
  then obtain outs st2 c2 where "adaptor_run ina mal evs st1 = Some (outs, st2)" "adaptor_ok c2 st2"
      "loses (drops_in ina evs (snd (relay_step ina ev r))) c1 st1 c2 st2"
    using Cons.IH [OF s(2)] Cons.prems(3) by auto
  with s loses_trans [OF s(3)] show ?case by (intro exI [of _ "out @ outs"] exI [of _ st2] exI [of _ c2]) simp
qed

end
