(* ===== verification/Adaptor_Run.thy ===== *)
theory Adaptor_Run
  imports Adaptor_Leaks
begin

text \<open>
  Runs from the initial state: the relay it stands for, what a run needs of its environment, and
  the course of a request: interests of several clients, the data, the answers.
\<close>

section \<open>The initial state\<close>

definition idle_relay :: "isockbuf \<Rightarrow> isockbuf \<Rightarrow> relay" where
  "idle_relay ib ib' = \<lparr>chan = (\<lambda>_. []), waiting = (\<lambda>_. None), to_sim = None, to_clients = None,
     to_nip_data = None, to_nip_interest = None, r_ibuf_interest = ib, r_ibuf_data = ib'\<rparr>"

definition boot_relay :: "adaptor \<Rightarrow> relay" where
  "boot_relay st = idle_relay (ibuf_nip_interest_in st) (ibuf_nip_data_in st)"

definition init_addrs :: "init_allocs \<Rightarrow> addr set" where
  "init_addrs ia = set (init_contents ia Freebuf_list)"

lemma init_refines:
  assumes "init_ok ia" "boot st"
  shows "\<exists>st'. init_adaptor ia st = Some st' \<and> refines (init_contents ia) st' (boot_relay st)
     \<and> within (init_nodes ia) (init_addrs ia) st' \<and> entries_le 0 st' \<and> leaked (init_contents ia) st' = {}"
proof -
  obtain st' where st': "init_adaptor ia st = Some st'" "adaptor_ok (init_contents ia) st'"
      "leaked (init_contents ia) st' = {}" "all_wf (init_contents ia) st'"
      "nut_abs (nut_table st') = (\<lambda>_. None)" "entry_num (nut_table st') = 0" "held st' = []"
      "unat (table_cap (nut_table st')) = 32"
      "ibuf_nip_interest_in st' = ibuf_nip_interest_in st" "ibuf_nip_data_in st' = ibuf_nip_data_in st"
      "\<forall>i. dom (nodes (queues st' i)) \<subseteq> init_nodes ia" "dom (bufs st') = init_addrs ia"
    using init_adaptor_ok [OF assms] by (auto simp: init_addrs_def)
  have "at_udp_interest_out st' = None" "at_udp_data_out st' = None" "at_nip_data_out st' = None"
      "at_nip_interest_out st' = None"
    using st'(7) by (cases "at_udp_interest_out st'"; cases "at_udp_data_out st'"; cases "at_nip_data_out st'";
        cases "at_nip_interest_out st'"; simp add: held_def)+
  moreover have "view (init_contents ia) st' = (\<lambda>_. [])"
    by (auto simp: view_def init_contents_def)
  ultimately have "relay_of (init_contents ia) st' = boot_relay st"
    using st'(5,9,10) by (simp add: relay_of_def boot_relay_def idle_relay_def)
  then show ?thesis
    using st' by (auto simp: refines_def within_def entries_le_def)
qed

section \<open>What a run needs of its environment\<close>

fun allocs_fresh :: "addr set \<Rightarrow> addr set \<Rightarrow> allocs list \<Rightarrow> bool" where
  "allocs_fresh A B [] = True"
| "allocs_fresh A B (al # als) =
     (fresh_allocs A B al \<and> allocs_fresh (insert (c_node al) A) (insert (m_buf al) B) als)"

fun run_evs :: "(char list \<Rightarrow> u32) \<Rightarrow> malloc \<Rightarrow> nat \<Rightarrow> event list \<Rightarrow> relay \<Rightarrow> bool" where
  "run_evs ina mal n [] r = True"
| "run_evs ina mal n (ev # evs) r =
     (ev_env mal n r ev \<and> n < 2 ^ 30 \<and> run_evs ina mal (Suc n) evs (snd (relay_step ina ev r)))"

lemma run_env_iff:
  "run_env ina mal A B n evs r \<longleftrightarrow> allocs_fresh A B (map ev_allocs evs) \<and> run_evs ina mal n evs r"
  by (induction evs arbitrary: A B n r) auto

lemma relay_run_append:
  "relay_run ina (evs @ evs') r =
     (fst (relay_run ina evs r) @ fst (relay_run ina evs' (snd (relay_run ina evs r))),
      snd (relay_run ina evs' (snd (relay_run ina evs r))))"
  by (induction evs arbitrary: r) (simp_all add: split_beta)

lemma run_evs_append:
  "run_evs ina mal n (evs @ evs') r \<longleftrightarrow>
     run_evs ina mal n evs r \<and> run_evs ina mal (n + length evs) evs' (snd (relay_run ina evs r))"
  by (induction evs arbitrary: n r) (simp_all add: split_beta)

text \<open>A run from the initial state is a run of the relay.\<close>

lemma boot_run:
  assumes "init_ok ia" "boot st0" "init_adaptor ia st0 = Some st"
    "allocs_fresh (init_nodes ia) (init_addrs ia) (map ev_allocs evs)" "run_evs ina mal 0 evs (boot_relay st0)"
  shows "refines (init_contents ia) st (boot_relay st0)" "run_wf ina mal evs st"
    "leaked (init_contents ia) st = {}"
proof -
  obtain st' where "init_adaptor ia st0 = Some st'" "refines (init_contents ia) st' (boot_relay st0)"
      "within (init_nodes ia) (init_addrs ia) st'" "entries_le 0 st'" "leaked (init_contents ia) st' = {}"
    using init_refines [OF assms(1,2)] by blast
  then show "refines (init_contents ia) st (boot_relay st0)" "run_wf ina mal evs st"
      "leaked (init_contents ia) st = {}"
    using run_env_wf [of _ st _ "init_nodes ia" "init_addrs ia" 0 ina mal evs] assms(3-5)
    by (simp_all add: run_env_iff)
qed

lemma boot_run_result:
  assumes "init_ok ia" "boot st0" "init_adaptor ia st0 = Some st"
    "allocs_fresh (init_nodes ia) (init_addrs ia) (map ev_allocs evs)" "run_evs ina mal 0 evs (boot_relay st0)"
    "relay_run ina evs (boot_relay st0) = (out', r)"
  shows "\<exists>out st' c. adaptor_run ina mal evs st = Some (out, st') \<and> refines c st' r \<and> map seen out = out'"
  using adaptor_run_refines [OF boot_run(1,2) [OF assms(1-5)]] assms(6) by simp

section \<open>Packets on the wire\<close>

text \<open>The datagram the simulator sends for a name and a content, without the unused rest of the structure.\<close>

definition dgram :: "char list \<Rightarrow> char list \<Rightarrow> char list" where
  "dgram n v = u32_bytes (word_of_nat (length n)) @ u32_bytes (word_of_nat (length v)) @ n @ v"

lemma dgram_fields:
  assumes "length n + length v \<le> 2040"
  shows "nd_of_bytes (dgram n v) = \<lparr>nd_nlen = word_of_nat (length n), nd_dlen = word_of_nat (length v), nd_buf = n @ v\<rparr>"
    "unat (word_of_nat (length n) :: u32) = length n" "unat (word_of_nat (length v) :: u32) = length v"
proof -
  have [simp]: "length (u32_bytes w) = 4" for w by (simp add: u32_bytes_def)
  show "nd_of_bytes (dgram n v) = \<lparr>nd_nlen = word_of_nat (length n), nd_dlen = word_of_nat (length v), nd_buf = n @ v\<rparr>"
    by (simp add: nd_of_bytes_def dgram_def)
  show "unat (word_of_nat (length n) :: u32) = length n" "unat (word_of_nat (length v) :: u32) = length v"
    using assms by (simp_all add: unat_of_nat_small)
qed

lemma dgram_facts:
  assumes "length n + length v \<le> 2040"
  shows "dgram n v \<noteq> []" "packet_of (nd_of_bytes (dgram n v)) = (n, v)" "dgram_wf (dgram n v)"
proof -
  note f = dgram_fields [OF assms]
  have len: "length (dgram n v) = 8 + length n + length v" by (simp add: dgram_def u32_bytes_def)
  show "dgram n v \<noteq> []" using len by auto
  show "packet_of (nd_of_bytes (dgram n v)) = (n, v)" using f by (simp add: packet_of_def)
  show "dgram_wf (dgram n v)" using assms len f by (simp add: dgram_wf_def)
qed

section \<open>The course of a request\<close>

definition interest_events :: "char list \<Rightarrow> (sockaddr_in \<times> allocs) list \<Rightarrow> event list" where
  "interest_events n aals = map (\<lambda>(a, al). Udp_interest_in (dgram n []) a al) aals"

lemma relay_interest:
  assumes "length n \<le> 1024" "c_node al \<noteq> NULL" "waiting r n = (if ws = [] then None else Some ws)"
    "endpoint a \<notin> endpoint ` set ws" "length ws < 8"
  shows "relay_step ina (Udp_interest_in (dgram n []) a al) r =
     ([], r\<lparr>waiting := (waiting r)(n := Some (ws @ [a])),
            chan := (chan r)(Simtoreal_interest_queue := chan r Simtoreal_interest_queue @ [(n, [])])\<rparr>)"
proof -
  have "length n + length ([] :: char list) \<le> 2040" using assms(1) by simp
  note dg = dgram_facts [OF this]
  have "name_key n = n" using assms(1) by (simp add: name_key_def)
  then show ?thesis using assms dg by (cases r) (auto simp: register_def push_def)
qed

lemma relay_interests:
  assumes "length n \<le> 1024" "\<forall>(a, al) \<in> set aals. c_node al \<noteq> NULL"
    "waiting r n = (if ws = [] then None else Some ws)"
    "distinct (map endpoint (ws @ map fst aals))" "length ws + length aals \<le> 8"
  shows "\<exists>q. relay_run ina (interest_events n aals) r =
     ([], r\<lparr>waiting := (waiting r)(n := if ws = [] \<and> aals = [] then None else Some (ws @ map fst aals)),
            chan := (chan r)(Simtoreal_interest_queue := q)\<rparr>)"
  using assms
proof (induction aals arbitrary: r ws)
  case Nil
  then have "(waiting r)(n := if ws = [] then None else Some ws) = waiting r" by auto
  then have "r\<lparr>waiting := (waiting r)(n := if ws = [] then None else Some ws)\<rparr> = r" by simp
  then show ?case
    by (intro exI [of _ "chan r Simtoreal_interest_queue"]) (simp add: interest_events_def del: fun_upd_apply cong: if_cong split del: if_split)
next
  case (Cons x aals)
  obtain a al where x: "x = (a, al)" by (cases x)
  let ?r = "r\<lparr>waiting := (waiting r)(n := Some (ws @ [a])),
      chan := (chan r)(Simtoreal_interest_queue := chan r Simtoreal_interest_queue @ [(n, [])])\<rparr>"
  have s: "relay_step ina (Udp_interest_in (dgram n []) a al) r = ([], ?r)"
    by (rule relay_interest) (use Cons.prems x in auto)
  have "\<exists>q. relay_run ina (interest_events n aals) ?r =
     ([], ?r\<lparr>waiting := (waiting ?r)(n := if ws @ [a] = [] \<and> aals = [] then None else Some ((ws @ [a]) @ map fst aals)),
            chan := (chan ?r)(Simtoreal_interest_queue := q)\<rparr>)"
    by (rule Cons.IH) (use Cons.prems x in auto)
  then obtain q where "relay_run ina (interest_events n aals) ?r =
     ([], ?r\<lparr>waiting := (waiting ?r)(n := Some ((ws @ [a]) @ map fst aals)),
            chan := (chan ?r)(Simtoreal_interest_queue := q)\<rparr>)" by auto
  then show ?case
    using s x by (intro exI [of _ q]) (simp add: interest_events_def del: relay_step.simps fun_upd_apply)
qed

lemma run_evs_interests:
  assumes "length n \<le> 1024" "malloc_good mal" "to_clients r = None" "k + length aals < 2 ^ 30"
  shows "run_evs ina mal k (interest_events n aals) r"
  using assms
proof (induction aals arbitrary: k r)
  case Nil
  then show ?case by (simp add: interest_events_def)
next
  case (Cons x aals)
  obtain a al where x: "x = (a, al)" by (cases x)
  have "to_clients (snd (relay_step ina (Udp_interest_in (dgram n []) a al) r)) = None"
    using Cons.prems(3) by (simp add: push_def Let_def split: prod.splits)
  with Cons x dgram_facts(3) [of n "[]"] show ?case by (simp add: interest_events_def del: relay_step.simps)
qed

lemma run_evs_answers: "k + length als < 2 ^ 30 \<Longrightarrow> run_evs ina mal k (map Udp_data_out als) r"
  by (induction als arbitrary: k r) auto

lemma relay_answers:
  assumes "to_clients r = Some \<lparr>s_packet = p, s_key = k, s_i = i\<rparr>" "waiting r k = Some as"
    "length als + i = length as" "i < length as"
  shows "relay_run ina (map Udp_data_out als) r =
     (map (\<lambda>a. To_udp a p) (drop (Suc i) as), r\<lparr>waiting := (waiting r)(k := None), to_clients := None\<rparr>)"
  using assms
proof (induction als arbitrary: r i)
  case Nil
  then show ?case by simp
next
  case (Cons al als)
  show ?case
  proof (cases "Suc i < length as")
    case True
    let ?r = "r\<lparr>to_clients := Some \<lparr>s_packet = p, s_key = k, s_i = Suc i\<rparr>\<rparr>"
    have "relay_run ina (map Udp_data_out als) ?r =
       (map (\<lambda>a. To_udp a p) (drop (Suc (Suc i)) as), ?r\<lparr>waiting := (waiting ?r)(k := None), to_clients := None\<rparr>)"
      by (rule Cons.IH) (use Cons.prems True in auto)
    then show ?thesis
      using Cons.prems True Cons_nth_drop_Suc [OF True, symmetric]
      by (cases r) (simp add: Let_def fun_upd_def)
  next
    case False
    with Cons.prems(3,4) have "length als = 0" by (simp only: list.size)
    with Cons.prems False show ?thesis by (cases r) (simp add: Let_def fun_upd_def)
  qed
qed

end
