(* ===== verification/Adaptor_Props.thy ===== *)
theory Adaptor_Props
  imports Adaptor_Run Nut_Props
begin

text \<open>
  The properties of the running adaptor: it never faults while its environment keeps to its part,
  no buffer is in two places, it implements the relay and answers everybody who waits; how many buffers
  it loses; and what happens where it does not check what it receives.
\<close>

section \<open>Samples for the witnesses\<close>

text \<open>Sixteen zeroed buffers from 65536 on, nodes at addresses below that, five per queue.\<close>

primrec queue_no :: "queue_id \<Rightarrow> addr" where
  "queue_no Freebuf_list = 10"
| "queue_no Realtosim_interest_queue = 20"
| "queue_no Simtoreal_interest_queue = 30"
| "queue_no Simtoreal_data_queue = 40"
| "queue_no Realtosim_data_queue = 50"

definition zero_buffer :: simple_name_data where
  "zero_buffer = \<lparr>nd_nlen = 0, nd_dlen = 0, nd_buf = replicate 2040 CHR 0x00\<rparr>"

definition zero_ibuf :: isockbuf where
  "zero_ibuf = \<lparr>ib_type = 0, ib_name = [], ib_nlen = 0, ib_data = [], ib_dlen = 0, ib_flags = 0, ib_time = 0\<rparr>"

definition sample_init :: init_allocs where
  "sample_init = \<lparr>i_tab_ok = True, i_entries = sample_malloc, i_node1 = queue_no,
     i_node2 = (\<lambda>i. queue_no i + 1), i_HP_ok = (\<lambda>_. True), i_tid_ok = (\<lambda>_. True),
     i_freeblock = 65536, i_junk = (\<lambda>_. zero_buffer), i_cnode = (\<lambda>k. 100 + word_of_nat k)\<rparr>"

definition zero_queue :: lfq where
  "zero_queue = \<lparr>head = NULL, count = 0, HP = None, tid_map = None, is_freeing = 0, fph = NULL,
     fpt = NULL, MAXHPSIZE = 0, tail = NULL, nodes = Map.empty\<rparr>"

definition sample_boot :: adaptor where
  "sample_boot = \<lparr>queues = (\<lambda>_. zero_queue), nut_table = \<lparr>table_cap = 0, entry_num = 0, entries = []\<rparr>,
     nut_array = 0, bufs = Map.empty, at_udp_interest_out = None, at_udp_data_out = None,
     at_nip_data_out = None, at_nip_interest_out = None, ibuf_nip_interest_in = zero_ibuf,
     ibuf_nip_data_in = zero_ibuf\<rparr>"

lemma sample_boot: "boot sample_boot"
  by (simp add: boot_def sample_boot_def zero_queue_def held_def)

lemma queue_no_nonnull: "queue_no i \<noteq> 0" "queue_no i + 1 \<noteq> 0" "queue_no i \<noteq> queue_no i + 1"
  by (cases i; simp)+

lemma small_nodes:
  assumes "k < 16"
  shows "unat (100 + word_of_nat k :: addr) = 100 + k"
proof -
  have "unat (word_of_nat k :: addr) = k" using assms by (simp add: unsigned_of_nat take_bit_nat_eq_self)
  then show ?thesis using assms by (subst unat_add_lem [THEN iffD1]) auto
qed

lemma sample_init_ok: "init_ok sample_init"
proof -
  have ne: "(100 + word_of_nat k :: addr) \<noteq> w" if "k < 16" "unat w < 100" for k w
    using small_nodes [OF that(1)] that by auto
  have "inj_on (\<lambda>k. 100 + word_of_nat k :: addr) {0..<16}"
    by (rule inj_onI) (use small_nodes in \<open>metis add_left_imp_eq atLeastLessThan_iff\<close>)
  then have "distinct (map (\<lambda>k. 100 + word_of_nat k :: addr) [0..<16])" by (simp add: distinct_map)
  then show ?thesis
    using ne sample_malloc_good queue_no_nonnull
    by (auto simp: init_ok_def sample_init_def nd_ok_def zero_buffer_def simp del: upt_rec_numeral)
qed

text \<open>What the allocator answers to the \<open>k\<close>-th event.\<close>

definition sample_alloc :: "nat \<Rightarrow> allocs" where
  "sample_alloc k = \<lparr>m_buf = word_of_nat (200000 + k), m_junk = zero_buffer, c_node = word_of_nat (1000 + k),
     s_junk = zero_ibuf\<rparr>"

lemma sample_alloc_addrs:
  assumes "k < 1000"
  shows "unat (c_node (sample_alloc k)) = 1000 + k" "unat (m_buf (sample_alloc k)) = 200000 + k"
    "nd_ok (m_junk (sample_alloc k))" "c_node (sample_alloc k) \<noteq> NULL"
proof -
  show 1: "unat (c_node (sample_alloc k)) = 1000 + k" "unat (m_buf (sample_alloc k)) = 200000 + k"
    unfolding sample_alloc_def allocs.simps
    by (rule of_nat_inverse [OF refl], use assms in simp)+
  show "nd_ok (m_junk (sample_alloc k))" by (simp add: sample_alloc_def nd_ok_def zero_buffer_def)
  show "c_node (sample_alloc k) \<noteq> NULL" using 1(1) by force
qed

lemma allocs_fresh_sample:
  assumes "\<forall>x \<in> A. unat x < 1000 + k" "\<forall>x \<in> B. unat x < 200000 + k" "k + n \<le> 1000"
  shows "allocs_fresh A B (map sample_alloc [k..<k + n])"
  using assms
proof (induction n arbitrary: k A B)
  case 0
  then show ?case by simp
next
  case (Suc n)
  have k: "k < 1000" using Suc.prems(3) by simp
  note al = sample_alloc_addrs [OF k]
  have new: "c_node (sample_alloc k) \<notin> A" "m_buf (sample_alloc k) \<notin> B" "m_buf (sample_alloc k) \<noteq> NULL"
    using Suc.prems(1,2) al(1,2) by force+
  have "allocs_fresh (insert (c_node (sample_alloc k)) A) (insert (m_buf (sample_alloc k)) B)
      (map sample_alloc [Suc k..<Suc k + n])"
    by (rule Suc.IH) (use Suc.prems al in auto)
  moreover have "[k..<k + Suc n] = k # [Suc k..<Suc k + n]" by (simp add: upt_conv_Cons)
  ultimately show ?case using new al(3) by (simp add: fresh_allocs_def del: upt_Suc)
qed

lemma sample_addrs:
  "x \<in> init_nodes sample_init \<Longrightarrow> unat x < 1000" "x \<in> init_addrs sample_init \<Longrightarrow> unat x < 200000"
proof -
  show "unat x < 1000" if "x \<in> init_nodes sample_init"
  proof -
    have "unat (queue_no i) < 1000" "unat (queue_no i + 1) < 1000" for i by (cases i; simp)+
    with that small_nodes show ?thesis by (auto simp: init_nodes_def sample_init_def)
  qed
  show "unat x < 200000" if "x \<in> init_addrs sample_init"
  proof -
    have "x \<in> block_addr 65536 ` {0..<16}"
      using that by (simp add: init_addrs_def init_contents_def sample_init_def del: upt_rec_numeral)
    then obtain k where "k < 16" "x = block_addr 65536 k" by auto
    then show ?thesis using block_addr_unat [of 65536 k] by simp
  qed
qed

lemma allocs_fresh_boot:
  "n \<le> 1000 \<Longrightarrow> allocs_fresh (init_nodes sample_init) (init_addrs sample_init) (map sample_alloc [0..<n])"
  using allocs_fresh_sample [of _ 0 _ n] sample_addrs by simp

lemma sample_start:
  obtains st where "init_adaptor sample_init sample_boot = Some st" "reachable ina mal st"
    "refines (init_contents sample_init) st (idle_relay zero_ibuf zero_ibuf)"
    "within (init_nodes sample_init) (init_addrs sample_init) st"
proof -
  obtain st where st: "init_adaptor sample_init sample_boot = Some st"
     "refines (init_contents sample_init) st (boot_relay sample_boot)"
     "within (init_nodes sample_init) (init_addrs sample_init) st"
    using init_refines [OF sample_init_ok sample_boot] by blast
  moreover have "reachable ina mal st" by (rule reachable.start [OF sample_init_ok sample_boot st(1)])
  ultimately show ?thesis by (intro that) (simp_all add: boot_relay_def sample_boot_def)
qed

section \<open>Safety\<close>



text \<open>
  C14. In every reachable state no buffer is in two places: no address occurs twice in the five queues
  and the suspended coroutines together, and every address there is that of an allocated buffer.  (Not every
  allocated buffer is in a place: \<open>lost_buffers_are_the_drops\<close>.)
\<close>

theorem no_buffer_in_two_places:
  assumes "reachable ina mal st"
  shows "\<exists>c. (\<forall>i. lfq_rep (queues st i) (c i)) \<and> distinct (queued c @ held st)
           \<and> set (queued c @ held st) \<subseteq> dom (bufs st)"
proof -
  obtain c where c: "adaptor_ok c st" using reachable_ok [OF assms] by blast
  have own: "owned c st = mset (queued c @ held st)" by (simp add: owned_def)
  have "distinct (queued c @ held st)"
    using adaptor_okD(2) [OF c] unfolding own count_le_1_iff [symmetric] by blast
  moreover have "set (queued c @ held st) \<subseteq> dom (bufs st)"
    using adaptor_okD(3) [OF c] unfolding own by auto
  ultimately show ?thesis using adaptor_okD(1) [OF c] by blast
qed

theorem no_buffer_in_two_places_witness:
  "\<exists>st c. init_adaptor sample_init sample_boot = Some st \<and> distinct (queued c @ held st)
     \<and> (\<forall>i. lfq_rep (queues st i) (c i))"
  by (rule sample_start [of "\<lambda>_. 0" sample_malloc]) (use no_buffer_in_two_places in blast)

text \<open>
  C24. The data of a reachable state has the types the code reads it with: a buffer holds 2040 bytes
  after its header and is not at \<open>NULL\<close>, the name table is well-formed, and the table entry a suspended
  \<open>udp_data_out\<close> points to exists, is the one of the current array and has the endpoint it sends to.
\<close>

theorem reachable_typed:
  assumes "reachable ina mal st"
  shows "bufs st NULL = None \<and> (\<forall>p d. bufs st p = Some d \<longrightarrow> length (nd_buf d) = 2040)
    \<and> nut_inv (nut_table st)
    \<and> (\<forall>sd. at_udp_data_out st = Some sd \<longrightarrow>
         (\<exists>e a. entry_at sd st = Some e \<and> deleted e \<noteq> 1 \<and> aread (e_addr e) (sd_i sd) = Some a))"
proof -
  obtain c where c: "adaptor_ok c st" using reachable_ok [OF assms] by blast
  have "\<exists>e a. entry_at sd st = Some e \<and> deleted e \<noteq> 1 \<and> aread (e_addr e) (sd_i sd) = Some a"
    if "at_udp_data_out st = Some sd" for sd
  proof -
    have "sd_live sd st" "nat (sd_i sd) < length (e_addrs (sd_nut_entry sd st))"
      using adaptor_okD(6) [OF c] that by (auto simp: sending_ok_iff)
    then show ?thesis
      using entry_at_ok [OF c] entry_addr(2) [OF adaptor_okD(5) [OF c]] by (auto simp: sd_live_def)
  qed
  moreover have "length (nd_buf d) = 2040" if "bufs st p = Some d" for p d
    using adaptor_okD(8) [OF c that] by (simp add: nd_ok_def)
  ultimately show ?thesis using adaptor_okD(5,9) [OF c] by blast
qed

theorem reachable_typed_witness:
  "\<exists>st. init_adaptor sample_init sample_boot = Some st \<and> nut_inv (nut_table st) \<and> bufs st NULL = None"
  by (rule sample_start [of "\<lambda>_. 0" sample_malloc]) (use reachable_typed in blast)

section \<open>What the adaptor is for\<close>

text \<open>
  C1. From its initial state the adaptor implements the relay: for every sequence of well-formed
  events and every allocator that hands out fresh memory or no queue node, it does not fail, sends
  exactly the packets the relay sends, in that order, and ends in a state that stands for the relay's.
\<close>

theorem adaptor_refines_relay:
  assumes "init_ok ia" and "boot st0" and "init_adaptor ia st0 = Some st"
    and "allocs_fresh (init_nodes ia) (init_addrs ia) (map ev_allocs evs)"
    and "run_evs ina mal 0 evs (boot_relay st0)"
  shows "\<exists>out st' c. adaptor_run ina mal evs st = Some (out, st')
     \<and> map seen out = fst (relay_run ina evs (boot_relay st0))
     \<and> refines c st' (snd (relay_run ina evs (boot_relay st0)))"
  using boot_run_result [OF assms prod.collapse [symmetric]] by blast

text \<open>An interest travels from a client to the network.\<close>

abbreviation interest_course :: "event list" where
  "interest_course \<equiv> [Udp_interest_in (dgram ''/a/1'' []) (sample_port 1) (sample_alloc 0),
     Nip_interest_out 0 (sample_alloc 1), Nip_interest_out 1 (sample_alloc 2)]"

theorem adaptor_refines_relay_witness:
  "\<exists>st out st'. init_adaptor sample_init sample_boot = Some st
     \<and> adaptor_run (\<lambda>_. 0) sample_malloc interest_course st = Some (out, st')
     \<and> map seen out = [To_nip TYPE_INTEREST (''/a/1'', [])]"
proof -
  obtain st where st: "init_adaptor sample_init sample_boot = Some st"
    by (rule sample_start [of "\<lambda>_. 0" sample_malloc])
  note dg = dgram_facts [of "''/a/1''" "[]", simplified]
  have nodes: "c_node (sample_alloc 0) \<noteq> NULL" using sample_alloc_addrs(4) [of 0] by simp
  have fresh: "allocs_fresh (init_nodes sample_init) (init_addrs sample_init) (map ev_allocs interest_course)"
    using allocs_fresh_boot [of 3] by (simp add: upt_rec eval_nat_numeral)
  have run: "relay_run (\<lambda>_. 0) interest_course (boot_relay sample_boot) =
      ([To_nip TYPE_INTEREST (''/a/1'', [])],
       (boot_relay sample_boot)\<lparr>chan := (\<lambda>_. []), waiting := [''/a/1'' \<mapsto> [sample_port 1]]\<rparr>)"
    using dg nodes by (simp add: boot_relay_def idle_relay_def register_def push_def name_key_def fun_upd_idem)
  have "run_evs (\<lambda>_. 0) sample_malloc 0 interest_course (boot_relay sample_boot)"
    using dg nodes sample_malloc_good by (simp add: boot_relay_def idle_relay_def register_def push_def)
  from adaptor_refines_relay [OF sample_init_ok sample_boot st fresh this] run st show ?thesis by auto
qed

text \<open>
  C7. Everybody who waits is answered: after \<open>init_adaptor\<close>, when up to eight clients with different
  endpoints have sent interests for the same name and the network delivers the data of that name,
  then resuming \<open>udp_data_out\<close> once per client and once more sends the packet to every client, in
  the order of the interests, and removes the name from the table.
\<close>

theorem waiting_clients_answered:
  assumes "init_ok ia" and "boot st0" and "init_adaptor ia st0 = Some st" and "malloc_good mal"
    and "aals \<noteq> []" and "length aals \<le> 8" and "distinct (map (\<lambda>x. endpoint (fst x)) aals)" and "length n \<le> 1024"
    and "ibuf_name_ok ib" and "ibuf_data_ok ib" and "d_type ib \<noteq> D_NACK" and "ibuf_packet ib = (n, v)" and "0 < len"
    and "length als = Suc (length aals)" and "\<forall>al \<in> set (map snd aals @ al' # als). c_node al \<noteq> NULL"
    and "allocs_fresh (init_nodes ia) (init_addrs ia) (map snd aals @ al' # als)"
  shows "\<exists>out st'. adaptor_run ina mal
        (interest_events n aals @ Nip_data_in 1 (\<lambda>_. (len, ib)) al' # map Udp_data_out als) st = Some (out, st')
     \<and> map seen out = map (\<lambda>x. To_udp (fst x) (n, v)) aals \<and> nut_abs (nut_table st') n = None"
proof -
  let ?r0 = "boot_relay st0" and ?as = "map fst aals"
  let ?rest = "Nip_data_in 1 (\<lambda>_. (len, ib)) al' # map Udp_data_out als"
  have key: "name_key n = n" using assms(8) by (simp add: name_key_def)
  have idle: "waiting ?r0 = (\<lambda>_. None)" "to_clients ?r0 = None" "chan ?r0 i = []" for i
    by (simp_all add: boot_relay_def idle_relay_def)
  have "\<forall>(a, al) \<in> set aals. c_node al \<noteq> NULL" using assms(15) by force
  then obtain q where q: "relay_run ina (interest_events n aals) ?r0 =
     ([], ?r0\<lparr>waiting := [n \<mapsto> ?as], chan := (chan ?r0)(Simtoreal_interest_queue := q)\<rparr>)"
    using relay_interests [of n aals ?r0 "[]" ina] assms(5-8,15) idle(1) by (auto simp: comp_def)
  let ?r1 = "?r0\<lparr>waiting := [n \<mapsto> ?as], chan := (chan ?r0)(Simtoreal_interest_queue := q)\<rparr>"
  let ?r2 = "?r1\<lparr>r_ibuf_data := ib, chan := (chan ?r1)(Realtosim_data_queue := [(n, v)])\<rparr>"
  have r2: "relay_step ina (Nip_data_in 1 (\<lambda>_. (len, ib)) al') ?r1 = ([], ?r2)"
    using assms(11-13,15) idle(3) by (simp add: push_def Let_def)
  obtain al als' where als: "als = al # als'" "length als' = length aals" using assms(14) by (cases als) auto
  let ?r3 = "?r2\<lparr>chan := (chan ?r2)(Realtosim_data_queue := []),
      to_clients := Some \<lparr>s_packet = (n, v), s_key = n, s_i = 0\<rparr>\<rparr>"
  have r3: "relay_step ina (Udp_data_out al) ?r2 = ([To_udp (hd ?as) (n, v)], ?r3)"
    using idle(2) key by simp
  have "relay_run ina (map Udp_data_out als') ?r3 = (map (\<lambda>a. To_udp a (n, v)) (drop (Suc 0) ?as),
      ?r3\<lparr>waiting := (waiting ?r3)(n := None), to_clients := None\<rparr>)"
    by (rule relay_answers) (use als(2) assms(5) in simp_all)
  then have run: "fst (relay_run ina (interest_events n aals @ ?rest) ?r0) = map (\<lambda>a. To_udp a (n, v)) ?as"
      "waiting (snd (relay_run ina (interest_events n aals @ ?rest) ?r0)) n = None"
    using q r2 r3 als(1) assms(5) by (cases aals; simp add: relay_run_append del: relay_step.simps)+
  have "run_evs ina mal 0 (interest_events n aals @ ?rest) ?r0"
    using run_evs_interests [OF assms(8,4) idle(2), of 0 aals ina] run_evs_answers [of "Suc (length aals)" als ina mal]
      assms(6,9,10,14) by (simp add: run_evs_append interest_events_def del: relay_step.simps)
  moreover have "map ev_allocs (interest_events n aals @ ?rest) = map snd aals @ al' # als"
    by (simp add: interest_events_def comp_def split_beta)
  ultimately obtain out st' c where r: "adaptor_run ina mal (interest_events n aals @ ?rest) st = Some (out, st')"
      "map seen out = fst (relay_run ina (interest_events n aals @ ?rest) ?r0)"
      "refines c st' (snd (relay_run ina (interest_events n aals @ ?rest) ?r0))"
    using boot_run_result [OF assms(1-3) _ _ prod.collapse [symmetric], where evs = "interest_events n aals @ ?rest" and ina = ina and mal = mal]
      assms(16) by auto
  have "nut_abs (nut_table st') n = None" using r(3) run(2) by (simp add: refines_def)
  with r(1,2) run(1) show ?thesis by (simp add: comp_def)
qed

definition sample_answer :: isockbuf where
  "sample_answer = \<lparr>ib_type = TYPE_DATA, ib_name = ''/a/1'', ib_nlen = 4, ib_data = ''data'', ib_dlen = 4,
     ib_flags = D_BLOB, ib_time = 0\<rparr>"

theorem waiting_clients_answered_witness:
  "\<exists>st out st'. init_adaptor sample_init sample_boot = Some st \<and> adaptor_run (\<lambda>_. 0) sample_malloc
     (interest_events ''/a/1'' [(sample_port 1, sample_alloc 0), (sample_port 2, sample_alloc 1)]
       @ Nip_data_in 1 (\<lambda>_. (1, sample_answer)) (sample_alloc 2)
       # map Udp_data_out [sample_alloc 3, sample_alloc 4, sample_alloc 5]) st = Some (out, st')
     \<and> map seen out = [To_udp (sample_port 1) (''/a/1'', ''data''), To_udp (sample_port 2) (''/a/1'', ''data'')]"
proof -
  obtain st where st: "init_adaptor sample_init sample_boot = Some st"
    by (rule sample_start [of "\<lambda>_. 0" sample_malloc])
  let ?aals = "[(sample_port 1, sample_alloc 0), (sample_port 2, sample_alloc 1)]"
  let ?als = "[sample_alloc 3, sample_alloc 4, sample_alloc 5]"
  have "allocs_fresh (init_nodes sample_init) (init_addrs sample_init) (map snd ?aals @ sample_alloc 2 # ?als)"
    using allocs_fresh_boot [of 6] by (simp add: upt_rec eval_nat_numeral)
  moreover have "\<forall>al \<in> set (map snd ?aals @ sample_alloc 2 # ?als). c_node al \<noteq> NULL"
    using sample_alloc_addrs(4) by simp
  moreover have "ibuf_name_ok sample_answer" "ibuf_data_ok sample_answer" "d_type sample_answer \<noteq> D_NACK"
      "ibuf_packet sample_answer = (''/a/1'', ''data'')"
    by (simp_all add: sample_answer_def ibuf_name_ok_def ibuf_data_ok_def d_type_def D_BLOB_def D_NACK_def ibuf_packet_def)
  moreover have "distinct (map (\<lambda>x. endpoint (fst x)) ?aals)" by simp
  ultimately have "\<exists>out st'. adaptor_run (\<lambda>_. 0) sample_malloc
       (interest_events ''/a/1'' ?aals @ Nip_data_in 1 (\<lambda>_. (1, sample_answer)) (sample_alloc 2) # map Udp_data_out ?als) st
       = Some (out, st')
     \<and> map seen out = map (\<lambda>x. To_udp (fst x) (''/a/1'', ''data'')) ?aals \<and> nut_abs (nut_table st') ''/a/1'' = None"
    by (intro waiting_clients_answered [OF sample_init_ok sample_boot st sample_malloc_good]) simp_all
  then show ?thesis using st by auto
qed

section \<open>Where buffers get lost\<close>

text \<open>
  C13. Buffers get lost exactly where packets are dropped: in a run from the initial state in which no
  queue is refused a node, the number of allocated buffers that are in no queue and with no coroutine
  afterwards is the number of interests the name table did not take (repeated or over eight) plus the
  number of data packets nobody waited for.  Every other step gives its buffer back.
\<close>

theorem lost_buffers_are_the_drops:
  assumes "init_ok ia" and "boot st0" and "init_adaptor ia st0 = Some st"
    and "allocs_fresh (init_nodes ia) (init_addrs ia) (map ev_allocs evs)"
    and "run_evs ina mal 0 evs (boot_relay st0)" and "\<forall>ev \<in> set evs. c_node (ev_allocs ev) \<noteq> NULL"
  shows "\<exists>out st' c. adaptor_run ina mal evs st = Some (out, st') \<and> (\<forall>i. lfq_rep (queues st' i) (c i))
     \<and> card (dom (bufs st') - set (queued c @ held st')) = drops_in ina evs (boot_relay st0)"
proof -
  note boot = boot_run [OF assms(1-5)]
  obtain out st' c where r: "adaptor_run ina mal evs st = Some (out, st')" "adaptor_ok c st'"
      "loses (drops_in ina evs (boot_relay st0)) (init_contents ia) st c st'"
    using adaptor_run_loses [OF boot(1,2) assms(6)] by blast
  then obtain L where "length L = drops_in ina evs (boot_relay st0)" "distinct L" "leaked c st' = set L"
    using boot(3) unfolding loses_def by auto
  then have "card (leaked c st') = drops_in ina evs (boot_relay st0)" by (simp add: distinct_card)
  moreover have "leaked c st' = dom (bufs st') - set (queued c @ held st')" by (simp add: leaked_def owned_def)
  ultimately show ?thesis using r(1) adaptor_okD(1) [OF r(2)] by metis
qed

text \<open>The same interest twice: the second costs a buffer.\<close>

abbreviation repeated_interest :: "event list" where
  "repeated_interest \<equiv> [Udp_interest_in (dgram ''/a/1'' []) (sample_port 1) (sample_alloc 0),
     Udp_interest_in (dgram ''/a/1'' []) (sample_port 1) (sample_alloc 1)]"

theorem lost_buffers_are_the_drops_witness:
  "\<exists>st out st' c. init_adaptor sample_init sample_boot = Some st
     \<and> adaptor_run (\<lambda>_. 0) sample_malloc repeated_interest st = Some (out, st')
     \<and> (\<forall>i. lfq_rep (queues st' i) (c i)) \<and> card (dom (bufs st') - set (queued c @ held st')) = 1"
proof -
  obtain st where st: "init_adaptor sample_init sample_boot = Some st"
    by (rule sample_start [of "\<lambda>_. 0" sample_malloc])
  note dg = dgram_facts [of "''/a/1''" "[]", simplified]
  have nodes: "c_node (sample_alloc 0) \<noteq> NULL" "c_node (sample_alloc (Suc 0)) \<noteq> NULL"
    using sample_alloc_addrs(4) by simp_all
  have fresh: "allocs_fresh (init_nodes sample_init) (init_addrs sample_init) (map ev_allocs repeated_interest)"
    using allocs_fresh_boot [of 2] by (simp add: upt_rec eval_nat_numeral)
  have drops: "drops_in (\<lambda>_. 0) repeated_interest (boot_relay sample_boot) = 1"
    using dg nodes by (simp add: boot_relay_def idle_relay_def register_def push_def name_key_def)
  have evs: "run_evs (\<lambda>_. 0) sample_malloc 0 repeated_interest (boot_relay sample_boot)"
    using dg nodes sample_malloc_good
    by (simp add: boot_relay_def idle_relay_def register_def push_def name_key_def)
  have "\<forall>ev \<in> set repeated_interest. c_node (ev_allocs ev) \<noteq> NULL" using nodes by simp
  from lost_buffers_are_the_drops [OF sample_init_ok sample_boot st fresh evs this] drops st show ?thesis
    by (auto simp del: drops_in.simps)
qed

section \<open>Start\<close>

text \<open>
  \<open>init_adaptor\<close>, given its memory, makes an adaptor with empty packet queues, an empty name table
  of 32 entries, no suspended coroutine and a free list of the sixteen buffers of its block in order.
\<close>

lemma init_adaptor_ready:
  assumes "init_ok ia" and "boot st"
  shows "\<exists>st'. init_adaptor ia st = Some st'
     \<and> (\<forall>i. lfq_rep (queues st' i) (if i = Freebuf_list then map (block_addr (i_freeblock ia)) [0..<16] else []))
     \<and> dom (bufs st') = set (map (block_addr (i_freeblock ia)) [0..<16]) \<and> distinct (map (block_addr (i_freeblock ia)) [0..<16])
     \<and> nut_abs (nut_table st') = (\<lambda>_. None) \<and> unat (table_cap (nut_table st')) = 32 \<and> held st' = []"
proof -
  have dist: "distinct (map (block_addr (i_freeblock ia)) [0..<16])"
    using assms(1) by (intro block_addr_inj) (simp add: init_ok_def)
  have init: "(if i = Freebuf_list then map (block_addr (i_freeblock ia)) [0..<16] else []) = init_contents ia i" for i
    by (simp add: init_contents_def del: upt_rec_numeral)
  have "map (block_addr (i_freeblock ia)) [0..<16] = init_contents ia Freebuf_list" by (simp add: init_contents_def)
  moreover obtain st' where "init_adaptor ia st = Some st'" "adaptor_ok (init_contents ia) st'"
      "nut_abs (nut_table st') = (\<lambda>_. None)" "unat (table_cap (nut_table st')) = 32" "held st' = []"
      "dom (bufs st') = set (init_contents ia Freebuf_list)"
    using init_adaptor_ok [OF assms] by blast
  moreover note adaptor_okD(1) [OF this(2)]
  ultimately show ?thesis unfolding init using dist by (intro exI [of _ st']) (simp only: simp_thms)
qed

lemma init_adaptor_ready_witness:
  "\<exists>st'. init_adaptor sample_init sample_boot = Some st' \<and> unat (table_cap (nut_table st')) = 32
     \<and> lfq_rep (queues st' Freebuf_list) (map (block_addr 65536) [0..<16])"
proof -
  obtain st' where "init_adaptor sample_init sample_boot = Some st'" "unat (table_cap (nut_table st')) = 32"
      "\<forall>i. lfq_rep (queues st' i)
         (if i = Freebuf_list then map (block_addr (i_freeblock sample_init)) [0..<16] else [])"
    using init_adaptor_ready [OF sample_init_ok sample_boot] by blast
  moreover from this(3) [rule_format, of Freebuf_list]
  have "lfq_rep (queues st' Freebuf_list) (map (block_addr 65536) [0..<16])"
    by (simp add: sample_init_def del: upt_rec_numeral)
  ultimately show ?thesis by blast
qed

section \<open>What the adaptor does not check\<close>

text \<open>
  C39. \<open>udp_data_in\<close> receives up to 4096 bytes and copies them into a buffer of 2048: a datagram that is
  longer than the buffer is a write out of bounds, whatever the state.
\<close>

theorem long_datagrams_overflow:
  assumes "adaptor_ok c st" and "allocs_fit al st" and "2048 < length dg" and "length dg \<le> 4096"
  shows "udp_data_in dg al st = None"
proof -
  obtain p st1 where g: "get_freebuf al st = Some (p, st1)" "got c st p st1"
    using get_freebuf_ok [OF assms(1,2)] by blast
  obtain d where d: "bufs st1 p = Some d" "nd_ok d" using gotD(7) [OF g(2)] by blast
  have "nd_memcpy d dg = None" using assms(3) nd_memcpy_eq [OF d(2)] by simp
  then show ?thesis using g d assms(3) by (auto simp: udp_data_in_def)
qed


lemma sample_allocs_fit:
  obtains st where "init_adaptor sample_init sample_boot = Some st"
    "refines (init_contents sample_init) st (idle_relay zero_ibuf zero_ibuf)" "allocs_fit (sample_alloc 0) st"
    "within (init_nodes sample_init) (init_addrs sample_init) st"
proof -
  obtain st where st: "init_adaptor sample_init sample_boot = Some st"
      "refines (init_contents sample_init) st (idle_relay zero_ibuf zero_ibuf)"
      "within (init_nodes sample_init) (init_addrs sample_init) st"
    by (rule sample_start [of "\<lambda>_. 0" sample_malloc])
  have "allocs_fit (sample_alloc 0) st"
    using ev_env_ok(1) [OF st(2,3), of 0 "Udp_data_out (sample_alloc 0)" sample_malloc] allocs_fresh_boot [of 1]
      init_refines [OF sample_init_ok sample_boot] st(1) by auto
  with st show ?thesis by (intro that)
qed

theorem long_datagrams_overflow_witness:
  "\<exists>st. init_adaptor sample_init sample_boot = Some st
     \<and> udp_data_in (replicate 2049 CHR 0x00) (sample_alloc 0) st = None"
proof -
  obtain st where st: "init_adaptor sample_init sample_boot = Some st"
      "refines (init_contents sample_init) st (idle_relay zero_ibuf zero_ibuf)" "allocs_fit (sample_alloc 0) st"
    by (rule sample_allocs_fit)
  with long_datagrams_overflow [of "init_contents sample_init" st "sample_alloc 0" "replicate 2049 CHR 0x00"]
  show ?thesis by (auto simp: refines_def)
qed




text \<open>
  \<open>nip_data_in\<close> copies a name of up to 1024 bytes and a content of up to 2048 bytes, both as the
  socket call delivers them, one after the other into the 2040 bytes of a buffer: when they do not fit
  together, and the packet is not a NACK, the second copy is a write out of bounds.
\<close>

lemma long_data_overflows:
  assumes "adaptor_ok c st" and "allocs_fit al st" and "0 < wait" and "irecv_data irecv st = (len, ib)" and "0 < len"
    and "ibuf_name_ok ib" and "d_type ib \<noteq> D_NACK" and "unat (ib_dlen ib) \<le> 2048"
    and "2040 < unat (ib_nlen ib) + unat (ib_dlen ib)"
  shows "nip_data_in wait irecv al st = None"
proof -
  let ?st = "st\<lparr>ibuf_nip_data_in := ib\<rparr>"
  have ok: "adaptor_ok c ?st" "allocs_fit al ?st"
    using assms(1,2) by (simp_all add: adaptor_ok_ibuf allocs_fit_def)
  obtain p st1 where g: "get_freebuf al ?st = Some (p, st1)" "got c ?st p st1"
    using get_freebuf_ok [OF ok] by blast
  obtain d where d: "bufs st1 p = Some d" "nd_ok d" using gotD(7) [OF g(2)] by blast
  have u: "unat (ucast (ib_nlen ib) :: u32) = unat (ib_nlen ib)" "unat (ucast (ib_dlen ib) :: u32) = unat (ib_dlen ib)"
    using unat_ucast_16_32 assms(8) by (auto intro!: unat_ucast_64_32)
  have "uint (ucast (ib_nlen ib) :: u32) + uint (ucast (ib_dlen ib) :: u32) = int (unat (ib_nlen ib) + unat (ib_dlen ib))"
    by (simp only: uint_nat u of_nat_add)
  then have "\<not> uint (ucast (ib_nlen ib) :: u32) + uint (ucast (ib_dlen ib) :: u32) \<le> 2040"
    using assms(9) by linarith
  then have "amemcpy b (uint (ucast (ib_nlen ib) :: u32)) (ib_data ib) (uint (ucast (ib_dlen ib) :: u32)) = None"
    if "length b = 2040" for b
    unfolding amemcpy_def that by (intro if_not_P) simp
  moreover have "length b = 2040" if "amemcpy (nd_buf d) 0 (ib_name ib) m = Some b" for b m
    using amemcpy_length [OF that] d(2) by (simp add: nd_ok_def)
  ultimately show ?thesis
    using g(1) d(1) assms(3,4,5,7)
    by (auto simp: nip_data_in_def irecv_data_def Let_def bind_eq_None_conv)
qed

definition long_answer :: isockbuf where
  "long_answer = \<lparr>ib_type = TYPE_DATA, ib_name = replicate 10 CHR 0x41, ib_nlen = 10,
     ib_data = replicate 2048 CHR 0x42, ib_dlen = 2048, ib_flags = D_BLOB, ib_time = 0\<rparr>"

lemma long_data_overflows_witness:
  "\<exists>st. init_adaptor sample_init sample_boot = Some st
     \<and> nip_data_in 1 (\<lambda>_. (1, long_answer)) (sample_alloc 0) st = None"
proof -
  obtain st where st: "init_adaptor sample_init sample_boot = Some st"
      "refines (init_contents sample_init) st (idle_relay zero_ibuf zero_ibuf)" "allocs_fit (sample_alloc 0) st"
    by (rule sample_allocs_fit)
  have "nip_data_in 1 (\<lambda>_. (1, long_answer)) (sample_alloc 0) st = None"
    by (rule long_data_overflows [of "init_contents sample_init" _ _ _ _ 1 long_answer])
       (use st(2,3) in \<open>simp_all add: refines_def irecv_data_def long_answer_def ibuf_name_ok_def d_type_def D_BLOB_def D_NACK_def\<close>)
  with st(1) show ?thesis by blast
qed

text \<open>
  C29. \<open>udp_data_out\<close> keeps a pointer to the table entry while it waits for its packets to be sent.  When
  all entries of the table are in use and a client asks for a new name in the meantime, \<open>nut_set\<close> moves
  the table and frees the old array: the interest is accepted, and \<open>udp_data_out\<close>, when it is resumed,
  reads freed memory.
\<close>

theorem table_growth_breaks_sending:
  assumes "adaptor_ok c st" and "allocs_fit al st" and "at_udp_data_out st = Some sd" and "malloc_good mal"
    and "dgram_wf dg" and "nut_abs (nut_table st) (name_key (fst (packet_of (nd_of_bytes dg)))) = None"
    and "entry_num (nut_table st) = table_cap (nut_table st)" and "unat (entry_num (nut_table st)) < 2 ^ 30"
    and "\<forall>e \<in> set (used (nut_table st)). deleted e \<noteq> 1"
  shows "\<exists>st'. udp_interest_in mal dg a al st = Some ([], st')
     \<and> at_udp_data_out st' = Some sd \<and> udp_data_out al' st' = None"
proof -
  obtain p st1 where g: "get_freebuf al st = Some (p, st1)" "got c st p st1"
    using get_freebuf_ok [OF assms(1,2)] by blast
  obtain d0 where d0: "bufs st1 p = Some d0" "nd_ok d0" using gotD(7) [OF g(2)] by blast
  define d where "d = nd_of_bytes (dg @ drop (length dg) (nd_bytes d0))"
  note dg = dgram_packet [OF assms(5) d0(2), folded d_def]
  have mem: "nd_memcpy d0 dg = Some d" using nd_memcpy_eq [OF d0(2)] dg(4) d_def by simp
  let ?t = "nut_table st" and ?nl = "sint (nd_nlen d)"
  have inv: "nut_inv ?t" by (rule adaptor_okD(5) [OF assms(1)])
  have key: "nut_abs ?t (dgram_key d) = None"
    using key_of_packet [OF dg(5) packet_wf_fits [OF dg(2)]] assms(6) dg(1) by simp
  note nm = name_fits_ok [OF dg(5) packet_wf_fits [OF dg(2)]]
  have none: "idx_of is_deleted (used ?t) = None" using assms(9) by (simp add: idx_of_None_iff)
  obtain t' where t': "nut_set mal (nd_buf d) ?nl a ?t = Some (1, t')"
    using nut_set_append [OF inv nm key none _ _ assms(8), of mal a] assms(4) by (auto simp: malloc_good_def)
  have "int (length (used ?t)) = sint (table_cap ?t)" by (simp only: inv_facts(1,2,4) [OF inv] assms(7))
  then have grows: "nut_set_grows (nd_buf d) ?nl a ?t"
    using nut_set_loop_absent [OF inv nm key, of a] none by (simp add: nut_set_grows_def)
  let ?st2 = "(put_buf p d st1)\<lparr>nut_table := t', nut_array := nut_array st + 1\<rparr>"
  have reps: "\<forall>i. lfq_rep (queues ?st2 i) (take_free c i)"
    using adaptor_okD(1) [OF gotD(6) [OF g(2)]] by (simp add: put_buf_def)
  have fr: "c_node al = NULL \<or> lfq_fresh (c_node al) (queues ?st2 Simtoreal_interest_queue)"
    using g(2) allocs_fit_free [OF assms(2), of Simtoreal_interest_queue] by (auto simp: got_def put_buf_def)
  have "\<exists>q. enq Simtoreal_interest_queue (c_node al) p ?st2 = Some (?st2\<lparr>queues := q\<rparr>)"
  proof (cases "c_node al = NULL")
    case True
    then show ?thesis by (intro exI [of _ "queues ?st2"]) (simp add: enq_no_node)
  next
    case False
    with fr have "lfq_fresh (c_node al) (queues ?st2 Simtoreal_interest_queue)" by blast
    from enq_node [OF reps False this, of p] show ?thesis by blast
  qed
  then obtain q where q: "enq Simtoreal_interest_queue (c_node al) p ?st2 = Some (?st2\<lparr>queues := q\<rparr>)" by blast
  have run: "udp_interest_in mal dg a al st = Some ([], ?st2\<lparr>queues := q\<rparr>)"
    using g(1) d0(1) mem t' grows q assms(5) gotD(2,3) [OF g(2)]
    by (auto simp: udp_interest_in_def Let_def dgram_wf_def)
  have at: "at_udp_data_out (?st2\<lparr>queues := q\<rparr>) = Some sd"
    using gotD(1) [OF g(2)] assms(3) by (simp add: same_at_def put_buf_def)
  have "sd_array sd = nut_array st" using adaptor_okD(6) [OF assms(1)] assms(3) by (simp add: sending_ok_def)
  then have "entry_at sd (?st2\<lparr>queues := q\<rparr>) = None" by (simp add: entry_at_def)
  then have "udp_data_out al' (?st2\<lparr>queues := q\<rparr>) = None" using at by (simp add: udp_data_out_def)
  with run at show ?thesis by blast
qed

text \<open>A table of one entry, in use, while its data is being sent.\<close>

definition full_entry :: nut_entry where
  "full_entry = sample_entry\<lparr>name_len := 1, addr_num := 1, e_name := CHR 0x62 # replicate 1023 CHR 0x00\<rparr>"

definition full_table :: nut where
  "full_table = \<lparr>table_cap = 1, entry_num = 1, entries = [full_entry]\<rparr>"

lemma full_table_facts:
  "nut_inv full_table" "used full_table = [full_entry]" "nut_abs full_table ''/a/1'' = None"
proof -
  show used: "used full_table = [full_entry]" by (simp add: used_def full_table_def)
  have key: "e_key full_entry = ''b''" "length (e_addrs full_entry) = 1"
    by (simp_all add: e_key_def e_addrs_def full_entry_def sample_entry_def)
  have "length xs = 1 \<Longrightarrow> distinct (map endpoint xs)" for xs by (cases xs) auto
  with key(2) have ok: "entry_ok full_entry" by (simp add: entry_ok_def full_entry_def sample_entry_def)
  have typed: "entry_typed full_entry" by (simp add: entry_typed_def full_entry_def sample_entry_def)
  show "nut_inv full_table"
    using used ok typed by (simp add: nut_inv_def keys_distinct_def) (simp add: full_table_def)
  show "nut_abs full_table ''/a/1'' = None"
    using used key(1) by (simp add: nut_abs_def look_def live_at_def)
qed

theorem table_growth_breaks_sending_witness:
  "\<exists>st st' sd. at_udp_data_out st = Some sd \<and> nut_table st = full_table
     \<and> udp_interest_in sample_malloc (dgram ''/a/1'' []) (sample_port 1) (sample_alloc 0) st = Some ([], st')
     \<and> udp_data_out (sample_alloc 1) st' = None"
proof -
  obtain s where s: "refines (init_contents sample_init) s (idle_relay zero_ibuf zero_ibuf)" "allocs_fit (sample_alloc 0) s"
      "within (init_nodes sample_init) (init_addrs sample_init) s"
    by (rule sample_allocs_fit)
  let ?sd = "\<lparr>sd_data = 300000, sd_entry = 0, sd_array = nut_array s, sd_i = 0\<rparr>"
  let ?s1 = "put_buf 300000 zero_buffer s"
  let ?st = "?s1\<lparr>nut_table := full_table, at_udp_data_out := Some ?sd\<rparr>"
  let ?c = "init_contents sample_init"
  have ok: "adaptor_ok ?c s" and idle: "relay_of ?c s = idle_relay zero_ibuf zero_ibuf"
    using s(1) by (simp_all add: refines_def)
  have "(300000 :: addr) \<notin> init_addrs sample_init" using sample_addrs(2) by force
  then have new: "bufs s 300000 = None" using s(3) unfolding within_def by blast
  then have out: "300000 \<notin># owned ?c s" using adaptor_okD(3) [OF ok, of 300000] by auto
  have ok1: "adaptor_ok ?c ?s1"
    by (rule adaptor_ok_put [OF ok out]) (simp_all add: nd_ok_def zero_buffer_def)
  have none: "at_udp_data_out s = None"
    using arg_cong [OF idle, of to_clients] by (simp add: idle_relay_def)
  then have own: "owned ?c ?st = add_mset 300000 (owned ?c s)"
    by (simp add: owned_def held_def put_buf_def)
  have "sending_ok ?st"
    using full_table_facts(2)
    by (simp add: sending_ok_def put_buf_def) (simp add: full_entry_def sample_entry_def e_addrs_def)
  then have st: "adaptor_ok ?c ?st"
    using ok1 out own full_table_facts(1)
    by (auto simp: adaptor_ok_def bufs_ok_def not_in_iff) (auto simp: put_buf_def)
  have al: "allocs_fit (sample_alloc 0) ?st"
    using s(2) by (auto simp: allocs_fit_def put_buf_def sample_alloc_def)
  have room: "entry_num full_table = table_cap full_table" "unat (entry_num full_table) < 2 ^ 30"
      "\<forall>e \<in> set (used full_table). deleted e \<noteq> 1"
    using full_table_facts(2) by (simp_all add: full_table_def full_entry_def sample_entry_def)
  have "nut_abs full_table (name_key (fst (packet_of (nd_of_bytes (dgram ''/a/1'' []))))) = None"
    using dgram_facts(2) [of "''/a/1''" "[]"] full_table_facts(3) by (simp add: name_key_def)
  with table_growth_breaks_sending [OF st al _ sample_malloc_good, of ?sd "dgram ''/a/1'' []" "sample_port 1" "sample_alloc 1"]
    dgram_facts(3) [of "''/a/1''" "[]"] room
  obtain st' where "udp_interest_in sample_malloc (dgram ''/a/1'' []) (sample_port 1) (sample_alloc 0) ?st = Some ([], st')"
      "udp_data_out (sample_alloc 1) st' = None" by auto
  then show ?thesis by (intro exI [of _ ?st] exI [of _ st'] exI [of _ ?sd]) simp
qed

section \<open>Packets on the wire\<close>

text \<open>
  A buffer sent as the 2048 bytes of its memory and copied by \<open>memcpy\<close> into any buffer of another
  process of the same byte order arrives unchanged, lengths, name and content.
\<close>

lemma buffers_survive_the_wire:
  assumes "nd_ok d" and "nd_ok d0"
  shows "length (nd_bytes d) = sizeof_simple_name_data \<and> nd_memcpy d0 (nd_bytes d) = Some d"
  using length_nd_bytes [OF assms(1)] length_nd_bytes [OF assms(2)] nd_memcpy_eq [OF assms(2), of "nd_bytes d"]
  by (simp add: sizeof_simple_name_data_def)

lemma buffers_survive_the_wire_witness:
  "nd_memcpy zero_buffer (nd_bytes (zero_buffer\<lparr>nd_nlen := 0x01020304\<rparr>)) = Some (zero_buffer\<lparr>nd_nlen := 0x01020304\<rparr>)"
  using buffers_survive_the_wire [of "zero_buffer\<lparr>nd_nlen := 0x01020304\<rparr>" zero_buffer]
  by (simp add: nd_ok_def zero_buffer_def)

end
