(* ===== verification/C_Strings.thy ===== *)
theory C_Strings
  imports Mixsim_Prelude
begin

text \<open>
  What the programs use of the C library's strings: strings ended by a zero byte, \<open>atoi\<close>, printing of
  decimal numbers, and copies out of an array.
\<close>

section \<open>Definitions\<close>

text \<open>The C string at the start of an array; without a zero byte in it reading it leaves the array.\<close>

definition cstr :: "char list \<Rightarrow> char list option" where
  "cstr cs = (if CHR 0x00 \<in> set cs then Some (takeWhile (\<lambda>c. c \<noteq> CHR 0x00) cs) else None)"

definition is_digit :: "char \<Rightarrow> bool" where
  "is_digit c \<longleftrightarrow> 48 \<le> (of_char c :: nat) \<and> (of_char c :: nat) \<le> 57"

definition is_space :: "char \<Rightarrow> bool" where
  "is_space c \<longleftrightarrow> (of_char c :: nat) = 32 \<or> 9 \<le> (of_char c :: nat) \<and> (of_char c :: nat) \<le> 13"

fun digits_value :: "char list \<Rightarrow> int \<Rightarrow> int" where
  "digits_value [] acc = acc"
| "digits_value (c # cs) acc =
     (if is_digit c then digits_value cs (10 * acc + (of_char c - 48)) else acc)"

text \<open>\<open>atoi\<close>; the code calls it with at most nine characters, so its result is in range.\<close>

definition atoi :: "char list \<Rightarrow> int" where
  "atoi cs =
     (case dropWhile is_space cs of
        [] \<Rightarrow> 0
      | c # r \<Rightarrow> if c = CHR ''-'' then - digits_value r 0
                else if c = CHR ''+'' then digits_value r 0 else digits_value (c # r) 0)"

text \<open>What \<open>%u\<close> prints.\<close>

fun decimal :: "nat \<Rightarrow> char list" where
  "decimal n = (if n < 10 then [char_of (48 + n)] else decimal (n div 10) @ [char_of (48 + n mod 10)])"

declare decimal.simps [simp del]

text \<open>What \<open>%d\<close> prints.\<close>

definition signed_decimal :: "int \<Rightarrow> char list" where
  "signed_decimal i = (if i < 0 then CHR ''-'' # decimal (nat (- i)) else decimal (nat i))"

definition aslice :: "'a list \<Rightarrow> int \<Rightarrow> int \<Rightarrow> 'a list option" where
  "aslice a off n =
     (if 0 \<le> off \<and> 0 \<le> n \<and> off + n \<le> int (length a) then Some (take (nat n) (drop (nat off) a)) else None)"

text \<open>A process that ends itself.\<close>

datatype exit_code = Exit int

section \<open>Decimal numbers\<close>

lemma of_digit: "m < (10 :: nat) \<Longrightarrow> (of_char (char_of (48 + m) :: char) :: nat) = 48 + m"
  by (simp add: of_char_of)

lemma digit_cases: "m < (10 :: nat) \<Longrightarrow> is_digit (char_of (48 + m))"
  by (simp add: is_digit_def of_digit)

lemma decimal_digits: "\<forall>c \<in> set (decimal n). is_digit c"
proof (induction n rule: decimal.induct)
  case (1 n)
  then show ?case by (subst decimal.simps) (auto simp: digit_cases)
qed

lemma decimal_nonempty [simp]: "decimal n \<noteq> []"
  by (subst decimal.simps) simp

lemma int_of_digit: "m < (10 :: nat) \<Longrightarrow> (of_char (char_of (48 + m) :: char) :: int) = 48 + int m"
  using of_digit [of m] by (metis of_nat_add of_nat_numeral of_nat_of_char)

lemma digits_value_decimal: "digits_value (decimal n @ rest) 0 = digits_value rest (int n)"
proof (induction n arbitrary: rest rule: decimal.induct)
  case (1 n)
  show ?case
  proof (cases "n < 10")
    case True
    then show ?thesis by (subst decimal.simps) (simp add: digit_cases int_of_digit)
  next
    case False
    have "10 * int (n div 10) + int (n mod 10) = int n"
      by (metis mult_div_mod_eq of_nat_add of_nat_mult of_nat_numeral)
    with False show ?thesis
      using 1 [of "char_of (48 + n mod 10) # rest"]
      by (subst decimal.simps) (simp add: digit_cases int_of_digit)
  qed
qed

lemma digit_not_special: "is_digit c \<Longrightarrow> \<not> is_space c \<and> c \<noteq> CHR ''-'' \<and> c \<noteq> CHR ''+'' \<and> c \<noteq> CHR ''/'' \<and> c \<noteq> CHR 0x00"
  by (auto simp: is_digit_def is_space_def)

lemma atoi_decimal: "atoi (decimal n) = int n"
proof -
  obtain c r where c: "decimal n = c # r" by (cases "decimal n") simp_all
  then have "is_digit c" using decimal_digits [of n] by simp
  with c digit_not_special [of c] digits_value_decimal [of n "[]"] show ?thesis by (simp add: atoi_def)
qed

lemma length_decimal_le: "n < 10 ^ k \<Longrightarrow> 0 < k \<Longrightarrow> length (decimal n) \<le> k"
proof (induction k arbitrary: n)
  case 0
  then show ?case by simp
next
  case (Suc k)
  show ?case
  proof (cases "n < 10")
    case True
    then show ?thesis by (subst decimal.simps) simp
  next
    case False
    then have "0 < k" using Suc.prems(1) by (cases k) auto
    moreover have "n div 10 < 10 ^ k" using Suc.prems(1) by (simp add: less_mult_imp_div_less mult.commute)
    ultimately show ?thesis using Suc.IH [of "n div 10"] False by (subst decimal.simps) simp
  qed
qed

lemma length_decimal_gt: "10 ^ k \<le> n \<Longrightarrow> k < length (decimal n)"
proof (induction k arbitrary: n)
  case 0
  then show ?case by simp
next
  case (Suc k)
  then have "10 ^ k \<le> n div 10" by (simp add: div_le_mono [of "10 * 10 ^ k" n 10, simplified])
  moreover have "\<not> n < 10"
    using Suc.prems by (metis le_trans linorder_not_le mult_le_mono1 nat_mult_1_right one_le_numeral one_le_power power_Suc mult.commute)
  ultimately show ?case using Suc.IH [of "n div 10"] by (subst decimal.simps) simp
qed

section \<open>Strings and copies\<close>

lemma cstr_end: "CHR 0x00 \<notin> set s \<Longrightarrow> cstr (s @ CHR 0x00 # r) = Some s"
  by (simp add: cstr_def takeWhile_append)

lemma aslice_mid: "aslice (xs @ ys @ zs) (int (length xs)) (int (length ys)) = Some ys"
  by (simp add: aslice_def)

end
