(* ===== verification/App_Mixsim.thy ===== *)
theory App_Mixsim
  imports Adaptor C_Strings
begin

text \<open>
  The simulator's side: the ndnSIM application \<open>AppMixSim\<close> of \<open>ndn-app-mixsim.cpp\<close>, which turns packets of
  the simulated network into datagrams for the adaptor and back, and keeps the simulated clock behind
  the real one.

  ndnSIM, ndn-cxx and the sockets are not part of the repository.  A name of theirs is shown by its parts
  the code works with: the URI of all but the last component, and the last component as a sequence
  number.  A packet handed to the simulator is a value of \<open>app_out\<close>.
\<close>

section \<open>State and packets\<close>

record app =
  m_prefixes :: "char list"
  m_interest_lport :: int
  m_data_lport :: int
  m_interest_udpfd :: int
  m_data_udpfd :: int
  m_interest_rport :: int
  m_data_rport :: int
  m_raip :: "char list"
  m_interest_raddr :: sockaddr_in
  m_data_raddr :: sockaddr_in
  m_start_sec :: int
  m_start_usec :: int
  m_totalticks :: u64
  m_case1ticks :: u64
  m_case2ticks :: u64
  m_signature :: u32
  m_keyLocator :: "char list"

text \<open>
  Packets for the simulator carry the URI their name was made from and the sequence number appended to it;
  then nonce, flag and lifetime in milliseconds for an interest, freshness in milliseconds, content and
  whether a key locator is set for data.  A datagram goes from a descriptor to an endpoint.
\<close>

datatype app_out =
    Ndn_interest "char list" u32 u32 bool int
  | Ndn_data "char list" u32 int "char list" bool
  | Ndn_nack "char list" u32
  | Udp_send int sockaddr_in "char list"

section \<open>From the adaptor to the simulator\<close>

function find_slash :: "char list \<Rightarrow> int \<Rightarrow> int option" where
  "find_slash buf idx =
     do { c \<leftarrow> aread buf idx; if c \<noteq> CHR ''/'' then find_slash buf (idx - 1) else Some idx }"
  by pat_completeness auto
termination
  by (relation "measure (\<lambda>(buf, idx). nat (idx + 1))") (auto simp: aread_def split: if_splits)

declare find_slash.simps [simp del]

text \<open>
  The name and the number behind its last slash, through \<open>namebuf[2048]\<close> and \<open>seqbuf[10]\<close>.  What the two
  arrays hold before is not read: both strings are ended explicitly.
\<close>

definition split_name :: "simple_name_data \<Rightarrow> (char list \<times> u32) option" where
  "split_name d = do {
     idx \<leftarrow> find_slash (nd_buf d) (sint (nd_nlen d - 1));
     namebuf \<leftarrow> amemcpy (replicate 2048 CHR 0x00) 0 (nd_buf d) idx;
     namebuf \<leftarrow> awrite namebuf idx CHR 0x00;
     let idx = idx + 1;
     let n = uint (nd_nlen d - word_of_int idx);
     seqbuf \<leftarrow> amemcpy (replicate 10 CHR 0x00) 0 (drop (nat idx) (nd_buf d)) n;
     seqbuf \<leftarrow> awrite seqbuf n CHR 0x00;
     seq \<leftarrow> cstr seqbuf;
     nm \<leftarrow> cstr namebuf;
     Some (nm, word_of_int (atoi seq))
   }"

definition SendNDNInterest :: "u32 \<Rightarrow> simple_name_data \<Rightarrow> app_out option" where
  "SendNDNInterest nonce interest = do {
     (iname, iseq) \<leftarrow> split_name interest;
     Some (Ndn_interest iname iseq nonce False 2000)
   }"

text \<open>The key locator goes into \<open>signatureInfo\<close> after the packet has got its copy of it.\<close>

definition SendNDNData :: "simple_name_data \<Rightarrow> app_out option" where
  "SendNDNData data = do {
     (dname, dseq) \<leftarrow> split_name data;
     content \<leftarrow> aslice (nd_buf data) (uint (nd_nlen data)) (uint (nd_dlen data));
     Some (Ndn_data dname dseq 1000 content False)
   }"

definition SendNDNNack :: "simple_name_data \<Rightarrow> app_out option" where
  "SendNDNNack nack = do {
     (nname, nseq) \<leftarrow> split_name nack;
     Some (Ndn_nack nname nseq)
   }"

section \<open>From the simulator to the adaptor\<close>

text \<open>
  \<open>snprintf(buf, 1024, "%s/%u", name, seq)\<close> writes at most 1023 characters and a zero byte and returns how
  long the whole string is.  \<open>junk\<close> is the content of the local structure before.
\<close>

definition print_name :: "char list \<Rightarrow> u32 \<Rightarrow> simple_name_data \<Rightarrow> simple_name_data" where
  "print_name nm seq junk =
     (let s = nm @ ''/'' @ decimal (unat seq); t = take 1023 s @ [CHR 0x00]
      in junk\<lparr>nd_nlen := word_of_nat (length s), nd_buf := t @ drop (length t) (nd_buf junk)\<rparr>)"

definition SendUDPInterest :: "app \<Rightarrow> char list \<Rightarrow> u64 \<Rightarrow> simple_name_data \<Rightarrow> app_out" where
  "SendUDPInterest st nm seqno junk =
     (let namedata = (print_name nm (ucast seqno) junk)\<lparr>nd_dlen := 0\<rparr>
      in Udp_send (m_data_udpfd st) (m_interest_raddr st) (nd_bytes namedata))"

definition SendUDPData :: "app \<Rightarrow> char list \<Rightarrow> u64 \<Rightarrow> char list \<Rightarrow> simple_name_data \<Rightarrow> app_out option" where
  "SendUDPData st nm seqno content junk = do {
     let namedata = print_name nm (ucast seqno) junk;
     let namedata = namedata\<lparr>nd_dlen := word_of_nat (length content)\<rparr>;
     b \<leftarrow> amemcpy (nd_buf namedata) (uint (nd_nlen namedata)) content (uint (nd_dlen namedata));
     Some (Udp_send (m_interest_udpfd st) (m_data_raddr st) (nd_bytes (namedata\<lparr>nd_buf := b\<rparr>)))
   }"

definition SendUDPNack :: "app \<Rightarrow> char list \<Rightarrow> u64 \<Rightarrow> simple_name_data \<Rightarrow> app_out" where
  "SendUDPNack st nm seqno junk =
     (let namedata = (print_name nm (ucast seqno) junk)\<lparr>nd_dlen := 0\<rparr>
      in Udp_send (m_interest_udpfd st) (m_data_raddr st) (nd_bytes namedata))"

text \<open>The callbacks of the simulator hand every packet on.\<close>

definition OnData :: "char list \<Rightarrow> u64 \<Rightarrow> char list \<Rightarrow> simple_name_data \<Rightarrow> app \<Rightarrow> app_out option" where
  "OnData nm seqno content junk st = SendUDPData st nm seqno content junk"

definition OnInterest :: "char list \<Rightarrow> u64 \<Rightarrow> simple_name_data \<Rightarrow> app \<Rightarrow> app_out" where
  "OnInterest nm seqno junk st = SendUDPInterest st nm seqno junk"

definition OnNack :: "char list \<Rightarrow> u64 \<Rightarrow> simple_name_data \<Rightarrow> app \<Rightarrow> app_out" where
  "OnNack nm seqno junk st = SendUDPNack st nm seqno junk"

section \<open>The clock\<close>

text \<open>
  Microseconds of the real clock since the start, minus the simulator's time \<open>vtime\<close>, in 64-bit signed integers: an
  operation whose result has no place in them is undefined.
\<close>

definition i64 :: "int \<Rightarrow> int option" where
  "i64 x = (if - (2 ^ 63) \<le> x \<and> x < 2 ^ 63 then Some x else None)"

definition AnalyzeTimeDiff :: "int \<Rightarrow> int \<Rightarrow> int \<Rightarrow> app \<Rightarrow> int option" where
  "AnalyzeTimeDiff vtime sec usec st = do {
     secs \<leftarrow> i64 (sec - m_start_sec st);
     usecs \<leftarrow> i64 (secs * 1000000);
     rest \<leftarrow> i64 (usec - m_start_usec st);
     ptime \<leftarrow> i64 (usecs + rest);
     i64 (ptime - vtime)
   }"

text \<open>A non-blocking receive of up to 2048 bytes into \<open>recv_buf\<close>; no datagram is the empty one.\<close>

definition recv_into :: "char list \<Rightarrow> char list \<Rightarrow> char list" where
  "recv_into dg recv_buf = take 2048 dg @ drop (length (take 2048 dg)) recv_buf"

text \<open>
  One tick: an interest and a data packet from the adaptor if there are any, then the next tick is
  scheduled, \<open>delay\<close> microseconds of simulated time later.
\<close>

definition ScheduleNextTick ::
  "char list \<Rightarrow> char list \<Rightarrow> char list \<Rightarrow> u32 \<Rightarrow> int \<Rightarrow> int \<Rightarrow> int \<Rightarrow> app \<Rightarrow> (app_out list \<times> int \<times> app) option" where
  "ScheduleNextTick recv_buf idg ddg nonce vtime sec usec st = do {
     let st = st\<lparr>m_totalticks := m_totalticks st + 1\<rparr>;
     let recv_buf = recv_into idg recv_buf;
     out1 \<leftarrow> (if idg \<noteq> []
              then map_option (\<lambda>p. [p]) (SendNDNInterest nonce (nd_of_bytes recv_buf)) else Some []);
     let recv_buf = recv_into ddg recv_buf;
     out2 \<leftarrow> (if ddg \<noteq> [] then map_option (\<lambda>p. [p]) (SendNDNData (nd_of_bytes recv_buf)) else Some []);
     timeDiff \<leftarrow> AnalyzeTimeDiff vtime sec usec st;
     Some (if timeDiff \<le> 0
           then (out1 @ out2, 0, st\<lparr>m_case1ticks := m_case1ticks st + 1\<rparr>)
           else (out1 @ out2, timeDiff, st\<lparr>m_case2ticks := m_case2ticks st + 1\<rparr>))
   }"

section \<open>Start\<close>

text \<open>The loop of \<open>registerFib\<close>: the routes it adds from position \<open>idx\<close> on, the current prefix beginning at \<open>lst\<close>.\<close>

function registerFib_loop :: "char list \<Rightarrow> nat \<Rightarrow> nat \<Rightarrow> char list list" where
  "registerFib_loop buf idx lst =
     (if idx < length buf
      then if buf ! idx = CHR ''$''
           then take (idx - lst) (drop lst buf) # registerFib_loop buf (idx + 1) (idx + 1)
           else registerFib_loop buf (idx + 1) lst
      else [take (length buf - lst) (drop lst buf)])"
  by pat_completeness auto
termination
  by (relation "measure (\<lambda>(buf, idx, lst). length buf - idx)") auto

declare registerFib_loop.simps [simp del]

definition registerFib :: "app \<Rightarrow> char list list" where
  "registerFib st = (if m_prefixes st = [] then [] else registerFib_loop (m_prefixes st) 0 0)"

text \<open>
  The constructor and the start end the process with \<open>exit(1)\<close> when a socket cannot be had.
  \<open>setnonblocking\<close> gives the flags it sets, if it gets as far as that.  \<open>StartApplication\<close> gives the routes it
  registers and the state in which it makes the first tick.
\<close>

definition setnonblocking :: "(int \<Rightarrow> int) \<Rightarrow> int \<Rightarrow> int option" where
  "setnonblocking getfl sockfd = (let flag = getfl sockfd in if flag < 0 then None else Some (or flag 0x800))"

definition AppMixSim :: "(nat \<Rightarrow> int) \<Rightarrow> (int \<Rightarrow> int) \<Rightarrow> app \<Rightarrow> exit_code + (int option \<times> int option \<times> app)" where
  "AppMixSim sock getfl attrs =
     (if sock 0 < 0 then Inl (Exit 1)
      else let nb1 = setnonblocking getfl (sock 0)
           in if sock 1 < 0 then Inl (Exit 1)
              else Inr (nb1, setnonblocking getfl (sock 1),
                attrs\<lparr>m_interest_udpfd := sock 0, m_data_udpfd := sock 1,
                      m_totalticks := 0, m_case1ticks := 0, m_case2ticks := 0\<rparr>))"

definition StartApplication ::
  "(char list \<Rightarrow> u32) \<Rightarrow> (int \<Rightarrow> sockaddr_in \<Rightarrow> int) \<Rightarrow> int \<Rightarrow> int \<Rightarrow> app \<Rightarrow> exit_code + (char list list \<times> app)" where
  "StartApplication inet_addr bind_sock sec usec st =
     (let st = st\<lparr>m_interest_raddr := \<lparr>sin_family = 2, sin_port = htons (word_of_int (m_interest_rport st)),
                                       sin_addr = inet_addr (m_raip st)\<rparr>\<rparr>;
          st = st\<lparr>m_data_raddr := \<lparr>sin_family = 2, sin_port = htons (word_of_int (m_data_rport st)),
                                   sin_addr = inet_addr (m_raip st)\<rparr>\<rparr>
      in if bind_sock (m_interest_udpfd st)
              \<lparr>sin_family = 2, sin_port = htons (word_of_int (m_interest_lport st)), sin_addr = 0\<rparr> < 0
         then Inl (Exit 1)
         else if bind_sock (m_data_udpfd st)
              \<lparr>sin_family = 2, sin_port = htons (word_of_int (m_data_lport st)), sin_addr = 0\<rparr> < 0
         then Inl (Exit 1)
         else let st = st\<lparr>m_start_sec := sec, m_start_usec := usec\<rparr> in Inr (registerFib st, st))"

text \<open>What \<open>StopApplication\<close> prints; the next tick stays scheduled.\<close>

definition StopApplication :: "app \<Rightarrow> char list" where
  "StopApplication st =
     ''total ticks='' @ decimal (unat (m_totalticks st)) @ '', case1='' @ decimal (unat (m_case1ticks st))
       @ '', case2='' @ decimal (unat (m_case2ticks st)) @ [CHR 0x0A]"

end
