(* ===== verification/App_Props.thy ===== *)
theory App_Props
  imports App_Mixsim Relay
begin

text \<open>
  The properties of the simulator's application: names and numbers survive the way through the
  datagrams, up to the size of a buffer that is too small for ten digits; the forwarding prefixes are
  the parts between the dollar signs; the simulated clock follows the real one.
\<close>

section \<open>Splitting a name\<close>

lemma find_slash_back:
  assumes "k \<le> length ds" "CHR ''/'' \<notin> set ds"
  shows "find_slash (nm @ CHR ''/'' # ds @ rest) (int (length nm + k)) = Some (int (length nm))"
  using assms(1)
proof (induction k)
  case 0
  show ?case by (subst find_slash.simps) (simp add: aread_def nth_append)
next
  case (Suc k)
  have "aread (nm @ CHR ''/'' # ds @ rest) (int (length nm + Suc k)) = Some (ds ! k)"
    using Suc.prems by (simp add: aread_def nth_append nat_add_distrib)
  moreover have "ds ! k \<noteq> CHR ''/''" using Suc.prems assms(2) by (metis Suc_le_lessD nth_mem)
  moreover have "int (length nm + Suc k) - 1 = int (length nm + k)" by simp
  ultimately show ?case using Suc by (subst find_slash.simps) simp
qed

text \<open>A buffer whose first \<open>nlen\<close> bytes are a name, a slash and \<open>ds\<close>.\<close>

definition named :: "simple_name_data \<Rightarrow> char list \<Rightarrow> char list \<Rightarrow> bool" where
  "named d nm ds \<longleftrightarrow> length nm + 1 + length ds \<le> 2040 \<and> length (nd_buf d) = 2040
     \<and> nd_nlen d = word_of_nat (length nm + 1 + length ds)
     \<and> (\<exists>rest. nd_buf d = nm @ CHR ''/'' # ds @ rest)
     \<and> CHR 0x00 \<notin> set nm \<and> CHR ''/'' \<notin> set ds \<and> CHR 0x00 \<notin> set ds \<and> ds \<noteq> []"

lemma small_word:
  assumes "n \<le> 2040"
  shows "unat (word_of_nat n :: u32) = n" "uint (word_of_nat n :: u32) = int n" "sint (word_of_nat n :: u32) = int n"
proof -
  show 1: "unat (word_of_nat n :: u32) = n" using assms by (intro unat_of_nat_small) simp
  then show "uint (word_of_nat n :: u32) = int n" by (simp only: uint_nat)
  show "sint (word_of_nat n :: u32) = int n" using sint_small [of "word_of_nat n"] 1 assms by (simp only: 1) simp
qed

lemma named_lengths:
  assumes "named d nm ds"
  shows "sint (nd_nlen d - 1) = int (length nm + length ds)"
    "uint (nd_nlen d - (word_of_nat (length nm) + 1)) = int (length ds)" "unat (nd_nlen d) = length nm + 1 + length ds"
proof -
  let ?n = "length nm + 1 + length ds"
  have le: "?n \<le> 2040" and nl: "nd_nlen d = word_of_nat ?n" using assms by (auto simp: named_def)
  have 1: "nd_nlen d - 1 = word_of_nat (length nm + length ds)" unfolding nl by simp
  show "sint (nd_nlen d - 1) = int (length nm + length ds)"
    unfolding 1 by (rule small_word(3)) (use le in simp)
  have 2: "nd_nlen d - (word_of_nat (length nm) + 1) = word_of_nat (length ds)" unfolding nl by simp
  show "uint (nd_nlen d - (word_of_nat (length nm) + 1)) = int (length ds)"
    unfolding 2 by (rule small_word(2)) (use le in simp)
  show "unat (nd_nlen d) = ?n" unfolding nl by (rule small_word(1) [OF le])
qed

lemma split_named:
  assumes "named d nm ds"
  shows "split_name d = (if length ds \<le> 9 then Some (nm, word_of_int (atoi ds)) else None)"
proof -
  obtain rest where buf: "nd_buf d = nm @ CHR ''/'' # ds @ rest" using assms by (auto simp: named_def)
  have le: "length nm + 1 + length ds \<le> 2040" and nul: "CHR 0x00 \<notin> set nm" "CHR 0x00 \<notin> set ds" "CHR ''/'' \<notin> set ds"
    using assms by (auto simp: named_def)
  note l = named_lengths [OF assms]
  have idx: "find_slash (nd_buf d) (sint (nd_nlen d - 1)) = Some (int (length nm))"
    unfolding l(1) buf using nul(3) by (intro find_slash_back) simp_all
  have copy: "amemcpy (replicate 2048 CHR 0x00) 0 (nd_buf d) (int (length nm)) = Some (nm @ replicate (2048 - length nm) CHR 0x00)"
    using le amemcpy_in [of "length nm" "nd_buf d" "replicate 2048 CHR 0x00"] by (simp add: buf)
  obtain m where m: "2048 - length nm = Suc m" using le by (cases "2048 - length nm") auto
  have name: "awrite (nm @ replicate (2048 - length nm) CHR 0x00) (int (length nm)) CHR 0x00 =
      Some (nm @ CHR 0x00 # replicate m CHR 0x00)"
    unfolding m by (simp add: awrite_def list_update_append)
  have drop: "drop (nat (int (length nm) + 1)) (nd_buf d) = ds @ rest"
    by (simp add: buf nat_add_distrib)
  show ?thesis
  proof (cases "length ds \<le> 10")
    case False
    then have "amemcpy (replicate 10 CHR 0x00) 0 (ds @ rest) (int (length ds)) = None"
      by (simp add: amemcpy_def)
    then show ?thesis using False by (simp add: split_name_def idx copy name drop l(2) Let_def)
  next
    case True
    have copy2: "amemcpy (replicate 10 CHR 0x00) 0 (ds @ rest) (int (length ds)) =
        Some (ds @ replicate (10 - length ds) CHR 0x00)"
      using True amemcpy_in [of "length ds" "ds @ rest" "replicate 10 CHR 0x00"] by simp
    show ?thesis
    proof (cases "length ds = 10")
      case ten: True
      have "awrite (ds @ replicate (10 - length ds) CHR 0x00) (int (length ds)) CHR 0x00 = None"
        using ten by (simp add: awrite_def)
      then show ?thesis using ten copy2 by (simp add: split_name_def idx copy name drop l(2) Let_def)
    next
      case False
      then obtain j where j: "10 - length ds = Suc j" using True by (cases "10 - length ds") auto
      have "awrite (ds @ replicate (10 - length ds) CHR 0x00) (int (length ds)) CHR 0x00 =
          Some (ds @ CHR 0x00 # replicate j CHR 0x00)"
        unfolding j by (simp add: awrite_def list_update_append)
      then show ?thesis
        using False True copy2 cstr_end [OF nul(1)] cstr_end [OF nul(2)]
        by (simp add: split_name_def idx copy name drop l(2) Let_def)
    qed
  qed
qed

section \<open>Names and numbers through a datagram\<close>

abbreviation uri :: "char list \<Rightarrow> u32 \<Rightarrow> char list" where
  "uri nm seq \<equiv> nm @ ''/'' @ decimal (unat seq)"

lemma print_name_eq:
  assumes "length (uri nm seq) \<le> 1023"
  shows "print_name nm seq junk = junk\<lparr>nd_nlen := word_of_nat (length (uri nm seq)),
     nd_buf := uri nm seq @ CHR 0x00 # drop (Suc (length (uri nm seq))) (nd_buf junk)\<rparr>"
  using assms by (simp add: print_name_def Let_def)

lemma uri_digits: "CHR ''/'' \<notin> set (decimal n)" "CHR 0x00 \<notin> set (decimal n)"
  using decimal_digits [of n] digit_not_special by blast+

lemma print_name_named:
  assumes "length (uri nm seq) \<le> 1023" "CHR 0x00 \<notin> set nm" "nd_ok junk"
    "nd_nlen d = nd_nlen (print_name nm seq junk)" "length (nd_buf d) = 2040"
    "take (length (uri nm seq)) (nd_buf d) = uri nm seq"
  shows "named d nm (decimal (unat seq))"
proof -
  have "nd_buf d = uri nm seq @ drop (length (uri nm seq)) (nd_buf d)"
    using assms(6) append_take_drop_id [of "length (uri nm seq)" "nd_buf d"] by simp
  then have "\<exists>rest. nd_buf d = nm @ CHR ''/'' # decimal (unat seq) @ rest" by auto
  moreover have "nd_nlen d = word_of_nat (length nm + 1 + length (decimal (unat seq)))"
    unfolding assms(4) print_name_eq [OF assms(1)] by simp
  ultimately show ?thesis using assms(1,2,5) uri_digits unfolding named_def by auto
qed

lemma udp_interest_dgram:
  assumes "length (uri nm seq) \<le> 1023" "CHR 0x00 \<notin> set nm" "nd_ok junk"
  defines "d \<equiv> (print_name nm seq junk)\<lparr>nd_dlen := 0\<rparr>"
  shows "named d nm (decimal (unat seq))" "dgram_wf (nd_bytes d)" "packet_of d = (uri nm seq, [])"
proof -
  let ?n = "length (uri nm seq)"
  have d: "nd_buf d = uri nm seq @ CHR 0x00 # drop (Suc ?n) (nd_buf junk)" "nd_nlen d = word_of_nat ?n" "nd_dlen d = 0"
    using print_name_eq [OF assms(1)] by (simp_all add: d_def)
  have len: "length (nd_buf d) = 2040" using assms(1,3) d(1) by (simp add: nd_ok_def)
  show n: "named d nm (decimal (unat seq))"
    by (rule print_name_named [OF assms(1-3)]) (use d len in \<open>simp_all add: d_def\<close>)
  have nl: "unat (nd_nlen d) = ?n" using named_lengths(3) [OF n] by simp
  show "packet_of d = (uri nm seq, [])" using nl d by (simp add: packet_of_def)
  show "dgram_wf (nd_bytes d)"
    using length_nd_bytes [of d] len nl d(3) assms(1) by (simp add: dgram_wf_def nd_ok_def)
qed

lemma udp_data_dgram:
  assumes "length (uri nm seq) \<le> 1023" "CHR 0x00 \<notin> set nm" "nd_ok junk"
    "length (uri nm seq) + length content \<le> 2040"
  shows "\<exists>b. amemcpy (nd_buf (print_name nm seq junk)) (uint (nd_nlen (print_name nm seq junk))) content
       (uint (word_of_nat (length content) :: u32)) = Some b
     \<and> (let d = (print_name nm seq junk)\<lparr>nd_dlen := word_of_nat (length content), nd_buf := b\<rparr>
        in named d nm (decimal (unat seq)) \<and> dgram_wf (nd_bytes d) \<and> packet_of d = (uri nm seq, content)
         \<and> aslice (nd_buf d) (uint (nd_nlen d)) (uint (nd_dlen d)) = Some content)"
proof -
  let ?n = "length (uri nm seq)" and ?p = "print_name nm seq junk"
  let ?b = "uri nm seq @ content @ drop (?n + length content) (nd_buf ?p)"
  let ?d = "?p\<lparr>nd_dlen := word_of_nat (length content), nd_buf := ?b\<rparr>"
  have p: "nd_buf ?p = uri nm seq @ CHR 0x00 # drop (Suc ?n) (nd_buf junk)" "nd_nlen ?p = word_of_nat ?n"
    unfolding print_name_eq [OF assms(1)] by simp_all
  have plen: "length (nd_buf ?p) = 2040" using assms(1,3) p(1) by (simp add: nd_ok_def)
  have nu: "uint (nd_nlen ?p) = int ?n" unfolding p(2) by (rule small_word(2)) (use assms(1) in simp)
  have cu: "uint (word_of_nat (length content) :: u32) = int (length content)" "unat (word_of_nat (length content) :: u32) = length content"
    by (rule small_word; use assms(4) in simp)+
  have take: "take ?n (nd_buf ?p) = uri nm seq" unfolding p(1) by simp
  have copy: "amemcpy (nd_buf ?p) (uint (nd_nlen ?p)) content (uint (word_of_nat (length content) :: u32)) = Some ?b"
    unfolding nu cu amemcpy_def using plen assms(4) take by (simp add: nat_add_distrib)
  have len: "length (nd_buf ?d) = 2040" using plen assms(4) by simp
  have named: "named ?d nm (decimal (unat seq))"
    by (rule print_name_named [OF assms(1-3)]) (use len in simp_all)
  have nl: "unat (nd_nlen ?d) = ?n" using named_lengths(3) [OF named] by simp
  have "packet_of ?d = (uri nm seq, content)" using nl cu(2) by (simp add: packet_of_def)
  moreover have "dgram_wf (nd_bytes ?d)"
    using length_nd_bytes [of ?d] len nl cu(2) assms(4) by (simp add: dgram_wf_def nd_ok_def)
  moreover have "aslice (nd_buf ?d) (uint (nd_nlen ?d)) (uint (nd_dlen ?d)) = Some content"
  proof -
    have sel: "nd_buf ?d = ?b" "nd_nlen ?d = nd_nlen ?p" "nd_dlen ?d = word_of_nat (length content)" by simp_all
    show ?thesis unfolding sel nu cu(1) by (rule aslice_mid)
  qed
  ultimately show ?thesis using copy named by (intro exI [of _ ?b]) (simp add: Let_def)
qed

text \<open>
  C16. The simulator's packets survive the datagrams: the interest, or the data, that the application sends
  for a name without a zero byte and a sequence number below 10^9, when they fit, is a well-formed
  packet for the adaptor with the name \<open>name/number\<close>, and when the application receives the same datagram
  it makes the packet with the same name, number and content again.
\<close>

theorem packets_survive_the_datagrams:
  assumes "CHR 0x00 \<notin> set nm" and "unat (ucast seqno :: u32) < 10 ^ 9" and "length nm \<le> 1013" and "nd_ok junk"
    and "length nm + length content \<le> 2030"
  shows "\<exists>dg dg'. SendUDPInterest st nm seqno junk = Udp_send (m_data_udpfd st) (m_interest_raddr st) dg
     \<and> dgram_wf dg \<and> packet_of (nd_of_bytes dg) = (uri nm (ucast seqno), [])
     \<and> SendNDNInterest nonce (nd_of_bytes dg) = Some (Ndn_interest nm (ucast seqno) nonce False 2000)
     \<and> SendUDPData st nm seqno content junk = Some (Udp_send (m_interest_udpfd st) (m_data_raddr st) dg')
     \<and> dgram_wf dg' \<and> packet_of (nd_of_bytes dg') = (uri nm (ucast seqno), content)
     \<and> SendNDNData (nd_of_bytes dg') = Some (Ndn_data nm (ucast seqno) 1000 content False)"
proof -
  let ?seq = "ucast seqno :: u32"
  have digits: "length (decimal (unat ?seq)) \<le> 9" using length_decimal_le [OF assms(2)] by simp
  have fits: "length (uri nm ?seq) \<le> 1023" "length (uri nm ?seq) + length content \<le> 2040"
    using assms(3,5) digits by simp_all
  have val: "word_of_int (atoi (decimal (unat ?seq))) = ?seq" by (simp add: atoi_decimal)
  let ?d = "(print_name nm ?seq junk)\<lparr>nd_dlen := 0\<rparr>"
  note i = udp_interest_dgram [OF fits(1) assms(1,4)]
  obtain b where b: "amemcpy (nd_buf (print_name nm ?seq junk)) (uint (nd_nlen (print_name nm ?seq junk))) content
       (uint (word_of_nat (length content) :: u32)) = Some b"
    and w: "let d = (print_name nm ?seq junk)\<lparr>nd_dlen := word_of_nat (length content), nd_buf := b\<rparr>
        in named d nm (decimal (unat ?seq)) \<and> dgram_wf (nd_bytes d) \<and> packet_of d = (uri nm ?seq, content)
         \<and> aslice (nd_buf d) (uint (nd_nlen d)) (uint (nd_dlen d)) = Some content"
    using udp_data_dgram [OF fits(1) assms(1,4) fits(2)] by blast
  define d' where "d' = (print_name nm ?seq junk)\<lparr>nd_dlen := word_of_nat (length content), nd_buf := b\<rparr>"
  have w': "named d' nm (decimal (unat ?seq))" "dgram_wf (nd_bytes d')" "packet_of d' = (uri nm ?seq, content)"
      "aslice (nd_buf d') (uint (nd_nlen d')) (uint (nd_dlen d')) = Some content"
    using w by (simp_all add: Let_def d'_def)
  have "SendUDPData st nm seqno content junk = Some (Udp_send (m_interest_udpfd st) (m_data_raddr st) (nd_bytes d'))"
    using b by (simp add: SendUDPData_def Let_def d'_def)
  moreover have "SendNDNInterest nonce ?d = Some (Ndn_interest nm ?seq nonce False 2000)"
    using split_named [OF i(1)] digits val by (simp add: SendNDNInterest_def)
  moreover have "SendNDNData d' = Some (Ndn_data nm ?seq 1000 content False)"
    using split_named [OF w'(1)] digits val w'(4) by (simp add: SendNDNData_def)
  moreover have "SendUDPInterest st nm seqno junk = Udp_send (m_data_udpfd st) (m_interest_raddr st) (nd_bytes ?d)"
    by (simp add: SendUDPInterest_def Let_def)
  ultimately show ?thesis
    using i(2,3) w'(2,3) by (intro exI [of _ "nd_bytes ?d"] exI [of _ "nd_bytes d'"]) simp
qed

definition sample_app :: app where
  "sample_app = \<lparr>m_prefixes = ''/a$/b/c$'', m_interest_lport = 8787, m_data_lport = 8788, m_interest_udpfd = 3,
     m_data_udpfd = 4, m_interest_rport = 8798, m_data_rport = 8797, m_raip = ''127.0.0.1'',
     m_interest_raddr = \<lparr>sin_family = 2, sin_port = 1, sin_addr = 0\<rparr>,
     m_data_raddr = \<lparr>sin_family = 2, sin_port = 2, sin_addr = 0\<rparr>, m_start_sec = 100, m_start_usec = 500000,
     m_totalticks = 0, m_case1ticks = 0, m_case2ticks = 0, m_signature = 0, m_keyLocator = []\<rparr>"

definition sample_junk :: simple_name_data where
  "sample_junk = \<lparr>nd_nlen = 77, nd_dlen = 78, nd_buf = replicate 2040 CHR ''x''\<rparr>"

lemma sample_junk_ok: "nd_ok sample_junk"
  by (simp add: nd_ok_def sample_junk_def)

theorem packets_survive_the_datagrams_witness:
  "\<exists>dg. SendUDPInterest sample_app ''/mixsim/real/time'' 42 sample_junk =
       Udp_send 4 (m_interest_raddr sample_app) dg
     \<and> SendNDNInterest 7 (nd_of_bytes dg) = Some (Ndn_interest ''/mixsim/real/time'' 42 7 False 2000)"
proof -
  have "CHR 0x00 \<notin> set ''/mixsim/real/time''" "unat (ucast (42 :: u64) :: u32) < 10 ^ 9"
      "length ''/mixsim/real/time'' \<le> 1013" "length ''/mixsim/real/time'' + length [] \<le> 2030"
    by simp_all
  from packets_survive_the_datagrams [OF this(1-3) sample_junk_ok this(4), of sample_app 7]
  show ?thesis by (auto simp: sample_app_def)
qed

text \<open>
  C38. The buffer for the number, \<open>seqbuf[10]\<close>, has no room for the zero byte behind ten digits: the interest
  the application itself sends for a sequence number of 10^9 or more makes \<open>SendNDNInterest\<close>, \<open>SendNDNData\<close>
  and \<open>SendNDNNack\<close> write out of bounds when it comes back.
\<close>

theorem ten_digits_overflow:
  assumes "CHR 0x00 \<notin> set nm" and "10 ^ 9 \<le> unat (ucast seqno :: u32)" and "length nm \<le> 1012" and "nd_ok junk"
  shows "\<exists>dg. SendUDPInterest st nm seqno junk = Udp_send (m_data_udpfd st) (m_interest_raddr st) dg \<and> dgram_wf dg
     \<and> SendNDNInterest nonce (nd_of_bytes dg) = None \<and> SendNDNData (nd_of_bytes dg) = None
     \<and> SendNDNNack (nd_of_bytes dg) = None"
proof -
  let ?seq = "ucast seqno :: u32" and ?d = "(print_name nm (ucast seqno) junk)\<lparr>nd_dlen := 0\<rparr>"
  have "unat ?seq < 10 ^ 10" using unsigned_less [of ?seq, where 'a = nat] by simp
  from length_decimal_le [OF this] have "length (uri nm ?seq) \<le> 1023" using assms(3) by simp
  note i = udp_interest_dgram [OF this assms(1,4)]
  have "9 < length (decimal (unat ?seq))" by (rule length_decimal_gt [OF assms(2)])
  then have "split_name ?d = None" using split_named [OF i(1)] by simp
  with i(2) show ?thesis
    by (intro exI [of _ "nd_bytes ?d"])
       (simp add: SendUDPInterest_def SendNDNInterest_def SendNDNData_def SendNDNNack_def Let_def)
qed

theorem ten_digits_overflow_witness:
  "\<exists>dg. SendUDPInterest sample_app ''/a'' 1000000000 sample_junk = Udp_send 4 (m_interest_raddr sample_app) dg
     \<and> SendNDNInterest 7 (nd_of_bytes dg) = None"
proof -
  have "CHR 0x00 \<notin> set ''/a''" "10 ^ 9 \<le> unat (ucast (1000000000 :: u64) :: u32)" "length ''/a'' \<le> 1012" by simp_all
  from ten_digits_overflow [OF this sample_junk_ok, of sample_app 7] show ?thesis by (auto simp: sample_app_def)
qed

section \<open>Forwarding prefixes\<close>

fun split_on :: "'a \<Rightarrow> 'a list \<Rightarrow> 'a list list" where
  "split_on c [] = [[]]"
| "split_on c (x # xs) =
     (if x = c then [] # split_on c xs else (x # hd (split_on c xs)) # tl (split_on c xs))"

fun join_with :: "'a \<Rightarrow> 'a list list \<Rightarrow> 'a list" where
  "join_with c [] = []"
| "join_with c [p] = p"
| "join_with c (p # ps) = p @ c # join_with c ps"

lemma split_on_nonempty [simp]: "split_on c xs \<noteq> []"
  by (cases xs) auto

lemma join_split: "join_with c (split_on c xs) = xs"
proof (induction xs)
  case Nil
  then show ?case by simp
next
  case (Cons x xs)
  obtain p ps where "split_on c xs = p # ps" by (cases "split_on c xs") simp_all
  with Cons show ?case by (cases ps) auto
qed

lemma split_on_parts: "\<forall>p \<in> set (split_on c xs). c \<notin> set p"
proof (induction xs)
  case Nil
  then show ?case by simp
next
  case (Cons x xs)
  obtain p ps where "split_on c xs = p # ps" by (cases "split_on c xs") simp_all
  with Cons show ?case by auto
qed

lemma registerFib_loop_split:
  assumes "lst \<le> idx" "idx \<le> length buf"
  shows "registerFib_loop buf idx lst =
     (take (idx - lst) (drop lst buf) @ hd (split_on CHR ''$'' (drop idx buf))) # tl (split_on CHR ''$'' (drop idx buf))"
  using assms
proof (induction buf idx lst rule: registerFib_loop.induct)
  case (1 buf idx lst)
  show ?case
  proof (cases "idx < length buf")
    case True
    have d: "drop idx buf = buf ! idx # drop (Suc idx) buf" using True by (simp add: Cons_nth_drop_Suc)
    show ?thesis
    proof (cases "buf ! idx = CHR ''$''")
      case dollar: True
      have "registerFib_loop buf (idx + 1) (idx + 1) = split_on CHR ''$'' (drop (Suc idx) buf)"
        using 1(1) [OF True dollar] True by simp
      with True dollar d show ?thesis by (subst registerFib_loop.simps) simp
    next
      case False
      have "take (Suc idx - lst) (drop lst buf) = take (idx - lst) (drop lst buf) @ [buf ! idx]"
        using 1(3) True take_Suc_conv_app_nth [of "idx - lst" "drop lst buf"] by (simp add: Suc_diff_le)
      with True False d 1(2) [OF True False] 1(3) show ?thesis by (subst registerFib_loop.simps) simp
    qed
  next
    case False
    then show ?thesis using 1(3,4) by (subst registerFib_loop.simps) simp
  qed
qed

text \<open>
  C30. \<open>registerFib\<close> registers exactly the parts between the dollar signs, in order, empty parts included:
  it is the usual splitting of a list, no route holds a dollar sign, and the routes joined with dollar
  signs are the attribute again; nothing is registered for an empty attribute.
\<close>

theorem registerFib_splits:
  "registerFib st = (if m_prefixes st = [] then [] else split_on CHR ''$'' (m_prefixes st))
   \<and> join_with CHR ''$'' (registerFib st) = m_prefixes st \<and> list_all (\<lambda>p. CHR ''$'' \<notin> set p) (registerFib st)"
proof -
  have "registerFib st = (if m_prefixes st = [] then [] else split_on CHR ''$'' (m_prefixes st))"
    using registerFib_loop_split [of 0 0 "m_prefixes st"] by (simp add: registerFib_def)
  then show ?thesis by (simp add: list_all_iff join_split split_on_parts)
qed

section \<open>The clock\<close>

text \<open>What a tick finds: the receive buffer before, the datagrams, a nonce, the real time.\<close>

record tick_env =
  t_buf :: "char list"
  t_interest :: "char list"
  t_data :: "char list"
  t_nonce :: u32
  t_sec :: int
  t_usec :: int

fun run_ticks :: "tick_env list \<Rightarrow> int \<Rightarrow> app \<Rightarrow> (app_out list \<times> int \<times> app) option" where
  "run_ticks [] vtime st = Some ([], vtime, st)"
| "run_ticks (e # es) vtime st = do {
     (out, delay, st) \<leftarrow> ScheduleNextTick (t_buf e) (t_interest e) (t_data e) (t_nonce e) vtime (t_sec e) (t_usec e) st;
     (outs, vtime, st) \<leftarrow> run_ticks es (vtime + delay) st;
     Some (out @ outs, vtime, st)
   }"

definition real_time :: "app \<Rightarrow> tick_env \<Rightarrow> int" where
  "real_time st e = (t_sec e - m_start_sec st) * 1000000 + (t_usec e - m_start_usec st)"

definition same_start :: "app \<Rightarrow> app \<Rightarrow> bool" where
  "same_start st st' \<longleftrightarrow> m_start_sec st' = m_start_sec st \<and> m_start_usec st' = m_start_usec st"

text \<open>
  Times within which the arithmetic of \<open>AnalyzeTimeDiff\<close> stays in 64 bits: the seconds of the real clock within 2^41 of
  the epoch, seventy thousand years, the microseconds within a second, the simulated time within 2^62 microseconds.
\<close>

definition started_ok :: "app \<Rightarrow> bool" where
  "started_ok st \<longleftrightarrow> \<bar>m_start_sec st\<bar> \<le> 2 ^ 41 \<and> \<bar>m_start_usec st\<bar> \<le> 1000000"

definition clock_ok :: "int \<Rightarrow> int \<Rightarrow> bool" where
  "clock_ok sec usec \<longleftrightarrow> \<bar>sec\<bar> \<le> 2 ^ 41 \<and> \<bar>usec\<bar> \<le> 1000000"

definition times_ok :: "int \<Rightarrow> int \<Rightarrow> int \<Rightarrow> app \<Rightarrow> bool" where
  "times_ok vtime sec usec st \<longleftrightarrow> started_ok st \<and> clock_ok sec usec \<and> \<bar>vtime\<bar> \<le> 2 ^ 62"

lemma AnalyzeTimeDiff_Some:
  "AnalyzeTimeDiff vtime sec usec st = Some d \<Longrightarrow>
     d = (sec - m_start_sec st) * 1000000 + (usec - m_start_usec st) - vtime"
  by (auto simp: AnalyzeTimeDiff_def i64_def bind_eq_Some_conv split: if_splits)

lemma AnalyzeTimeDiff_ok:
  assumes "times_ok vtime sec usec st"
  shows "AnalyzeTimeDiff vtime sec usec st =
     Some ((sec - m_start_sec st) * 1000000 + (usec - m_start_usec st) - vtime)"
  using assms by (simp add: AnalyzeTimeDiff_def i64_def times_ok_def started_ok_def clock_ok_def abs_le_iff)

lemma times_ok_ticks [simp]: "times_ok vtime sec usec (st\<lparr>m_totalticks := n\<rparr>) = times_ok vtime sec usec st"
  by (simp add: times_ok_def started_ok_def)

lemma tick:
  assumes "ScheduleNextTick buf idg ddg nonce vtime sec usec st = Some (out, delay, st')"
  shows "vtime + delay = max vtime ((sec - m_start_sec st) * 1000000 + (usec - m_start_usec st))"
    "m_totalticks st' = m_totalticks st + 1"
    "m_case1ticks st' + m_case2ticks st' = m_case1ticks st + m_case2ticks st + 1" "same_start st st'"
    "m_case1ticks st' = m_case1ticks st + 1 \<and> m_case2ticks st' = m_case2ticks st \<or>
     m_case1ticks st' = m_case1ticks st \<and> m_case2ticks st' = m_case2ticks st + 1"
proof -
  let ?st = "st\<lparr>m_totalticks := m_totalticks st + 1\<rparr>"
  obtain o1 o2 t where "AnalyzeTimeDiff vtime sec usec ?st = Some t" "(out, delay, st') = (if t \<le> 0
      then (o1 @ o2, 0, ?st\<lparr>m_case1ticks := m_case1ticks ?st + 1\<rparr>)
      else (o1 @ o2, t, ?st\<lparr>m_case2ticks := m_case2ticks ?st + 1\<rparr>))"
    using assms unfolding ScheduleNextTick_def Let_def bind_eq_Some_conv option.inject by metis
  moreover from AnalyzeTimeDiff_Some [OF this(1)]
  have "t = (sec - m_start_sec st) * 1000000 + (usec - m_start_usec st) - vtime" by simp
  ultimately show "vtime + delay = max vtime ((sec - m_start_sec st) * 1000000 + (usec - m_start_usec st))"
    "m_totalticks st' = m_totalticks st + 1"
    "m_case1ticks st' + m_case2ticks st' = m_case1ticks st + m_case2ticks st + 1" "same_start st st'"
    "m_case1ticks st' = m_case1ticks st + 1 \<and> m_case2ticks st' = m_case2ticks st \<or>
     m_case1ticks st' = m_case1ticks st \<and> m_case2ticks st' = m_case2ticks st + 1"
    by (simp_all add: same_start_def split: if_splits)
qed

text \<open>
  C27. The simulated clock follows the real one: after any number of ticks the simulated time of the next
  tick is the largest of the simulated time of the first and of the real times at the ticks, so it never
  goes back and is behind no real time seen; and every tick is counted once in total and once as one of
  the two cases.
\<close>

theorem clock_follows_real_time:
  assumes "run_ticks es vtime st = Some (out, vtime', st')"
  shows "vtime' = fold (\<lambda>e v. max v (real_time st e)) es vtime
     \<and> m_totalticks st' = m_totalticks st + word_of_nat (length es)
     \<and> m_case1ticks st' + m_case2ticks st' = m_case1ticks st + m_case2ticks st + word_of_nat (length es)"
  using assms
proof (induction es arbitrary: vtime st out)
  case Nil
  then show ?case by simp
next
  case (Cons e es)
  obtain out1 delay st1 outs where t: "ScheduleNextTick (t_buf e) (t_interest e) (t_data e) (t_nonce e) vtime (t_sec e) (t_usec e) st
        = Some (out1, delay, st1)" and r: "run_ticks es (vtime + delay) st1 = Some (outs, vtime', st')"
    using Cons.prems by (auto simp: bind_eq_Some_conv)
  have "real_time st1 = real_time st" using tick(4) [OF t] by (simp add: real_time_def same_start_def fun_eq_iff)
  moreover have "vtime + delay = max vtime (real_time st e)" using tick(1) [OF t] by (simp add: real_time_def)
  ultimately show ?case using Cons.IH [OF r] tick(2,3) [OF t] by simp
qed

theorem clock_follows_real_time_witness:
  "\<exists>st. run_ticks [\<lparr>t_buf = [], t_interest = [], t_data = [], t_nonce = 0, t_sec = 101, t_usec = 0\<rparr>,
       \<lparr>t_buf = [], t_interest = [], t_data = [], t_nonce = 0, t_sec = 100, t_usec = 0\<rparr>] 0 sample_app = Some ([], 500000, st)
     \<and> m_totalticks st = 2"
proof -
  let ?es = "[\<lparr>t_buf = [], t_interest = [], t_data = [], t_nonce = 0, t_sec = 101, t_usec = 0\<rparr>,
       \<lparr>t_buf = [], t_interest = [], t_data = [], t_nonce = 0, t_sec = 100, t_usec = 0\<rparr>]"
  obtain v st where r: "run_ticks ?es 0 sample_app = Some ([], v, st)"
    by (simp add: ScheduleNextTick_def AnalyzeTimeDiff_def i64_def sample_app_def Let_def)
  with clock_follows_real_time [OF r] show ?thesis
    by (simp add: real_time_def sample_app_def)
qed

text \<open>The simulated time stays within its bound.\<close>

lemma tick_keeps_times:
  assumes "ScheduleNextTick buf idg ddg nonce vtime sec usec st = Some (out, delay, st')" "times_ok vtime sec usec st"
  shows "started_ok st'" "\<bar>vtime + delay\<bar> \<le> 2 ^ 62"
  using assms(2) tick(1,4) [OF assms(1)]
  by (auto simp: times_ok_def started_ok_def clock_ok_def same_start_def abs_le_iff max_def)

text \<open>The numbers \<open>StopApplication\<close> prints add up.\<close>

lemma ticks_cases:
  assumes "run_ticks es vtime st = Some (out, vtime', st')"
  shows "\<exists>a b. a + b = length es \<and> m_case1ticks st' = m_case1ticks st + word_of_nat a
     \<and> m_case2ticks st' = m_case2ticks st + word_of_nat b \<and> m_totalticks st' = m_totalticks st + word_of_nat (a + b)"
  using assms
proof (induction es arbitrary: vtime st out)
  case Nil
  then show ?case by (intro exI [of _ 0]) simp
next
  case (Cons e es)
  obtain out1 delay st1 outs where t: "ScheduleNextTick (t_buf e) (t_interest e) (t_data e) (t_nonce e) vtime (t_sec e) (t_usec e) st
        = Some (out1, delay, st1)" and r: "run_ticks es (vtime + delay) st1 = Some (outs, vtime', st')"
    using Cons.prems by (auto simp: bind_eq_Some_conv)
  obtain a b where ab: "a + b = length es" "m_case1ticks st' = m_case1ticks st1 + word_of_nat a"
    "m_case2ticks st' = m_case2ticks st1 + word_of_nat b" "m_totalticks st' = m_totalticks st1 + word_of_nat (a + b)"
    using Cons.IH [OF r] by blast
  from tick(5) [OF t] show ?case
  proof
    assume "m_case1ticks st1 = m_case1ticks st + 1 \<and> m_case2ticks st1 = m_case2ticks st"
    then show ?thesis using ab tick(2) [OF t] by (intro exI [of _ "Suc a"] exI [of _ b]) simp
  next
    assume "m_case1ticks st1 = m_case1ticks st \<and> m_case2ticks st1 = m_case2ticks st + 1"
    then show ?thesis using ab tick(2) [OF t] by (intro exI [of _ a] exI [of _ "Suc b"]) simp
  qed
qed

lemma stop_counts_add_up:
  assumes "run_ticks es vtime st = Some (out, vtime', st')" and "length es < 2 ^ 64"
    and "m_totalticks st = 0" "m_case1ticks st = 0" "m_case2ticks st = 0"
  shows "\<exists>a b. a + b = length es \<and> StopApplication st' =
    ''total ticks='' @ decimal (length es) @ '', case1='' @ decimal a @ '', case2='' @ decimal b @ [CHR 0x0A]"
proof -
  obtain a b where "a + b = length es" "m_case1ticks st' = m_case1ticks st + word_of_nat a"
    "m_case2ticks st' = m_case2ticks st + word_of_nat b" "m_totalticks st' = m_totalticks st + word_of_nat (a + b)"
    using ticks_cases [OF assms(1)] by blast
  then have ab: "a + b = length es" "m_case1ticks st' = word_of_nat a" "m_case2ticks st' = word_of_nat b"
    "m_totalticks st' = word_of_nat (length es)" by (simp_all only: assms(3-5) add_0)
  have "unat (word_of_nat n :: u64) = n" if "n \<le> length es" for n
    using that assms(2) by (simp add: unsigned_of_nat take_bit_nat_eq_self)
  then show ?thesis using ab by (intro exI [of _ a] exI [of _ b]) (simp add: StopApplication_def)
qed

end
