(* ===== verification/Provider.thy ===== *)
theory Provider
  imports C_Strings
begin

text \<open>
  The simulated provider \<open>ProducerVirtual\<close> of \<open>ndn-provider-virtual.cpp\<close>: for each interest it fetches the
  time from the real network and answers with it.

  A name of the simulator is shown by the URI of all but its last component and the last component as
  a sequence number.
\<close>

type_synonym ndn_name = "char list \<times> u64"

record provider =
  p_prefix :: "char list"
  p_postfix :: "char list"
  p_virtualPayloadSize :: u32
  p_active :: bool
  p_freshness :: int
  p_signature :: u32
  p_key_locator :: "char list"
  p_interestName :: ndn_name

text \<open>
  What it hands to the simulator: an interest with nonce, the flag for prefixes and the lifetime in
  milliseconds, a data packet with freshness, content and key locator (empty for none).
\<close>

datatype provider_out =
    P_interest ndn_name u32 bool int
  | P_data ndn_name int "char list" "char list"

definition provider_start :: "provider \<Rightarrow> char list" where
  "provider_start st = p_prefix st"

definition FetchTime :: "u32 \<Rightarrow> u32 \<Rightarrow> provider_out" where
  "FetchTime nonce seq = P_interest (''/mixsim/real/time'', ucast seq) nonce False 1000"

definition provider_OnInterest :: "u32 \<Rightarrow> ndn_name \<Rightarrow> provider \<Rightarrow> provider_out list \<times> provider" where
  "provider_OnInterest nonce n st =
     (if \<not> p_active st then ([], st)
      else ([FetchTime nonce (ucast (snd n))], st\<lparr>p_interestName := n\<rparr>))"

text \<open>The text of the answer; \<open>%.*s\<close> prints the content up to its first zero byte.\<close>

definition answer_text :: "u32 \<Rightarrow> char list \<Rightarrow> char list" where
  "answer_text seq content =
     ''('' @ decimal (unat seq) @ '')['' @ ''I am a provider inside ndnSIM!'' @ '']:[''
       @ takeWhile (\<lambda>c. c \<noteq> CHR 0x00) content @ '']''"

text \<open>
  \<open>snprintf\<close> writes at most 2047 characters and a zero byte into \<open>buf[2048]\<close>, whose content before is \<open>junk\<close>,
  and returns the length of the whole text; the answer is made of that many bytes of \<open>buf\<close>.
\<close>

definition provider_OnData :: "ndn_name \<Rightarrow> char list \<Rightarrow> char list \<Rightarrow> provider \<Rightarrow> provider_out option" where
  "provider_OnData n content junk st = do {
     let t = answer_text (ucast (snd n)) content;
     let s = take 2047 t @ [CHR 0x00];
     let buf = s @ drop (length s) junk;
     c \<leftarrow> aslice buf 0 (int (length t));
     Some (P_data (p_interestName st) (p_freshness st) c (p_key_locator st))
   }"

section \<open>Runs\<close>

datatype provider_event = Interest_arrives u32 ndn_name | Data_arrives ndn_name "char list" "char list"

fun provider_step :: "provider_event \<Rightarrow> provider \<Rightarrow> (provider_out list \<times> provider) option" where
  "provider_step (Interest_arrives nonce n) st = Some (provider_OnInterest nonce n st)"
| "provider_step (Data_arrives n content junk) st = map_option (\<lambda>p. ([p], st)) (provider_OnData n content junk st)"

fun provider_run :: "provider_event list \<Rightarrow> provider \<Rightarrow> (provider_out list \<times> provider) option" where
  "provider_run [] st = Some ([], st)"
| "provider_run (e # es) st = do {
     (out, st) \<leftarrow> provider_step e st;
     (outs, st) \<leftarrow> provider_run es st;
     Some (out @ outs, st)
   }"

lemma provider_run_append:
  "provider_run (es @ fs) s =
     do { (out, s) \<leftarrow> provider_run es s; (outs, s) \<leftarrow> provider_run fs s; Some (out @ outs, s) }"
proof (induction es arbitrary: s)
  case Nil
  show ?case by (cases "provider_run fs s") auto
next
  case (Cons e es)
  show ?case
  proof (cases "provider_step e s")
    case None
    then show ?thesis by simp
  next
    case (Some r)
    obtain out s1 where r: "r = (out, s1)" by fastforce
    show ?thesis
    proof (cases "provider_run es s1")
      case None
      with Some r Cons.IH [of s1] show ?thesis by simp
    next
      case (Some r2)
      obtain out2 s2 where "r2 = (out2, s2)" by fastforce
      with Some \<open>provider_step e s = Some r\<close> r Cons.IH [of s1] show ?thesis
        by (cases "provider_run fs s2") auto
    qed
  qed
qed

text \<open>The name of the last interest so far.\<close>

fun last_interest :: "ndn_name \<Rightarrow> provider_event list \<Rightarrow> ndn_name" where
  "last_interest n [] = n"
| "last_interest n (Interest_arrives nonce n' # es) = last_interest n' es"
| "last_interest n (Data_arrives n' content junk # es) = last_interest n es"

text \<open>A data packet whose answer fits, with a buffer of 2048 bytes.\<close>

fun data_fits :: "provider_event \<Rightarrow> bool" where
  "data_fits (Data_arrives n content junk) \<longleftrightarrow> length (answer_text (ucast (snd n)) content) \<le> 2047 \<and> length junk = 2048"
| "data_fits _ \<longleftrightarrow> True"

lemma OnData_fits:
  assumes "length (answer_text (ucast (snd n)) content) \<le> 2047"
  shows "provider_OnData n content junk st =
     Some (P_data (p_interestName st) (p_freshness st) (answer_text (ucast (snd n)) content) (p_key_locator st))"
  using assms aslice_mid [of "[]" "answer_text (ucast (snd n)) content"] by (simp add: provider_OnData_def Let_def)

lemma provider_run_state:
  assumes "p_active st" "list_all data_fits es"
  shows "\<exists>out. provider_run es st = Some (out, st\<lparr>p_interestName := last_interest (p_interestName st) es\<rparr>)"
  using assms
proof (induction es arbitrary: st)
  case Nil
  then show ?case by simp
next
  case (Cons e es)
  show ?case
  proof (cases e)
    case (Interest_arrives nonce n)
    with Cons.IH [of "st\<lparr>p_interestName := n\<rparr>"] Cons.prems show ?thesis
      by (auto simp: provider_OnInterest_def)
  next
    case (Data_arrives n content junk)
    with Cons.IH [of st] Cons.prems OnData_fits [of n content junk st] show ?thesis by auto
  qed
qed

end
