(* ===== verification/Demo_Servers.thy ===== *)
theory Demo_Servers
  imports Adaptor C_Strings Relay
begin

text \<open>
  The programs on the real network's side: \<open>time_server.c\<close> and \<open>testprovider.c\<close>, which answer interests with
  the time, and \<open>consumer.c\<close>, which asks for one packet.  The named-data socket calls are arguments.  The two
  servers differ in the prefix they bind only.
\<close>

text \<open>
  What one round of a server finds: how \<open>irecv\<close> changes the descriptor and what it returns, what \<open>isend\<close>
  returns, the time, and what the stack holds where the descriptor of the answer is declared.
\<close>

record server_env =
  s_irecv :: "isockbuf \<Rightarrow> int \<times> isockbuf"
  s_isend :: "isockbuf \<Rightarrow> int"
  s_time :: int
  d_junk :: isockbuf

text \<open>\<open>sprintf(content, "current time: %d", time(NULL))\<close>: \<open>%d\<close> takes the low 32 bits.\<close>

definition time_text :: "int \<Rightarrow> char list" where
  "time_text t = ''current time: '' @ signed_decimal (sint (word_of_int t :: u32))"

text \<open>The log line prints name and content with the lengths of the descriptor.\<close>

definition log_reads :: "isockbuf \<Rightarrow> bool" where
  "log_reads ib = (printf_reads_within (uint (ib_nlen ib)) (ib_name ib)
     \<and> printf_reads_within (sint (ucast (ib_dlen ib) :: u32)) (ib_data ib))"

text \<open>
  One round: the descriptor \<open>ibuf\<close> is passed to \<open>irecv\<close> as the last round left it.  The result is the packet
  sent, the descriptor and the counter.  Five members of the packet's descriptor are set; its \<open>d_type\<close> and \<open>d_time\<close> stay
  what they were on the stack.
\<close>

definition serve ::
  "server_env \<Rightarrow> char list \<Rightarrow> isockbuf \<Rightarrow> u32 \<Rightarrow> (exit_code + (isockbuf \<times> isockbuf \<times> u32)) option" where
  "serve env content ibuf cnt =
     (let (ret, ibuf) = s_irecv env ibuf
      in if ret < 0 then Some (Inl (Exit 1))
         else if \<not> log_reads ibuf then None
         else do {
           content \<leftarrow> amemcpy content 0 (time_text (s_time env) @ [CHR 0x00]) (int (length (time_text (s_time env))) + 1);
           let dbuf = (d_junk env)\<lparr>ib_type := TYPE_DATA, ib_nlen := ib_nlen ibuf, ib_name := ib_name ibuf,
                       ib_dlen := word_of_nat (length (time_text (s_time env))), ib_data := content\<rparr>;
           Some (if s_isend env dbuf < 0 then Inl (Exit 1) else Inr (dbuf, ibuf, cnt + 1))
         })"

text \<open>Rounds one after the other: the interests received and the packets sent.\<close>

fun serve_all ::
  "server_env list \<Rightarrow> char list \<Rightarrow> isockbuf \<Rightarrow> u32 \<Rightarrow> (exit_code + ((isockbuf \<times> isockbuf) list \<times> u32)) option" where
  "serve_all [] content ibuf cnt = Some (Inr ([], cnt))"
| "serve_all (e # es) content ibuf cnt = do {
     r \<leftarrow> serve e content ibuf cnt;
     case r of
       Inl x \<Rightarrow> Some (Inl x)
     | Inr (dbuf, ibuf, cnt) \<Rightarrow> do {
         rs \<leftarrow> serve_all es content ibuf cnt;
         Some (case rs of Inl x \<Rightarrow> Inl x | Inr (log, cnt) \<Rightarrow> Inr ((ibuf, dbuf) # log, cnt))
       }
   }"

text \<open>The descriptor the servers start with; \<open>junk\<close> is what its memory and the arrays hold before.\<close>

definition server_ibuf :: "isockbuf \<Rightarrow> isockbuf" where
  "server_ibuf junk = junk\<lparr>ib_nlen := 1024, ib_dlen := 2048, ib_type := TYPE_INTEREST\<rparr>"

definition server_main ::
  "char list \<Rightarrow> int \<Rightarrow> (int \<Rightarrow> nsockaddr \<Rightarrow> int) \<Rightarrow> server_env list \<Rightarrow> char list \<Rightarrow> isockbuf
     \<Rightarrow> (exit_code + ((isockbuf \<times> isockbuf) list \<times> u32)) option" where
  "server_main prefix sock bind_sock es content junk =
     (if sock < 0 then Some (Inl (Exit 1))
      else if bind_sock sock \<lparr>ns_family = 0, ns_enable_mask = BIND_PREFIX, ns_prefix = prefix,
                              ns_plen = length prefix\<rparr> < 0
      then Some (Inl (Exit 1))
      else serve_all es content (server_ibuf junk) 0)"

definition time_server ::
  "int \<Rightarrow> (int \<Rightarrow> nsockaddr \<Rightarrow> int) \<Rightarrow> server_env list \<Rightarrow> char list \<Rightarrow> isockbuf
     \<Rightarrow> (exit_code + ((isockbuf \<times> isockbuf) list \<times> u32)) option" where
  "time_server = server_main ''/mixsim/real/time''"

definition testprovider ::
  "int \<Rightarrow> (int \<Rightarrow> nsockaddr \<Rightarrow> int) \<Rightarrow> server_env list \<Rightarrow> char list \<Rightarrow> isockbuf
     \<Rightarrow> (exit_code + ((isockbuf \<times> isockbuf) list \<times> u32)) option" where
  "testprovider = server_main ''/Rpi-1/lab1038/info/about''"

text \<open>
  The consumer: one interest, one answer, printed.  The descriptor of the interest has no content; what
  its uninitialised members hold is \<open>junk\<close>.
\<close>

definition consumer ::
  "int \<Rightarrow> (isockbuf \<Rightarrow> int) \<Rightarrow> (isockbuf \<Rightarrow> int \<times> isockbuf) \<Rightarrow> isockbuf \<Rightarrow> isockbuf \<Rightarrow> (exit_code + isockbuf) option" where
  "consumer sock isend irecv junk djunk =
     (if sock < 0 then Some (Inl (Exit 1))
      else
        let reqname = ''/Rpi-1/lab1038/info/about/10Mfile.txt/3333'';
            ibuf = junk\<lparr>ib_type := TYPE_INTEREST, ib_nlen := word_of_nat (length reqname), ib_name := reqname @ [CHR 0x00]\<rparr>
        in if isend ibuf < 0 then Some (Inl (Exit 1))
           else
             let (derr, dbuf) = irecv (djunk\<lparr>ib_type := TYPE_DATA, ib_nlen := 1024, ib_dlen := 4096\<rparr>)
             in if derr < 0 then Some (Inl (Exit 1))
                else if log_reads dbuf then Some (Inr dbuf) else None)"

section \<open>Rounds of a server\<close>

lemma length_time_text: "length (time_text t) \<le> 26"
proof -
  let ?w = "word_of_int t :: u32"
  have r: "- (2 ^ 31) \<le> sint ?w" "sint ?w < 2 ^ 31"
    using sint_greater_eq [of ?w] sint_less [of ?w] by simp_all
  have "length (decimal (nat (- sint ?w))) \<le> 10" "length (decimal (nat (sint ?w))) \<le> 10"
    using r by (intro length_decimal_le; simp)+
  then show ?thesis by (simp add: time_text_def signed_decimal_def)
qed

text \<open>A descriptor whose lengths are those of its arrays, as \<open>irecv\<close> leaves it.\<close>

definition received_ok :: "isockbuf \<Rightarrow> bool" where
  "received_ok ib \<longleftrightarrow> unat (ib_nlen ib) \<le> length (ib_name ib) \<and> unat (ib_dlen ib) \<le> length (ib_data ib)
     \<and> unat (ib_dlen ib) \<le> 4096"

lemma received_log: "received_ok ib \<Longrightarrow> log_reads ib"
proof -
  assume ok: "received_ok ib"
  then have d: "unat (ucast (ib_dlen ib) :: u32) = unat (ib_dlen ib)"
    by (simp add: received_ok_def unsigned_ucast_eq take_bit_nat_eq_self)
  then have "sint (ucast (ib_dlen ib) :: u32) = int (unat (ib_dlen ib))"
    using sint_small [of "ucast (ib_dlen ib)"] ok by (simp add: received_ok_def d del: of_nat_unat)
  moreover have "uint (ib_nlen ib) = int (unat (ib_nlen ib))" by (rule uint_nat)
  moreover have "printf_reads_within (int n) cs" if "n \<le> length cs" for n and cs :: "char list"
    using that by (simp add: printf_reads_within_def)
  ultimately show ?thesis using ok by (simp only: log_reads_def received_ok_def)
qed

text \<open>A round that goes well.\<close>

definition env_ok :: "server_env \<Rightarrow> bool" where
  "env_ok e \<longleftrightarrow> (\<forall>ib. 0 \<le> fst (s_irecv e ib) \<and> received_ok (snd (s_irecv e ib))) \<and> (\<forall>ib. 0 \<le> s_isend e ib)"

lemma serve_ok:
  assumes "env_ok e" "length content = 1024"
  shows "\<exists>dbuf. serve e content ibuf cnt = Some (Inr (dbuf, snd (s_irecv e ibuf), cnt + 1))
     \<and> ib_type dbuf = TYPE_DATA
     \<and> ib_nlen dbuf = ib_nlen (snd (s_irecv e ibuf)) \<and> ib_name dbuf = ib_name (snd (s_irecv e ibuf))
     \<and> take (unat (ib_dlen dbuf)) (ib_data dbuf) = time_text (s_time e) \<and> d_type dbuf = d_type (d_junk e)"
proof -
  obtain ret ib where r: "s_irecv e ibuf = (ret, ib)" by fastforce
  have ok: "0 \<le> ret" "log_reads ib"
    using assms(1) r received_log unfolding env_ok_def by (metis fst_conv, metis snd_conv)
  let ?t = "time_text (s_time e)"
  have len: "length ?t \<le> 26" by (rule length_time_text)
  have copy: "amemcpy content 0 (?t @ [CHR 0x00]) (int (length ?t) + 1) = Some (?t @ CHR 0x00 # drop (Suc (length ?t)) content)"
    using amemcpy_in [of "Suc (length ?t)" "?t @ [CHR 0x00]" content] len assms(2) by (simp add: add.commute)
  have n: "unat (word_of_nat (length ?t) :: u64) = length ?t"
    using len by (simp add: unsigned_of_nat take_bit_nat_eq_self)
  have "\<not> s_isend e p < 0" for p using assms(1) by (simp add: env_ok_def not_less)
  then show ?thesis using r ok copy n by (simp add: serve_def d_type_def)
qed

end
