(* ===== verification/Nip_Pkt.thy ===== *)
theory Nip_Pkt
  imports Nsocket Nut
begin

text \<open>
  The packet tools of \<open>nip_pkt_tools.c\<close>.  The decoder and the encoders they call (\<open>tlv_u.h\<close>,
  \<open>encap_pkt_buf.h\<close>, \<open>decap_pkt_buf.h\<close>) are not part of the repository and are arguments: what
  \<open>tlv_decode_usr\<close> returns and stores is a function of the position in the packet and of the length it is
  told; a pointer into the packet is an offset.
\<close>

record tlv =
  tlv_type :: u32
  tlv_len :: int
  tlv_value :: int

type_synonym decoder = "int \<Rightarrow> u64 \<Rightarrow> int \<times> tlv"

definition get_pkt_type :: "decoder \<Rightarrow> u64 \<Rightarrow> int" where
  "get_pkt_type tlv_decode_usr len =
     (let (err, tlv) = tlv_decode_usr 0 len in if err \<noteq> 0 then err else sint (tlv_type tlv))"

text \<open>
  The loop of \<open>get_pkt_name\<close>: the result, and \<open>*offset\<close> where it is set.  The decoder is told the length of
  the whole packet each time.  The loop ends when the decoder makes progress, hence the \<open>option\<close>.
\<close>

partial_function (option) get_pkt_name_loop ::
  "decoder \<Rightarrow> u32 \<Rightarrow> u64 \<Rightarrow> int \<Rightarrow> int \<Rightarrow> (int \<times> int option) option" where
  "get_pkt_name_loop tlv_decode_usr TYPE_NAME len tail buf =
     (if buf < tail
      then let (err, tlv) = tlv_decode_usr buf len
           in if err < 0 then Some (- EINVAL, None)
              else if tlv_type tlv = TYPE_NAME then Some (tlv_len tlv, Some (tlv_value tlv))
              else get_pkt_name_loop tlv_decode_usr TYPE_NAME len tail (tlv_value tlv + tlv_len tlv)
      else Some (- EINVAL, None))"

definition get_pkt_name :: "decoder \<Rightarrow> u32 \<Rightarrow> u64 \<Rightarrow> (int \<times> int option) option" where
  "get_pkt_name tlv_decode_usr TYPE_NAME len =
     (let (err, tlv) = tlv_decode_usr 0 len
      in if err \<noteq> 0 \<or> (tlv_type tlv \<noteq> TYPE_INTEREST \<and> tlv_type tlv \<noteq> TYPE_DATA) then Some (err, None)
         else get_pkt_name_loop tlv_decode_usr TYPE_NAME len (tlv_value tlv + tlv_len tlv) (tlv_value tlv))"

text \<open>The encoders pass everything on.\<close>

definition encap_interest ::
  "(char list \<Rightarrow> u64 \<Rightarrow> u64 \<Rightarrow> u8 \<Rightarrow> u32 \<Rightarrow> u8 \<Rightarrow> u64 \<Rightarrow> char list \<times> u64)
     \<Rightarrow> char list \<Rightarrow> u64 \<Rightarrow> u64 \<Rightarrow> u8 \<Rightarrow> u32 \<Rightarrow> u8 \<Rightarrow> u64 \<Rightarrow> char list \<times> u64" where
  "encap_interest encap_interest_buf nm nlen interestLifetime hop_limit nonce flags buf_len =
     encap_interest_buf nm nlen interestLifetime hop_limit nonce flags buf_len"

definition encap_data ::
  "(char list \<Rightarrow> u64 \<Rightarrow> char list \<Rightarrow> u64 \<Rightarrow> u64 \<Rightarrow> char list \<times> u64)
     \<Rightarrow> char list \<Rightarrow> u64 \<Rightarrow> char list \<Rightarrow> u64 \<Rightarrow> u64 \<Rightarrow> char list \<times> u64" where
  "encap_data encap_data_buf nm nlen content clen buf_len = encap_data_buf nm nlen content clen buf_len"

definition encap_tinfo_content ::
  "(u64 \<Rightarrow> char list \<Rightarrow> u8 \<Rightarrow> u32 \<Rightarrow> u64 \<Rightarrow> char list \<times> u64) \<Rightarrow> u64 \<Rightarrow> char list \<Rightarrow> u8 \<Rightarrow> u32 \<Rightarrow> u64 \<Rightarrow> char list \<times> u64" where
  "encap_tinfo_content encap_tinfo_content_buf bname_len pin pin_len max_segnum buf_len =
     encap_tinfo_content_buf bname_len pin pin_len max_segnum buf_len"

definition encap_gen_tinfo_content ::
  "(u64 \<Rightarrow> char list \<Rightarrow> u64 \<Rightarrow> char list \<times> u64) \<Rightarrow> u64 \<Rightarrow> char list \<Rightarrow> u64 \<Rightarrow> char list \<times> u64" where
  "encap_gen_tinfo_content encap_gen_tinfo_content_buf tbuf_len tbuf buf_len =
     encap_gen_tinfo_content_buf tbuf_len tbuf buf_len"

text \<open>
  \<open>decap_pkt\<close>: \<open>decap_interest_buf\<close> and \<open>decap_data_buf\<close> may set the members they get pointers to; of the two
  local flags, uninitialised before, \<open>junk\<close> is the value they have if the call does not set them.
\<close>

record interest_parts =
  ip_name :: "char list"
  ip_nlen :: u16
  ip_can_be_prefix :: bool
  ip_must_be_fresh :: bool
  ip_life_time :: u32

record data_parts =
  dp_name :: "char list"
  dp_nlen :: u16
  dp_data :: "char list"
  dp_dlen :: u64
  dp_type :: u8
  dp_fresh :: u32

definition decap_pkt ::
  "decoder \<Rightarrow> (tlv \<Rightarrow> interest_parts \<Rightarrow> int \<times> interest_parts) \<Rightarrow> (tlv \<Rightarrow> data_parts \<Rightarrow> int \<times> data_parts)
     \<Rightarrow> bool \<times> bool \<Rightarrow> u64 \<Rightarrow> isockbuf \<Rightarrow> int \<times> isockbuf" where
  "decap_pkt tlv_decode_usr decap_interest_buf decap_data_buf junk buf_len ibuf =
     (let res = - EINVAL; (err, tlv) = tlv_decode_usr 0 buf_len
      in if err < 0 then (res, ibuf)
         else
           let ibuf = ibuf\<lparr>ib_type := tlv_type tlv\<rparr>
           in if ib_type ibuf = TYPE_INTEREST
              then
                let (res, p) = decap_interest_buf tlv
                      \<lparr>ip_name = ib_name ibuf, ip_nlen = ib_nlen ibuf, ip_can_be_prefix = fst junk,
                       ip_must_be_fresh = snd junk, ip_life_time = i_life_time ibuf\<rparr>;
                    ibuf = ibuf\<lparr>ib_name := ip_name p, ib_nlen := ip_nlen p, ib_time := ip_life_time p\<rparr>;
                    ibuf = ibuf\<lparr>ib_dlen := 0\<rparr>;
                    ibuf = (if ip_can_be_prefix p
                            then ibuf\<lparr>ib_flags := or (i_flags ibuf) I_CANBEPREFIX\<rparr> else ibuf);
                    ibuf = (if ip_must_be_fresh p
                            then ibuf\<lparr>ib_flags := or (i_flags ibuf) I_MUSTBEFRESH\<rparr> else ibuf)
                in (res, ibuf)
              else if ib_type ibuf = TYPE_DATA
              then
                let (res, p) = decap_data_buf tlv
                      \<lparr>dp_name = ib_name ibuf, dp_nlen = ib_nlen ibuf, dp_data = ib_data ibuf,
                       dp_dlen = ib_dlen ibuf, dp_type = d_type ibuf, dp_fresh = fresh_period ibuf\<rparr>
                in (res, ibuf\<lparr>ib_name := dp_name p, ib_nlen := dp_nlen p, ib_data := dp_data p,
                              ib_dlen := dp_dlen p, ib_flags := dp_type p, ib_time := dp_fresh p\<rparr>)
              else (res, ibuf))"

section \<open>The elements of a packet\<close>

text \<open>
  \<open>elements dec len pos es tail\<close>: from \<open>pos\<close> to \<open>tail\<close> the decoder finds the elements \<open>es\<close>, one after the other.
\<close>

fun elements :: "decoder \<Rightarrow> u64 \<Rightarrow> int \<Rightarrow> tlv list \<Rightarrow> int \<Rightarrow> bool" where
  "elements dec len pos [] tail \<longleftrightarrow> tail \<le> pos"
| "elements dec len pos (e # es) tail \<longleftrightarrow> pos < tail \<and> 0 \<le> fst (dec pos len) \<and> snd (dec pos len) = e
     \<and> elements dec len (tlv_value e + tlv_len e) es tail"

lemma get_pkt_name_loop_elements:
  assumes "elements dec len pos es tail"
  shows "get_pkt_name_loop dec tn len tail pos =
     Some (case find (\<lambda>e. tlv_type e = tn) es of
             Some e \<Rightarrow> (tlv_len e, Some (tlv_value e)) | None \<Rightarrow> (- EINVAL, None))"
  using assms
proof (induction es arbitrary: pos)
  case Nil
  then show ?case by (subst get_pkt_name_loop.simps) simp
next
  case (Cons e es)
  obtain err where "dec pos len = (err, e)" "0 \<le> err" using Cons.prems by (cases "dec pos len") auto
  with Cons show ?case by (subst get_pkt_name_loop.simps) simp
qed

text \<open>A decoder that makes progress lets the loop end.\<close>

lemma get_pkt_name_loop_ends:
  assumes "\<forall>pos. 0 \<le> fst (dec pos len) \<longrightarrow> pos < tlv_value (snd (dec pos len)) + tlv_len (snd (dec pos len))"
  shows "get_pkt_name_loop dec tn len tail pos \<noteq> None"
proof (induction "nat (tail - pos)" arbitrary: pos rule: less_induct)
  case less
  obtain err e where d: "dec pos len = (err, e)" by fastforce
  show ?case
  proof (cases "pos < tail \<and> 0 \<le> err \<and> tlv_type e \<noteq> tn")
    case True
    then have "pos < tlv_value e + tlv_len e" using assms [rule_format, of pos] d by simp
    with True d less [of "tlv_value e + tlv_len e"] show ?thesis
      by (subst get_pkt_name_loop.simps) simp
  next
    case False
    with d show ?thesis by (subst get_pkt_name_loop.simps) auto
  qed
qed

end
