(* ===== verification/Demo_Props.thy ===== *)
theory Demo_Props
  imports Provider Demo_Servers Nip_Pkt
begin

text \<open>
  The properties of the provider inside the simulator, of the servers on the real network, and of the
  packet tools.
\<close>

section \<open>The provider in the simulator\<close>

text \<open>
  C26. The provider remembers one name: whatever interests and data came before, the answer it makes when
  data arrives carries the number and the content of that data, but the name of the last interest.  With
  two interests under way the first answer has the name of the second.
\<close>

theorem provider_answers_last_interest:
  assumes "p_active st" and "list_all data_fits es"
    and "length (answer_text (ucast (snd n)) content) \<le> 2047"
  shows "\<exists>out st'. provider_run (es @ [Data_arrives n content junk]) st =
     Some (out @ [P_data (last_interest (p_interestName st) es) (p_freshness st)
                    (answer_text (ucast (snd n)) content) (p_key_locator st)], st')"
proof -
  obtain out where "provider_run es st = Some (out, st\<lparr>p_interestName := last_interest (p_interestName st) es\<rparr>)"
    using provider_run_state [OF assms(1,2)] by blast
  then show ?thesis
    using OnData_fits [OF assms(3), of junk] by (simp add: provider_run_append)
qed

definition sample_provider :: provider where
  "sample_provider = \<lparr>p_prefix = ''/p'', p_postfix = ''/'', p_virtualPayloadSize = 1024,
     p_active = True, p_freshness = 0, p_signature = 0, p_key_locator = [], p_interestName = ([], 0)\<rparr>"

theorem provider_answers_last_interest_witness:
  "\<exists>out st'. provider_run [Interest_arrives 0 (''/p'', 1), Interest_arrives 0 (''/p'', 2),
        Data_arrives (''/mixsim/real/time'', 1) ''noon'' (replicate 2048 CHR 0x00)] sample_provider =
     Some (out @ [P_data (''/p'', 2) 0 ''(1)[I am a provider inside ndnSIM!]:[noon]'' []], st')"
proof -
  have t: "answer_text (ucast (snd (''/mixsim/real/time'', 1 :: u64))) ''noon'' = ''(1)[I am a provider inside ndnSIM!]:[noon]''"
    by (simp add: answer_text_def decimal.simps char_of_eq_iff)
  have "length (answer_text (ucast (snd (''/mixsim/real/time'', 1 :: u64))) ''noon'') \<le> 2047"
    unfolding t by simp
  from provider_answers_last_interest [OF _ _ this, of sample_provider
        "[Interest_arrives 0 (''/p'', 1), Interest_arrives 0 (''/p'', 2)]" "replicate 2048 CHR 0x00"] t
  show ?thesis by (simp add: sample_provider_def del: provider_run.simps)
qed

section \<open>The servers on the real network\<close>

definition answers :: "server_env \<Rightarrow> isockbuf \<times> isockbuf \<Rightarrow> bool" where
  "answers e x \<longleftrightarrow> ib_type (snd x) = TYPE_DATA
     \<and> ibuf_packet (snd x) = (fst (ibuf_packet (fst x)), time_text (s_time e))"

lemma serve_all_answers:
  assumes "list_all env_ok es" "length content = 1024"
  shows "\<exists>log. serve_all es content ibuf cnt = Some (Inr (log, cnt + word_of_nat (length es)))
     \<and> list_all2 answers es log"
  using assms
proof (induction es arbitrary: ibuf cnt)
  case Nil
  then show ?case by simp
next
  case (Cons e es)
  let ?ib = "snd (s_irecv e ibuf)"
  obtain dbuf where d: "serve e content ibuf cnt = Some (Inr (dbuf, ?ib, cnt + 1))"
      "ib_type dbuf = TYPE_DATA" "ib_nlen dbuf = ib_nlen ?ib" "ib_name dbuf = ib_name ?ib"
      "take (unat (ib_dlen dbuf)) (ib_data dbuf) = time_text (s_time e)"
    using serve_ok [of e content ibuf cnt] Cons.prems by auto
  obtain log where log: "serve_all es content ?ib (cnt + 1) = Some (Inr (log, cnt + 1 + word_of_nat (length es)))"
      "list_all2 answers es log"
    using Cons.IH [of ?ib "cnt + 1"] Cons.prems by auto
  have "answers e (?ib, dbuf)" using d by (simp add: answers_def ibuf_packet_def)
  with d(1) log show ?case by (simp add: add.assoc)
qed

text \<open>
  C25. Both servers, once bound, answer every interest with one data packet, in the order received: it has
  the name of that interest and the content \<open>current time: \<close> with the time of that round; the counter is
  the number of interests served.
\<close>

theorem servers_answer_every_interest:
  assumes "0 \<le> sock" and "\<And>a. 0 \<le> bind_sock sock a" and "list_all env_ok es" and "length content = 1024"
  shows "(\<exists>log. time_server sock bind_sock es content junk = Some (Inr (log, word_of_nat (length es)))
            \<and> list_all2 answers es log)
       \<and> (\<exists>log. testprovider sock bind_sock es content junk = Some (Inr (log, word_of_nat (length es)))
            \<and> list_all2 answers es log)"
  using serve_all_answers [OF assms(3,4), of "server_ibuf junk" 0] assms(1,2)
  by (simp add: time_server_def testprovider_def server_main_def not_less)

definition sample_ibuf :: isockbuf where
  "sample_ibuf = \<lparr>ib_type = 0, ib_name = replicate 1024 CHR 0x00, ib_nlen = 0, ib_data = replicate 2048 CHR 0x00,
     ib_dlen = 0, ib_flags = 0, ib_time = 0\<rparr>"

text \<open>An interest with the name \<open>nm\<close>, as much of it as the descriptor has room for.\<close>

definition sample_env :: "char list \<Rightarrow> server_env" where
  "sample_env nm = \<lparr>s_irecv = (\<lambda>ib. (1, ib\<lparr>ib_nlen := min (word_of_nat (length nm)) (ib_nlen ib), ib_name := nm,
     ib_data := [], ib_dlen := 0\<rparr>)), s_isend = (\<lambda>_. 0), s_time = 77, d_junk = sample_ibuf\<rparr>"

lemma sample_env_ok: "length nm < 2 ^ 16 \<Longrightarrow> env_ok (sample_env nm)"
  by (auto simp: env_ok_def sample_env_def received_ok_def min_def unsigned_of_nat take_bit_nat_eq_self
      word_le_nat_alt)

theorem servers_answer_every_interest_witness:
  "\<exists>log. time_server 3 (\<lambda>_ _. 0) [sample_env ''/t/1'', sample_env ''/t/2''] (replicate 1024 CHR 0x00) sample_ibuf =
      Some (Inr (log, 2)) \<and> list_all2 answers [sample_env ''/t/1'', sample_env ''/t/2''] log"
  using servers_answer_every_interest [of 3 "\<lambda>_ _. 0" "[sample_env ''/t/1'', sample_env ''/t/2'']"
      "replicate 1024 CHR 0x00" sample_ibuf] sample_env_ok
  by simp

text \<open>
  The servers give \<open>irecv\<close> the descriptor as the last round left it.  When \<open>irecv\<close> does not write more
  than the length it is given, the lengths of the names received never increase: after an interest with a
  short name no longer one is received in full.
\<close>

lemma server_names_never_grow:
  assumes "time_server sock bind_sock es content junk = Some (Inr (log, cnt))"
    and "\<forall>e \<in> set es. \<forall>ib. unat (ib_nlen (snd (s_irecv e ib))) \<le> unat (ib_nlen ib)"
  shows "sorted_wrt (\<ge>) (1024 # map (\<lambda>x. unat (ib_nlen (fst x))) log)"
proof -
  have "sorted_wrt (\<ge>) (unat (ib_nlen ibuf) # map (\<lambda>x. unat (ib_nlen (fst x))) log)"
    if "serve_all es content ibuf cnt0 = Some (Inr (log, cnt))"
      "\<forall>e \<in> set es. \<forall>ib. unat (ib_nlen (snd (s_irecv e ib))) \<le> unat (ib_nlen ib)" for es log ibuf cnt0
    using that
  proof (induction es arbitrary: ibuf cnt0 log)
    case Nil
    then show ?case by simp
  next
    case (Cons e es)
    obtain x where x: "serve e content ibuf cnt0 = Some x" using Cons.prems(1) by (auto simp: bind_eq_Some_conv)
    obtain dbuf ib c1 where s: "x = Inr (dbuf, ib, c1)" using Cons.prems(1) x by (cases x) auto
    obtain y where y: "serve_all es content ib c1 = Some y" using Cons.prems(1) x s by (auto simp: bind_eq_Some_conv)
    obtain l where l: "log = (ib, dbuf) # l" "serve_all es content ib c1 = Some (Inr (l, cnt))"
      using Cons.prems(1) x s y by (cases y) auto
    have "ib = snd (s_irecv e ibuf)"
      using x s by (auto simp: serve_def Let_def bind_eq_Some_conv split: prod.splits if_splits)
    then have "unat (ib_nlen ib) \<le> unat (ib_nlen ibuf)" using Cons.prems(2) by simp
    with Cons.IH [OF l(2)] Cons.prems(2) l(1) show ?case by auto
  qed
  note grow = this
  have "serve_all es content (server_ibuf junk) 0 = Some (Inr (log, cnt))"
    using assms(1) by (simp add: time_server_def server_main_def split: if_splits)
  from grow [OF this assms(2)] show ?thesis by (simp add: server_ibuf_def)
qed

lemma server_names_never_grow_witness:
  "\<exists>x y. time_server 3 (\<lambda>_ _. 0) [sample_env ''/t'', sample_env ''/t/2''] (replicate 1024 CHR 0x00) sample_ibuf =
      Some (Inr ([x, y], 2)) \<and> unat (ib_nlen (fst x)) \<le> 1024 \<and> unat (ib_nlen (fst y)) \<le> unat (ib_nlen (fst x))"
proof -
  let ?es = "[sample_env ''/t'', sample_env ''/t/2'']"
  obtain log where log: "serve_all ?es (replicate 1024 CHR 0x00) (server_ibuf sample_ibuf) 0 = Some (Inr (log, 2))"
      "list_all2 answers ?es log"
    using serve_all_answers [of ?es "replicate 1024 CHR 0x00" "server_ibuf sample_ibuf" 0] sample_env_ok by auto
  obtain x y where xy: "log = [x, y]" using log(2) by (auto simp: list_all2_Cons1)
  have run: "time_server 3 (\<lambda>_ _. 0) ?es (replicate 1024 CHR 0x00) sample_ibuf = Some (Inr ([x, y], 2))"
    using log(1) xy by (simp add: time_server_def server_main_def)
  have "\<forall>e \<in> set ?es. \<forall>ib. unat (ib_nlen (snd (s_irecv e ib))) \<le> unat (ib_nlen ib)"
    by (auto simp: sample_env_def min_def word_le_nat_alt)
  from server_names_never_grow [OF run this] run show ?thesis by auto
qed

section \<open>Packet tools\<close>

text \<open>
  \<open>get_pkt_name\<close> on an interest or data packet that consists of elements returns length and position
  of the first name among them, \<open>-EINVAL\<close> when there is none; on any other packet the decoder accepts it
  returns 0 and sets no position.
\<close>

lemma get_pkt_name_first_name:
  assumes "dec 0 len = (0, outer)" and "elements dec len (tlv_value outer) es (tlv_value outer + tlv_len outer)"
  shows "get_pkt_name dec tn len =
     Some (if tlv_type outer = TYPE_INTEREST \<or> tlv_type outer = TYPE_DATA
           then (case find (\<lambda>e. tlv_type e = tn) es of
                   Some e \<Rightarrow> (tlv_len e, Some (tlv_value e)) | None \<Rightarrow> (- EINVAL, None))
           else (0, None))"
  using get_pkt_name_loop_elements [OF assms(2), of tn] assms(1) by (simp add: get_pkt_name_def)

text \<open>An interest of 12 bytes: a nonce of 4, then a name of 2, each after a type and a length byte.\<close>

definition sample_decoder :: decoder where
  "sample_decoder pos len =
     (if pos = 0 then (0, \<lparr>tlv_type = TYPE_INTEREST, tlv_len = 10, tlv_value = 2\<rparr>)
      else if pos = 2 then (0, \<lparr>tlv_type = 10, tlv_len = 4, tlv_value = 4\<rparr>)
      else if pos = 8 then (0, \<lparr>tlv_type = 7, tlv_len = 2, tlv_value = 10\<rparr>)
      else (-1, \<lparr>tlv_type = 0, tlv_len = 0, tlv_value = 0\<rparr>))"

lemma get_pkt_name_first_name_witness:
  "get_pkt_name sample_decoder 7 12 = Some (2, Some 10)"
  using get_pkt_name_first_name [of sample_decoder 12 "\<lparr>tlv_type = TYPE_INTEREST, tlv_len = 10, tlv_value = 2\<rparr>"
      "[\<lparr>tlv_type = 10, tlv_len = 4, tlv_value = 4\<rparr>, \<lparr>tlv_type = 7, tlv_len = 2, tlv_value = 10\<rparr>]" 7]
  by (simp add: sample_decoder_def)

text \<open>
  \<open>decap_pkt\<close> adds the flags of an interest to those the descriptor has: afterwards a flag is set when the
  packet has it or it was set before, so a descriptor that is used again, or was never initialised, shows
  flags the packet does not have.  The content length is 0, and the result is the decoder's.
\<close>

lemma decap_pkt_accumulates_flags:
  assumes "fst (dec 0 buf_len) \<ge> 0" and "tlv_type (snd (dec 0 buf_len)) = TYPE_INTEREST"
    and "decap_interest (snd (dec 0 buf_len))
           \<lparr>ip_name = ib_name ibuf, ip_nlen = ib_nlen ibuf, ip_can_be_prefix = fst junk,
            ip_must_be_fresh = snd junk, ip_life_time = i_life_time ibuf\<rparr> = (res, p)"
    and "decap_pkt dec decap_interest decap_data junk buf_len ibuf = (r, ib)"
  shows "r = res \<and> ib_dlen ib = 0 \<and> ib_name ib = ip_name p \<and> ib_nlen ib = ip_nlen p
     \<and> (bit (i_flags ib) k \<longleftrightarrow> bit (i_flags ibuf) k \<or> k = 1 \<and> ip_can_be_prefix p \<or> k = 2 \<and> ip_must_be_fresh p)"
proof -
  have b: "bit I_CANBEPREFIX k \<longleftrightarrow> k = 1" "bit I_MUSTBEFRESH k \<longleftrightarrow> k = 2"
    using bit_exp_iff [where 'a = "8 word", of 1 k] bit_exp_iff [where 'a = "8 word", of 2 k]
    by (auto simp: I_CANBEPREFIX_def I_MUSTBEFRESH_def)
  obtain err t where t: "dec 0 buf_len = (err, t)" by fastforce
  show ?thesis
    using assms t b
    by (cases "ip_can_be_prefix p"; cases "ip_must_be_fresh p")
       (auto simp: decap_pkt_def Let_def i_flags_def i_life_time_def bit_or_iff)
qed

definition plain_interest :: "tlv \<Rightarrow> interest_parts \<Rightarrow> int \<times> interest_parts" where
  "plain_interest t p = (0, \<lparr>ip_name = ''ab'', ip_nlen = 2, ip_can_be_prefix = False, ip_must_be_fresh = False,
     ip_life_time = 4000\<rparr>)"

lemma decap_pkt_accumulates_flags_witness:
  "\<exists>ib. decap_pkt sample_decoder plain_interest (\<lambda>t p. (0, p)) (False, False) 12 (sample_ibuf\<lparr>ib_flags := I_CANBEPREFIX\<rparr>) = (0, ib)
     \<and> bit (i_flags ib) 1"
proof -
  let ?ibuf = "sample_ibuf\<lparr>ib_flags := I_CANBEPREFIX\<rparr>"
  obtain r ib where d: "decap_pkt sample_decoder plain_interest (\<lambda>t p. (0, p)) (False, False) 12 ?ibuf = (r, ib)"
    by fastforce
  have "fst (sample_decoder 0 12) \<ge> 0" "tlv_type (snd (sample_decoder 0 12)) = TYPE_INTEREST"
    by (simp_all add: sample_decoder_def)
  moreover have "plain_interest (snd (sample_decoder 0 12))
      \<lparr>ip_name = ib_name ?ibuf, ip_nlen = ib_nlen ?ibuf, ip_can_be_prefix = fst (False, False),
       ip_must_be_fresh = snd (False, False), ip_life_time = i_life_time ?ibuf\<rparr> =
      (0, \<lparr>ip_name = ''ab'', ip_nlen = 2, ip_can_be_prefix = False, ip_must_be_fresh = False, ip_life_time = 4000\<rparr>)"
    by (simp add: plain_interest_def)
  ultimately have "r = 0 \<and> (bit (i_flags ib) 1 \<longleftrightarrow> bit (i_flags ?ibuf) 1)"
    using decap_pkt_accumulates_flags [OF _ _ _ d, of 0 _ 1] by auto
  then show ?thesis using d by (auto simp: i_flags_def I_CANBEPREFIX_def)
qed

end
