(* ===== verification/Adaptor_Serving.thy ===== *)
theory Adaptor_Serving
  imports Adaptor_Run
begin

text \<open>
  The adaptor between two exchanges: it stands for some state of the relay and the allocator has addresses left.
  Runs can be put together from here, and the datagrams they send are well-formed.
\<close>

section \<open>Datagrams sent\<close>

text \<open>A datagram to a socket is the memory of a buffer a coroutine still holds.\<close>

lemma loop_sends_from_buffer:
  assumes "udp_data_out_loop sd al st = Some (out, st')" and "Udp_out a bs \<in> set out"
  shows "sd_data sd \<in> set (held st') \<and> (\<exists>d. bufs st' (sd_data sd) = Some d \<and> bs = nd_bytes d)"
  using assms by (auto simp: udp_data_out_loop_def held_def bind_eq_Some_conv split: if_splits)

lemma sent_from_buffer:
  assumes "adaptor_step ina mal ev st = Some (out, st')" and "Udp_out a bs \<in> set out"
  shows "\<exists>p d. p \<in> set (held st') \<and> bufs st' p = Some d \<and> bs = nd_bytes d"
proof (cases ev)
  case (Udp_interest_out al)
  then show ?thesis
    using assms by (auto simp: udp_interest_out_def held_def bind_eq_Some_conv split: option.splits if_splits)
next
  case (Udp_data_out al)
  then show ?thesis
    using assms
    by (auto simp: udp_data_out_def bind_eq_Some_conv split: option.splits if_splits dest!: loop_sends_from_buffer)
qed (use assms in \<open>auto simp: udp_data_in_def udp_interest_in_def nip_interest_in_def nip_data_out_def nip_interest_out_def
       nip_data_in_def bind_eq_Some_conv Let_def split: option.splits if_splits prod.splits\<close>)

fun sent_ok :: "packet_out \<Rightarrow> bool" where
  "sent_ok (Udp_out a bs) \<longleftrightarrow> length bs = 2048 \<and> nd_ok (nd_of_bytes bs) \<and> packet_wf (nd_of_bytes bs)"
| "sent_ok (Nip_out ib) \<longleftrightarrow> True"

lemma step_sends_ok:
  assumes "adaptor_step ina mal ev st = Some (out, st')" and "refines c st' r"
  shows "list_all sent_ok out"
proof -
  have ok: "adaptor_ok c st'" "all_wf c st'" using assms(2) by (simp_all add: refines_def)
  have "sent_ok x" if x: "x \<in> set out" for x
  proof (cases x)
    case (Udp_out a bs)
    obtain p d where p: "p \<in> set (held st')" "bufs st' p = Some d" "bs = nd_bytes d"
      using sent_from_buffer [OF assms(1), of a bs] x Udp_out by blast
    have "nd_ok d" using ok(1) p(2) by (auto simp: adaptor_ok_def bufs_ok_def)
    moreover have "packet_wf d"
    proof -
      have "p \<in> carriers c st'" using p(1) by (simp add: carriers_def)
      then have "packet_wf (the (bufs st' p))" using ok(2) by (simp add: all_wf_def)
      then show ?thesis using p(2) by simp
    qed
    ultimately show ?thesis using p(3) Udp_out length_nd_bytes by simp
  next
    case (Nip_out ib)
    then show ?thesis by simp
  qed
  then show ?thesis by (simp add: list_all_iff)
qed

lemma idle_sel [simp]:
  "chan (idle_relay ib ib') i = []" "waiting (idle_relay ib ib') = (\<lambda>_. None)" "to_sim (idle_relay ib ib') = None"
  "to_clients (idle_relay ib ib') = None" "to_nip_data (idle_relay ib ib') = None"
  "to_nip_interest (idle_relay ib ib') = None" "r_ibuf_interest (idle_relay ib ib') = ib"
  "r_ibuf_data (idle_relay ib ib') = ib'"
  by (simp_all add: idle_relay_def)

section \<open>Serving\<close>

text \<open>
  After \<open>n\<close> events, with \<open>A\<close> and \<open>B\<close> the addresses the allocator has given away for nodes and for buffers.
\<close>

definition serving :: "addr set \<Rightarrow> addr set \<Rightarrow> nat \<Rightarrow> relay \<Rightarrow> adaptor \<Rightarrow> bool" where
  "serving A B n r st \<longleftrightarrow> (\<exists>c. refines c st r) \<and> within A B st \<and> entries_le n st"

lemma serving_step:
  assumes "serving A B n r st" and "fresh_allocs A B (ev_allocs ev)" and "ev_env mal n r ev" and "n < 2 ^ 30"
  shows "\<exists>out st'. adaptor_step ina mal ev st = Some (out, st') \<and> map seen out = fst (relay_step ina ev r)
     \<and> list_all sent_ok out
     \<and> serving (insert (c_node (ev_allocs ev)) A) (insert (m_buf (ev_allocs ev)) B) (Suc n)
         (snd (relay_step ina ev r)) st'"
proof -
  obtain c where c: "refines c st r" and w: "within A B st" "entries_le n st"
    using assms(1) by (auto simp: serving_def)
  have "simulates ina mal ev c st" and r: "r = relay_of c st"
    using c adaptor_simulates [of c st mal ev ina] ev_env_ok [OF c w assms(2,3)] by (auto simp: refines_def)
  then obtain out st' c' where s: "adaptor_step ina mal ev st = Some (out, st')"
      "refines c' st' (snd (relay_step ina ev r))" "map seen out = fst (relay_step ina ev r)"
    unfolding simulates_def by blast
  have "within (insert (c_node (ev_allocs ev)) A) (insert (m_buf (ev_allocs ev)) B) st'"
    using adaptor_step_grown [OF s(1) w(1)] by simp
  moreover have "entries_le (Suc n) st'" using entries_le_step [OF s(1) w(2)] assms(4) adaptor_okD(5) [of c st] c by (simp add: refines_def)
  ultimately show ?thesis using s step_sends_ok [OF s(1,2)] by (auto simp: serving_def)
qed

lemma serving_run:
  assumes "serving A B n r st" and "allocs_fresh A B (map ev_allocs evs)" and "run_evs ina mal n evs r"
  shows "\<exists>out st'. adaptor_run ina mal evs st = Some (out, st') \<and> map seen out = fst (relay_run ina evs r)
     \<and> list_all sent_ok out
     \<and> serving (c_node ` set (map ev_allocs evs) \<union> A) (m_buf ` set (map ev_allocs evs) \<union> B) (n + length evs)
         (snd (relay_run ina evs r)) st'"
  using assms
proof (induction evs arbitrary: A B n r st)
  case Nil
  then show ?case by simp
next
  case (Cons ev evs)
  obtain out st1 where s: "adaptor_step ina mal ev st = Some (out, st1)" "map seen out = fst (relay_step ina ev r)"
      "list_all sent_ok out"
      "serving (insert (c_node (ev_allocs ev)) A) (insert (m_buf (ev_allocs ev)) B) (Suc n) (snd (relay_step ina ev r)) st1"
    using serving_step [OF Cons.prems(1), of ev mal ina] Cons.prems(2,3) by auto
  from Cons.IH [OF s(4)] Cons.prems(2,3) obtain outs st2 where t: "adaptor_run ina mal evs st1 = Some (outs, st2)"
      "map seen outs = fst (relay_run ina evs (snd (relay_step ina ev r)))" "list_all sent_ok outs"
      "serving (c_node ` set (map ev_allocs evs) \<union> insert (c_node (ev_allocs ev)) A)
         (m_buf ` set (map ev_allocs evs) \<union> insert (m_buf (ev_allocs ev)) B) (Suc n + length evs)
         (snd (relay_run ina evs (snd (relay_step ina ev r)))) st2"
    by auto
  then show ?case using s(1-3) by (auto simp: split_beta)
qed

lemma allocs_fresh_append:
  "allocs_fresh A B (xs @ ys) \<longleftrightarrow>
     allocs_fresh A B xs \<and> allocs_fresh (c_node ` set xs \<union> A) (m_buf ` set xs \<union> B) ys"
  by (induction xs arbitrary: A B) auto

lemma serving_boot:
  assumes "init_ok ia" and "boot st0" and "init_adaptor ia st0 = Some st"
  shows "serving (init_nodes ia) (init_addrs ia) 0 (boot_relay st0) st"
  using init_refines [OF assms(1,2)] assms(3) by (auto simp: serving_def)

end
