(* ===== verification/End_To_End.thy ===== *)
theory End_To_End
  imports Adaptor_Serving App_Props Demo_Props Adaptor_Props
begin

text \<open>
  The parts together: what the named-data network between two programs promises, the exchanges the adaptor has with
  its two sides, and what the application and the provider in the simulator make of the packets.
\<close>

section \<open>The network between isend and irecv\<close>

text \<open>
  \<open>deliver p ib\<close> is what \<open>irecv\<close> returns and what it leaves in the descriptor \<open>ib\<close> when it receives the packet that
  \<open>isend\<close> was given as \<open>p\<close>: lengths that fit the arrays, and the packet itself when it fits the lengths \<open>ib\<close> had.  Of
  an interest it delivers the name; of data also the content and the byte \<open>d_type\<close>, whatever the sender left there.
  No program here asks for more than 4096 bytes of content.
\<close>

definition fits_in :: "isockbuf \<Rightarrow> isockbuf \<Rightarrow> bool" where
  "fits_in p ib \<longleftrightarrow> length (fst (ibuf_packet p)) \<le> unat (ib_nlen ib)
     \<and> (ib_type p = TYPE_DATA \<longrightarrow>
          length (snd (ibuf_packet p)) \<le> unat (ib_dlen ib) \<and> length (snd (ibuf_packet p)) \<le> 4096)"

definition nip_network :: "(isockbuf \<Rightarrow> isockbuf \<Rightarrow> int \<times> isockbuf) \<Rightarrow> bool" where
  "nip_network deliver \<longleftrightarrow> (\<forall>p ib. 0 < fst (deliver p ib) \<and> received_ok (snd (deliver p ib)) \<and>
     (fits_in p ib \<longrightarrow> fst (ibuf_packet (snd (deliver p ib))) = fst (ibuf_packet p) \<and>
        (ib_type p = TYPE_DATA \<longrightarrow>
           d_type (snd (deliver p ib)) = d_type p \<and> ibuf_packet (snd (deliver p ib)) = ibuf_packet p)))"

lemma nip_networkD:
  assumes "nip_network deliver"
  shows "0 < fst (deliver p ib)" "received_ok (snd (deliver p ib))"
    "fits_in p ib \<Longrightarrow> fst (ibuf_packet (snd (deliver p ib))) = fst (ibuf_packet p)"
    "fits_in p ib \<Longrightarrow> ib_type p = TYPE_DATA \<Longrightarrow> d_type (snd (deliver p ib)) = d_type p"
    "fits_in p ib \<Longrightarrow> ib_type p = TYPE_DATA \<Longrightarrow> ibuf_packet (snd (deliver p ib)) = ibuf_packet p"
  using assms by (auto simp: nip_network_def)

lemma received_lengths:
  assumes "received_ok ib" and "ibuf_packet ib = (n, v)"
  shows "unat (ib_nlen ib) = length n" "unat (ib_dlen ib) = length v"
  using assms by (auto simp: received_ok_def ibuf_packet_def)

section \<open>Exchanges of the adaptor\<close>

text \<open>Nobody waits and nothing is on its way, except that the clients \<open>as\<close> wait for \<open>n\<close>.\<close>

abbreviation asked_relay :: "char list \<Rightarrow> sockaddr_in list \<Rightarrow> isockbuf \<Rightarrow> isockbuf \<Rightarrow> relay" where
  "asked_relay n as ib ib' \<equiv> (idle_relay ib ib')\<lparr>waiting := [n \<mapsto> as]\<rparr>"

abbreviation ask_evs :: "char list \<Rightarrow> sockaddr_in \<Rightarrow> int \<Rightarrow> allocs \<Rightarrow> allocs \<Rightarrow> allocs \<Rightarrow> event list" where
  "ask_evs dg a w al al' al'' \<equiv> [Udp_interest_in dg a al, Nip_interest_out w al', Nip_interest_out 1 al'']"

abbreviation answer_evs :: "(isockbuf \<Rightarrow> int \<times> isockbuf) \<Rightarrow> allocs \<Rightarrow> allocs \<Rightarrow> allocs \<Rightarrow> event list" where
  "answer_evs irecv al al' al'' \<equiv> [Nip_data_in 1 irecv al, Udp_data_out al', Udp_data_out al'']"

abbreviation ask_inside_evs :: "(isockbuf \<Rightarrow> int \<times> isockbuf) \<Rightarrow> allocs \<Rightarrow> allocs \<Rightarrow> allocs \<Rightarrow> event list" where
  "ask_inside_evs irecv al al' al'' \<equiv> [Nip_interest_in 1 irecv al, Udp_interest_out al', Udp_interest_out al'']"

abbreviation answer_inside_evs :: "char list \<Rightarrow> int \<Rightarrow> allocs \<Rightarrow> allocs \<Rightarrow> allocs \<Rightarrow> event list" where
  "answer_inside_evs dg w al al' al'' \<equiv> [Udp_data_in dg al, Nip_data_out w al', Nip_data_out 1 al'']"

lemma dgram_nonempty: "dgram_wf dg \<Longrightarrow> dg \<noteq> []"
  by (auto simp: dgram_wf_def)

lemma ask_relay:
  assumes "dgram_wf dg" "packet_of (nd_of_bytes dg) = (n, [])" "length n \<le> 1024" "c_node al \<noteq> NULL"
  shows "relay_run ina (ask_evs dg a w al al' al'') (idle_relay ib ib') =
    ([To_nip TYPE_INTEREST (n, [])], asked_relay n [a] ib ib')"
  using assms dgram_nonempty [OF assms(1)]
  by (simp add: register_def push_def name_key_def idle_relay_def fun_upd_idem)

text \<open>
  What is left of the content \<open>v\<close> of data whose \<open>d_type\<close> is that of \<open>ib\<close>: \<open>nip_data_in\<close> drops it from a NACK.
\<close>

definition left_of :: "isockbuf \<Rightarrow> char list \<Rightarrow> char list" where
  "left_of ib v = (if d_type ib = D_NACK then [] else v)"

lemma left_of_le: "length (left_of ib v) \<le> length v"
  by (simp add: left_of_def)

lemma answer_relay:
  assumes "irecv (ib'\<lparr>ib_type := TYPE_DATA, ib_nlen := MAX_NAME_LEN, ib_dlen := MAX_DATA_LEN\<rparr>) = (len, ib2)"
    and "0 < len" "ibuf_packet ib2 = (n, v)" "length n \<le> 1024" "c_node al \<noteq> NULL"
  shows "relay_run ina (answer_evs irecv al al' al'') (asked_relay n [a] ib ib') =
    ([To_udp a (n, left_of ib2 v)], idle_relay ib ib2)"
  using assms
  by (simp add: left_of_def push_def name_key_def idle_relay_def fun_upd_idem Let_def)

lemma ask_inside_relay:
  assumes "irecv (ib\<lparr>ib_type := TYPE_INTEREST, ib_nlen := MAX_NAME_LEN, ib_dlen := MAX_DATA_LEN\<rparr>) = (len, ib2)"
    and "0 < len" "fst (ibuf_packet ib2) = n" "c_node al \<noteq> NULL"
  shows "relay_run ina (ask_inside_evs irecv al al' al'') (idle_relay ib ib') =
    ([To_udp (sim_addr ina) (n, [])], idle_relay ib2 ib')"
  using assms
  by (simp add: push_def idle_relay_def fun_upd_idem Let_def)

lemma answer_inside_relay:
  assumes "dgram_wf dg" "packet_of (nd_of_bytes dg) = (n, v)" "c_node al \<noteq> NULL"
  shows "relay_run ina (answer_inside_evs dg w al al' al'') (idle_relay ib ib') =
    ([To_nip TYPE_DATA (n, v)], idle_relay ib ib')"
  using assms dgram_nonempty [OF assms(1)]
  by (simp add: push_def idle_relay_def fun_upd_idem)


text \<open>
  The same for the adaptor.  The output is one packet; the state afterwards serves the next exchange.
\<close>

abbreviation nodes_given :: "allocs list \<Rightarrow> addr set \<Rightarrow> addr set" where
  "nodes_given als A \<equiv> c_node ` set als \<union> A"

abbreviation bufs_given :: "allocs list \<Rightarrow> addr set \<Rightarrow> addr set" where
  "bufs_given als B \<equiv> m_buf ` set als \<union> B"

lemma one_seen_nip: "map seen out = [To_nip t q] \<Longrightarrow> \<exists>ib. out = [Nip_out ib] \<and> ib_type ib = t \<and> ibuf_packet ib = q"
  by (auto simp: map_eq_Cons_conv elim: seen.elims)

lemma one_seen_udp: "map seen out = [To_udp a q] \<Longrightarrow> \<exists>bs. out = [Udp_out a bs] \<and> packet_of (nd_of_bytes bs) = q"
  by (auto simp: map_eq_Cons_conv elim: seen.elims)

lemma exchange:
  assumes "serving A B k r st" "allocs_fresh A B als" "run_evs ina mal k evs r" "relay_run ina evs r = (out', r')"
    and "map ev_allocs evs = als" "k + length evs = k'"
  obtains out st' where "adaptor_run ina mal evs st = Some (out, st')" "map seen out = out'" "list_all sent_ok out"
    "serving (nodes_given als A) (bufs_given als B) k' r' st'"
  using serving_run [OF assms(1), of evs ina mal] assms(2-6) by auto

lemma ask_adaptor:
  assumes "serving A B k (idle_relay ib ib') st" "allocs_fresh A B [al, al', al'']" "k \<le> 1000" "malloc_good mal"
    and "dgram_wf dg" "packet_of (nd_of_bytes dg) = (n, [])" "length n \<le> 1024" "c_node al \<noteq> NULL"
  obtains p st' where "adaptor_run ina mal (ask_evs dg a w al al' al'') st = Some ([Nip_out p], st')"
    "ib_type p = TYPE_INTEREST" "ibuf_packet p = (n, [])"
    "serving (nodes_given [al, al', al''] A) (bufs_given [al, al', al''] B) (k + 3) (asked_relay n [a] ib ib') st'"
proof -
  have "run_evs ina mal k (ask_evs dg a w al al' al'') (idle_relay ib ib')" using assms(3-5) by simp
  note run = this ask_relay [OF assms(5-8), of ina a w al' al'' ib ib']
  obtain out st' where r: "adaptor_run ina mal (ask_evs dg a w al al' al'') st = Some (out, st')"
      "map seen out = [To_nip TYPE_INTEREST (n, [])]"
      "serving (nodes_given [al, al', al''] A) (bufs_given [al, al', al''] B) (k + 3) (asked_relay n [a] ib ib') st'"
    by (rule exchange [OF assms(1,2) run, where k' = "k + 3"]) simp_all
  then show ?thesis using one_seen_nip [OF r(2)] that by blast
qed

lemma answer_adaptor:
  assumes "serving A B k (asked_relay n [a] ib ib') st" "allocs_fresh A B [al, al', al'']" "k \<le> 1000"
    and "nip_network deliver" "fits_in p (ib'\<lparr>ib_type := TYPE_DATA, ib_nlen := MAX_NAME_LEN, ib_dlen := MAX_DATA_LEN\<rparr>)"
    and "ibuf_packet p = (n, v)" "ib_type p = TYPE_DATA" "length n + length v \<le> 2040" "c_node al \<noteq> NULL"
  obtains dg ib2 st' where "adaptor_run ina mal (answer_evs (deliver p) al al' al'') st = Some ([Udp_out a dg], st')"
    "length dg = 2048" "nd_ok (nd_of_bytes dg)" "packet_wf (nd_of_bytes dg)" "packet_of (nd_of_bytes dg) = (n, left_of p v)"
    "serving (nodes_given [al, al', al''] A) (bufs_given [al, al', al''] B) (k + 3) (idle_relay ib ib2) st'"
proof -
  let ?ib = "ib'\<lparr>ib_type := TYPE_DATA, ib_nlen := MAX_NAME_LEN, ib_dlen := MAX_DATA_LEN\<rparr>"
  obtain len ib2 where d: "deliver p ?ib = (len, ib2)" by fastforce
  have ib2: "0 < len" "received_ok ib2" "d_type ib2 = d_type p" "ibuf_packet ib2 = (n, v)"
    using nip_networkD [OF assms(4), of p ?ib] assms(5-7) d by auto
  note l = received_lengths [OF ib2(2,4)]
  have n: "length n \<le> 1024" using assms(5,6) by (simp add: fits_in_def MAX_NAME_LEN_def)
  have evs: "run_evs ina mal k (answer_evs (deliver p) al al' al'') (asked_relay n [a] ib ib')"
    using assms(3,8) d ib2(2) l n by (simp add: ibuf_name_ok_def ibuf_data_ok_def received_ok_def)
  have left: "left_of ib2 v = left_of p v" using ib2(3) by (simp add: left_of_def)
  note run = evs answer_relay [where irecv = "deliver p", OF d ib2(1,4) n assms(9), of ina al' al'' a ib, unfolded left]
  obtain out st' where r: "adaptor_run ina mal (answer_evs (deliver p) al al' al'') st = Some (out, st')"
      "map seen out = [To_udp a (n, left_of p v)]" "list_all sent_ok out"
      "serving (nodes_given [al, al', al''] A) (bufs_given [al, al', al''] B) (k + 3) (idle_relay ib ib2) st'"
    by (rule exchange [OF assms(1,2) run, where k' = "k + 3"]) simp_all
  obtain dg where "out = [Udp_out a dg]" "packet_of (nd_of_bytes dg) = (n, left_of p v)" using one_seen_udp [OF r(2)] by blast
  then show ?thesis using r that by auto
qed

lemma ask_inside_adaptor:
  assumes "serving A B k (idle_relay ib ib') st" "allocs_fresh A B [al, al', al'']" "k \<le> 1000"
    and "nip_network deliver" "fits_in p (ib\<lparr>ib_type := TYPE_INTEREST, ib_nlen := MAX_NAME_LEN, ib_dlen := MAX_DATA_LEN\<rparr>)"
    and "fst (ibuf_packet p) = n" "c_node al \<noteq> NULL"
  obtains dg ib2 st' where
    "adaptor_run ina mal (ask_inside_evs (deliver p) al al' al'') st = Some ([Udp_out (sim_addr ina) dg], st')"
    "length dg = 2048" "nd_ok (nd_of_bytes dg)" "packet_wf (nd_of_bytes dg)" "packet_of (nd_of_bytes dg) = (n, [])"
    "serving (nodes_given [al, al', al''] A) (bufs_given [al, al', al''] B) (k + 3) (idle_relay ib2 ib') st'"
proof -
  let ?ib = "ib\<lparr>ib_type := TYPE_INTEREST, ib_nlen := MAX_NAME_LEN, ib_dlen := MAX_DATA_LEN\<rparr>"
  obtain len ib2 where d: "deliver p ?ib = (len, ib2)" by fastforce
  have ib2: "0 < len" "received_ok ib2" "ibuf_packet ib2 = (n, snd (ibuf_packet ib2))"
    using nip_networkD(1-3) [OF assms(4), of p ?ib] assms(5,6) d by (auto simp: prod_eq_iff)
  have n: "length n \<le> 1024" using assms(5,6) by (simp add: fits_in_def MAX_NAME_LEN_def)
  have evs: "run_evs ina mal k (ask_inside_evs (deliver p) al al' al'') (idle_relay ib ib')"
    using assms(3) d ib2(2) received_lengths(1) [OF ib2(2,3)] n by (simp add: ibuf_name_ok_def received_ok_def)
  have name: "fst (ibuf_packet ib2) = n" using arg_cong [OF ib2(3), of fst] by simp
  note run = evs ask_inside_relay [where irecv = "deliver p", OF d ib2(1) name assms(7), of ina al' al'' ib']
  obtain out st' where r: "adaptor_run ina mal (ask_inside_evs (deliver p) al al' al'') st = Some (out, st')"
      "map seen out = [To_udp (sim_addr ina) (n, [])]" "list_all sent_ok out"
      "serving (nodes_given [al, al', al''] A) (bufs_given [al, al', al''] B) (k + 3) (idle_relay ib2 ib') st'"
    by (rule exchange [OF assms(1,2) run, where k' = "k + 3"]) simp_all
  obtain dg where "out = [Udp_out (sim_addr ina) dg]" "packet_of (nd_of_bytes dg) = (n, [])"
    using one_seen_udp [OF r(2)] by blast
  then show ?thesis using r that by auto
qed

lemma answer_inside_adaptor:
  assumes "serving A B k (idle_relay ib ib') st" "allocs_fresh A B [al, al', al'']" "k \<le> 1000"
    and "dgram_wf dg" "packet_of (nd_of_bytes dg) = (n, v)" "c_node al \<noteq> NULL"
  obtains p st' where "adaptor_run ina mal (answer_inside_evs dg w al al' al'') st = Some ([Nip_out p], st')"
    "ib_type p = TYPE_DATA" "ibuf_packet p = (n, v)"
    "serving (nodes_given [al, al', al''] A) (bufs_given [al, al', al''] B) (k + 3) (idle_relay ib ib') st'"
proof -
  have "run_evs ina mal k (answer_inside_evs dg w al al' al'') (idle_relay ib ib')" using assms(3,4) by simp
  note run = this answer_inside_relay [OF assms(4-6), of ina w al' al'' ib ib']
  obtain out st' where r: "adaptor_run ina mal (answer_inside_evs dg w al al' al'') st = Some (out, st')"
      "map seen out = [To_nip TYPE_DATA (n, v)]"
      "serving (nodes_given [al, al', al''] A) (bufs_given [al, al', al''] B) (k + 3) (idle_relay ib ib') st'"
    by (rule exchange [OF assms(1,2) run, where k' = "k + 3"]) simp_all
  then show ?thesis using one_seen_nip [OF r(2)] that by blast
qed


section \<open>The application\<close>

text \<open>What the application makes of a buffer whose packet has the name \<open>nm/seq\<close>.\<close>

lemma app_reads:
  assumes "nd_ok d" "packet_wf d" "packet_of d = (uri nm seq, v)" "CHR 0x00 \<notin> set nm" "unat seq < 10 ^ 9"
  shows "SendNDNInterest nonce d = Some (Ndn_interest nm seq nonce False 2000)"
    "SendNDNData d = Some (Ndn_data nm seq 1000 v False)"
proof -
  have len: "length (nd_buf d) = 2040" and wf: "unat (nd_nlen d) + unat (nd_dlen d) \<le> 2040"
    using assms(1,2) by (simp_all add: nd_ok_def packet_wf_def)
  have name: "take (unat (nd_nlen d)) (nd_buf d) = uri nm seq"
    and cont: "take (unat (nd_dlen d)) (drop (unat (nd_nlen d)) (nd_buf d)) = v"
    using assms(3) by (simp_all add: packet_of_def)
  have nl: "unat (nd_nlen d) = length (uri nm seq)" using arg_cong [OF name, of length] len wf by simp
  have dl: "unat (nd_dlen d) = length v" using arg_cong [OF cont, of length] len wf by simp
  have buf: "nd_buf d = uri nm seq @ drop (length (uri nm seq)) (nd_buf d)"
    using name nl append_take_drop_id by metis
  have "nd_nlen d = word_of_nat (length nm + 1 + length (decimal (unat seq)))"
    using arg_cong [OF nl, of "word_of_nat :: nat \<Rightarrow> u32"] by simp
  moreover have "length nm + 1 + length (decimal (unat seq)) \<le> 2040" using nl wf by simp
  moreover have "\<exists>rest. nd_buf d = nm @ CHR ''/'' # decimal (unat seq) @ rest" by (subst buf) auto
  ultimately have "named d nm (decimal (unat seq))"
    using assms(4) uri_digits [of "unat seq"] len decimal_nonempty [of "unat seq"] by (simp add: named_def)
  note split = split_named [OF this]
  have digits: "length (decimal (unat seq)) \<le> 9" using length_decimal_le [OF assms(5)] by simp
  have val: "word_of_int (atoi (decimal (unat seq))) = seq" by (simp add: atoi_decimal)
  show "SendNDNInterest nonce d = Some (Ndn_interest nm seq nonce False 2000)"
    using split digits val by (simp add: SendNDNInterest_def)
  have "drop (unat (nd_nlen d)) (nd_buf d) = v @ drop (length v) (drop (unat (nd_nlen d)) (nd_buf d))"
    using cont dl append_take_drop_id by metis
  then have "nd_buf d = uri nm seq @ v @ drop (length v) (drop (unat (nd_nlen d)) (nd_buf d))"
    using buf nl by metis
  then have "aslice (nd_buf d) (uint (nd_nlen d)) (uint (nd_dlen d)) = Some v"
    using aslice_mid [of "uri nm seq" v] nl dl unfolding uint_nat by metis
  then show "SendNDNData d = Some (Ndn_data nm seq 1000 v False)"
    using split digits val by (simp add: SendNDNData_def)
qed

text \<open>A tick with a datagram of 2048 bytes on one of the two sockets.\<close>

lemma tick_data:
  assumes "length dg = 2048" "length recv_buf = 2048" "SendNDNData (nd_of_bytes dg) = Some p" "times_ok vtime sec usec app"
  obtains delay app' where "ScheduleNextTick recv_buf [] dg nonce vtime sec usec app = Some ([p], delay, app')"
proof -
  have "dg \<noteq> []" using assms(1) by auto
  moreover have "recv_into dg (recv_into [] recv_buf) = dg" using assms(1,2) by (simp add: recv_into_def)
  ultimately have "\<exists>delay app'. ScheduleNextTick recv_buf [] dg nonce vtime sec usec app = Some ([p], delay, app')"
    using assms(3) AnalyzeTimeDiff_ok [of vtime sec usec "app\<lparr>m_totalticks := m_totalticks app + 1\<rparr>"] assms(4)
    by (simp add: ScheduleNextTick_def Let_def)
  then show ?thesis using that by blast
qed

lemma tick_interest:
  assumes "length dg = 2048" "length recv_buf = 2048" "SendNDNInterest nonce (nd_of_bytes dg) = Some p" "times_ok vtime sec usec app"
  obtains delay app' where "ScheduleNextTick recv_buf dg [] nonce vtime sec usec app = Some ([p], delay, app')"
proof -
  have "dg \<noteq> []" using assms(1) by auto
  moreover have "recv_into dg recv_buf = dg" using assms(1,2) by (simp add: recv_into_def)
  ultimately have "\<exists>delay app'. ScheduleNextTick recv_buf dg [] nonce vtime sec usec app = Some ([p], delay, app')"
    using assms(3) AnalyzeTimeDiff_ok [of vtime sec usec "app\<lparr>m_totalticks := m_totalticks app + 1\<rparr>"] assms(4)
    by (simp add: ScheduleNextTick_def Let_def)
  then show ?thesis using that by blast
qed

text \<open>The application asks, and answers.\<close>

lemma app_asks:
  assumes "CHR 0x00 \<notin> set nm" "unat (ucast seqno :: u32) < 10 ^ 9" "length nm \<le> 1013" "nd_ok junk"
  obtains dg where "OnInterest nm seqno junk app = Udp_send (m_data_udpfd app) (m_interest_raddr app) dg"
    "dgram_wf dg" "packet_of (nd_of_bytes dg) = (uri nm (ucast seqno), [])"
proof -
  let ?seq = "ucast seqno :: u32"
  have "length (uri nm ?seq) \<le> 1023" using assms(3) length_decimal_le [OF assms(2)] by simp
  note d = udp_interest_dgram [OF this assms(1,4)]
  show ?thesis by (rule that [OF _ d(2)]) (use d(3) in \<open>simp_all add: OnInterest_def SendUDPInterest_def Let_def\<close>)
qed

lemma app_answers:
  assumes "CHR 0x00 \<notin> set nm" "unat (ucast seqno :: u32) < 10 ^ 9" "length nm \<le> 1013" "nd_ok junk"
    and "length nm + length v \<le> 2030"
  obtains dg where "OnData nm seqno v junk app = Some (Udp_send (m_interest_udpfd app) (m_data_raddr app) dg)"
    "dgram_wf dg" "packet_of (nd_of_bytes dg) = (uri nm (ucast seqno), v)"
proof -
  let ?seq = "ucast seqno :: u32"
  have "length (uri nm ?seq) \<le> 1023" "length (uri nm ?seq) + length v \<le> 2040"
    using assms(3,5) length_decimal_le [OF assms(2)] by simp_all
  from udp_data_dgram [OF this(1) assms(1,4) this(2)]
  obtain b where b: "amemcpy (nd_buf (print_name nm ?seq junk)) (uint (nd_nlen (print_name nm ?seq junk))) v
       (uint (word_of_nat (length v) :: u32)) = Some b"
    "let d = (print_name nm ?seq junk)\<lparr>nd_dlen := word_of_nat (length v), nd_buf := b\<rparr>
     in dgram_wf (nd_bytes d) \<and> packet_of d = (uri nm ?seq, v)"
    by (auto simp: Let_def)
  show ?thesis
    by (rule that [of "nd_bytes ((print_name nm ?seq junk)\<lparr>nd_dlen := word_of_nat (length v), nd_buf := b\<rparr>)"])
       (use b in \<open>simp_all add: OnData_def SendUDPData_def Let_def\<close>)
qed

section \<open>The server\<close>

text \<open>A round at time \<open>t\<close> in which the server receives \<open>p\<close>; \<open>stack\<close> is what lies where its answer is declared.\<close>

definition time_env :: "(isockbuf \<Rightarrow> isockbuf \<Rightarrow> int \<times> isockbuf) \<Rightarrow> isockbuf \<Rightarrow> int \<Rightarrow> isockbuf \<Rightarrow> server_env" where
  "time_env deliver p t stack = \<lparr>s_irecv = deliver p, s_isend = (\<lambda>_. 0), s_time = t, d_junk = stack\<rparr>"

lemma server_answers:
  assumes "nip_network deliver" "ib_type p = TYPE_INTEREST" "fst (ibuf_packet p) = n" "length n \<le> 1024" "0 \<le> sock" "\<forall>x. 0 \<le> bind_sock sock x"
    and "length content = 1024"
  obtains received ans where
    "time_server sock bind_sock [time_env deliver p t stack] content junk = Some (Inr ([(received, ans)], 1))"
    "ib_type ans = TYPE_DATA" "d_type ans = d_type stack" "ibuf_packet ans = (n, time_text t)"
proof -
  let ?e = "time_env deliver p t stack" and ?ib = "server_ibuf junk"
  have "env_ok ?e" using nip_networkD(1,2) [OF assms(1)] by (simp add: env_ok_def time_env_def less_imp_le)
  from serve_ok [OF this assms(7), of ?ib 0] obtain ans where
    a: "serve ?e content ?ib 0 = Some (Inr (ans, snd (deliver p ?ib), 1))" "ib_type ans = TYPE_DATA"
      "ib_nlen ans = ib_nlen (snd (deliver p ?ib))" "ib_name ans = ib_name (snd (deliver p ?ib))"
      "take (unat (ib_dlen ans)) (ib_data ans) = time_text t" "d_type ans = d_type stack"
    by (auto simp: time_env_def)
  have "fits_in p ?ib" using assms(2-4) by (simp add: fits_in_def server_ibuf_def TYPE_INTEREST_def TYPE_DATA_def)
  then have "ibuf_packet ans = (n, time_text t)"
    using nip_networkD(3) [OF assms(1), of p ?ib] a(3-5) assms(3) by (simp add: ibuf_packet_def)
  moreover have "time_server sock bind_sock [?e] content junk = Some (Inr ([(snd (deliver p ?ib), ans)], 1))"
    using a(1) assms(5,6) by (simp add: time_server_def server_main_def not_less)
  ultimately show ?thesis using that a(2,6) by blast
qed


section \<open>A name asked for by the simulator\<close>

text \<open>
  From the interest given to the application to the data it hands to the simulator, with the adaptor at rest before
  and after.
\<close>

lemma time_exchange:
  assumes "serving A B k (idle_relay ib ib') st" "allocs_fresh A B [a0, a1, a2]"
    and "allocs_fresh (nodes_given [a0, a1, a2] A) (bufs_given [a0, a1, a2] B) [a3, a4, a5]"
    and "k \<le> 900" "malloc_good mal" "c_node a0 \<noteq> NULL" "c_node a3 \<noteq> NULL"
    and "nip_network deliver" "0 \<le> sock" "\<forall>x. 0 \<le> bind_sock sock x" "length content = 1024"
    and "CHR 0x00 \<notin> set nm" "unat (ucast seqno :: u32) < 10 ^ 9" "length nm \<le> 1013" "nd_ok junk" "length recv_buf = 2048"
    and "times_ok vtime sec usec app"
  obtains dg interest received ans dg' st1 st2 delay app' ib2 where
    "OnInterest nm seqno junk app = Udp_send (m_data_udpfd app) (m_interest_raddr app) dg"
    "adaptor_run ina mal (ask_evs dg a w a0 a1 a2) st = Some ([Nip_out interest], st1)"
    "time_server sock bind_sock [time_env deliver interest t stack] content ibuf = Some (Inr ([(received, ans)], 1))"
    "adaptor_run ina mal (answer_evs (deliver ans) a3 a4 a5) st1 = Some ([Udp_out a dg'], st2)"
    "ScheduleNextTick recv_buf [] dg' nonce vtime sec usec app
       = Some ([Ndn_data nm (ucast seqno) 1000 (left_of stack (time_text t)) False], delay, app')"
    "serving (nodes_given [a3, a4, a5] (nodes_given [a0, a1, a2] A)) (bufs_given [a3, a4, a5] (bufs_given [a0, a1, a2] B))
       (k + 3 + 3) (idle_relay ib ib2) st2"
proof -
  let ?n = "uri nm (ucast seqno)"
  have n: "length ?n \<le> 1023" using assms(14) length_decimal_le [OF assms(13)] by simp
  obtain dg where dg: "OnInterest nm seqno junk app = Udp_send (m_data_udpfd app) (m_interest_raddr app) dg"
      "dgram_wf dg" "packet_of (nd_of_bytes dg) = (?n, [])"
    by (rule app_asks [OF assms(12-15)])
  obtain p st1 where p: "adaptor_run ina mal (ask_evs dg a w a0 a1 a2) st = Some ([Nip_out p], st1)"
      "ib_type p = TYPE_INTEREST" "ibuf_packet p = (?n, [])"
      "serving (nodes_given [a0, a1, a2] A) (bufs_given [a0, a1, a2] B) (k + 3) (asked_relay ?n [a] ib ib') st1"
    by (rule ask_adaptor [OF assms(1,2) _ assms(5) dg(2,3) _ assms(6)]) (use n assms(4) in simp_all)
  obtain received ans where ans:
      "time_server sock bind_sock [time_env deliver p t stack] content ibuf = Some (Inr ([(received, ans)], 1))"
      "ib_type ans = TYPE_DATA" "d_type ans = d_type stack" "ibuf_packet ans = (?n, time_text t)"
    by (rule server_answers [where bind_sock = bind_sock and n = ?n, OF assms(8) p(2) _ _ assms(9-11)]) (use n p(3) in auto)
  have left: "left_of ans v = left_of stack v" for v using ans(3) by (simp add: left_of_def)
  obtain dg' ib2 st2 where o: "adaptor_run ina mal (answer_evs (deliver ans) a3 a4 a5) st1 = Some ([Udp_out a dg'], st2)"
      "length dg' = 2048" "nd_ok (nd_of_bytes dg')" "packet_wf (nd_of_bytes dg')"
      "packet_of (nd_of_bytes dg') = (?n, left_of stack (time_text t))"
      "serving (nodes_given [a3, a4, a5] (nodes_given [a0, a1, a2] A)) (bufs_given [a3, a4, a5] (bufs_given [a0, a1, a2] B))
         (k + 3 + 3) (idle_relay ib ib2) st2"
    by (rule answer_adaptor [OF p(4) assms(3) _ assms(8) _ ans(4,2) _ assms(7), unfolded left])
       (use n ans(2,4) length_time_text [of t] assms(4)
        in \<open>auto simp: fits_in_def MAX_NAME_LEN_def MAX_DATA_LEN_def\<close>)
  obtain delay app' where "ScheduleNextTick recv_buf [] dg' nonce vtime sec usec app
      = Some ([Ndn_data nm (ucast seqno) 1000 (left_of stack (time_text t)) False], delay, app')"
    by (rule tick_data [OF o(2) assms(16) app_reads(2) [OF o(3-5) assms(12,13)] assms(17)])
  from that [OF dg(1) p(1) ans(1) o(1) this o(6)] show ?thesis .
qed

lemma allocs_fresh_3:
  "allocs_fresh A B (a0 # a1 # a2 # als) \<longleftrightarrow> allocs_fresh A B [a0, a1, a2] \<and>
     allocs_fresh (nodes_given [a0, a1, a2] A) (bufs_given [a0, a1, a2] B) als"
  using allocs_fresh_append [of A B "[a0, a1, a2]" als] by simp

section \<open>A name asked for by the network\<close>

lemma ask_inside_app:
  assumes "serving A B k (idle_relay ib ib') st" "allocs_fresh A B [al, al', al'']" "k \<le> 1000" "nip_network deliver"
    and "fits_in p (ib\<lparr>ib_type := TYPE_INTEREST, ib_nlen := MAX_NAME_LEN, ib_dlen := MAX_DATA_LEN\<rparr>)"
    and "fst (ibuf_packet p) = uri nm seq" "c_node al \<noteq> NULL" "CHR 0x00 \<notin> set nm" "unat seq < 10 ^ 9"
    and "length recv_buf = 2048" "times_ok vtime sec usec app"
  obtains dg ib2 st' delay app' where
    "adaptor_run ina mal (ask_inside_evs (deliver p) al al' al'') st = Some ([Udp_out (sim_addr ina) dg], st')"
    "ScheduleNextTick recv_buf dg [] nonce vtime sec usec app = Some ([Ndn_interest nm seq nonce False 2000], delay, app')"
    "serving (nodes_given [al, al', al''] A) (bufs_given [al, al', al''] B) (k + 3) (idle_relay ib2 ib') st'"
proof -
  obtain dg ib2 st' where i:
    "adaptor_run ina mal (ask_inside_evs (deliver p) al al' al'') st = Some ([Udp_out (sim_addr ina) dg], st')"
    "length dg = 2048" "nd_ok (nd_of_bytes dg)" "packet_wf (nd_of_bytes dg)" "packet_of (nd_of_bytes dg) = (uri nm seq, [])"
    "serving (nodes_given [al, al', al''] A) (bufs_given [al, al', al''] B) (k + 3) (idle_relay ib2 ib') st'"
    by (rule ask_inside_adaptor [OF assms(1-7)])
  obtain delay app' where "ScheduleNextTick recv_buf dg [] nonce vtime sec usec app
      = Some ([Ndn_interest nm seq nonce False 2000], delay, app')"
    by (rule tick_interest [OF i(2) assms(10) app_reads(1) [OF i(3-5) assms(8,9)] assms(11)])
  from i(1) this i(6) show ?thesis by (rule that)
qed

lemma answer_inside_app:
  assumes "serving A B k (idle_relay ib ib') st" "allocs_fresh A B [al, al', al'']" "k \<le> 1000" "c_node al \<noteq> NULL"
    and "CHR 0x00 \<notin> set nm" "unat (ucast seqno :: u32) < 10 ^ 9" "length nm \<le> 1013" "nd_ok junk"
    and "length nm + length v \<le> 2030"
  obtains dg p st' where "OnData nm seqno v junk app = Some (Udp_send (m_interest_udpfd app) (m_data_raddr app) dg)"
    "adaptor_run ina mal (answer_inside_evs dg w al al' al'') st = Some ([Nip_out p], st')"
    "ib_type p = TYPE_DATA" "ibuf_packet p = (uri nm (ucast seqno), v)"
proof -
  obtain dg where dg: "OnData nm seqno v junk app = Some (Udp_send (m_interest_udpfd app) (m_data_raddr app) dg)"
    "dgram_wf dg" "packet_of (nd_of_bytes dg) = (uri nm (ucast seqno), v)"
    by (rule app_answers [OF assms(5-9)])
  obtain p st' where "adaptor_run ina mal (answer_inside_evs dg w al al' al'') st = Some ([Nip_out p], st')"
    "ib_type p = TYPE_DATA" "ibuf_packet p = (uri nm (ucast seqno), v)"
    by (rule answer_inside_adaptor [OF assms(1-3) dg(2,3) assms(4)])
  with dg(1) show ?thesis by (rule that)
qed

section \<open>The consumer and the provider\<close>

text \<open>The interest of \<open>consumer.c\<close>, and how the program ends when it is answered.\<close>

abbreviation asked_path :: "char list" where
  "asked_path \<equiv> ''/Rpi-1/lab1038/info/about/10Mfile.txt''"

lemma consumer_answered:
  assumes "nip_network deliver" "0 \<le> sock"
  obtains p where "ib_type p = TYPE_INTEREST" "fst (ibuf_packet p) = asked_path @ ''/3333''"
    "\<forall>ans v. ib_type ans = TYPE_DATA \<longrightarrow> ibuf_packet ans = (asked_path @ ''/3333'', v) \<longrightarrow> length v \<le> 4096 \<longrightarrow>
       (\<exists>dbuf. consumer sock (\<lambda>ib. if ib = p then 0 else -1) (deliver ans) junk djunk = Some (Inr dbuf)
            \<and> ibuf_packet dbuf = (asked_path @ ''/3333'', v))"
proof -
  let ?n = "asked_path @ ''/3333''"
  define p where "p = junk\<lparr>ib_type := TYPE_INTEREST, ib_nlen := word_of_nat (length ?n), ib_name := ?n @ [CHR 0x00]\<rparr>"
  let ?d = "djunk\<lparr>ib_type := TYPE_DATA, ib_nlen := 1024, ib_dlen := 4096\<rparr>"
  have "consumer sock (\<lambda>ib. if ib = p then 0 else -1) (deliver ans) junk djunk = Some (Inr (snd (deliver ans ?d)))
      \<and> ibuf_packet (snd (deliver ans ?d)) = (?n, v)"
    if ans: "ibuf_packet ans = (?n, v)" "length v \<le> 4096" "ib_type ans = TYPE_DATA" for ans v
  proof -
    have "fits_in ans ?d" using ans by (simp add: fits_in_def)
    note d = nip_networkD [OF assms(1), of ans ?d]
    have "consumer sock (\<lambda>ib. if ib = p then 0 else -1) (deliver ans) junk djunk = Some (Inr (snd (deliver ans ?d)))"
      using assms(2) d(1) received_log [OF d(2)]
      by (simp add: consumer_def p_def Let_def split_beta not_less)
    then show ?thesis using d(5) [OF \<open>fits_in ans ?d\<close> ans(3)] ans(1) by simp
  qed
  moreover have "ib_type p = TYPE_INTEREST" "fst (ibuf_packet p) = ?n"
    by (simp_all add: p_def ibuf_packet_def)
  ultimately show ?thesis using that by blast
qed

lemma asked_uri: "uri asked_path 3333 = asked_path @ ''/3333''"
  by (simp add: decimal.simps char_of_eq_iff)

text \<open>The provider asks for the time, and answers with what it gets.\<close>

abbreviation provider_text :: "char list \<Rightarrow> char list" where
  "provider_text v \<equiv> ''(3333)[I am a provider inside ndnSIM!]:['' @ v @ '']''"

lemma time_text_printed: "takeWhile (\<lambda>c. c \<noteq> CHR 0x00) (time_text t) = time_text t"
proof -
  have "CHR 0x00 \<notin> set (time_text t)"
    using uri_digits(2) by (auto simp: time_text_def signed_decimal_def)
  then show ?thesis by (intro takeWhile_eq_all_conv [THEN iffD2]) auto
qed

lemma left_printed: "takeWhile (\<lambda>c. c \<noteq> CHR 0x00) (left_of ib (time_text t)) = left_of ib (time_text t)"
  unfolding left_of_def using time_text_printed [of t] by (cases "d_type ib = D_NACK") (simp_all only: simp_thms if_True if_False takeWhile.simps)

lemma provider_answers:
  assumes "p_active prov" "takeWhile (\<lambda>c. c \<noteq> CHR 0x00) v = v" "length v \<le> 1000"
  obtains prov1 where
    "provider_step (Interest_arrives nonce (asked_path, 3333)) prov =
       Some ([P_interest (''/mixsim/real/time'', 3333) nonce False 1000], prov1)"
    "provider_step (Data_arrives (''/mixsim/real/time'', 3333) v junk) prov1 =
       Some ([P_data (asked_path, 3333) (p_freshness prov) (provider_text v) (p_key_locator prov)], prov1)"
proof -
  let ?prov = "prov\<lparr>p_interestName := (asked_path, 3333)\<rparr>"
  have answer: "answer_text (ucast (snd (''/mixsim/real/time'', 3333 :: u64))) v = provider_text v"
    by (simp add: answer_text_def assms(2) decimal.simps char_of_eq_iff)
  have "length (provider_text v) \<le> 2047" using assms(3) by simp
  then have "provider_OnData (''/mixsim/real/time'', 3333) v junk ?prov =
      Some (P_data (asked_path, 3333) (p_freshness prov) (provider_text v) (p_key_locator prov))"
    using OnData_fits [of "(''/mixsim/real/time'', 3333)" v junk ?prov] unfolding answer by simp
  then show ?thesis using assms(1) by (intro that [of ?prov]) (simp_all add: provider_OnInterest_def FetchTime_def)
qed

text \<open>Two interests before the first answer: the provider gives both answers under the second name.\<close>

abbreviation two_requests ::
  "u32 \<Rightarrow> ndn_name \<Rightarrow> ndn_name \<Rightarrow> char list \<Rightarrow> char list \<Rightarrow> char list \<Rightarrow> provider_event list" where
  "two_requests nonce n1 n2 v1 v2 junk \<equiv>
     [Interest_arrives nonce n1, Interest_arrives nonce n2,
      Data_arrives (''/mixsim/real/time'', ucast (ucast (snd n1) :: u32)) v1 junk,
      Data_arrives (''/mixsim/real/time'', ucast (ucast (snd n2) :: u32)) v2 junk]"

lemma provider_overtaken:
  assumes "p_active prov" and "unat (ucast s1 :: u32) < 10 ^ 9" and "unat (ucast s2 :: u32) < 10 ^ 9"
  defines "answer \<equiv> \<lambda>s t. answer_text (ucast s) (time_text t)"
  shows "provider_run (two_requests nonce (nm1, s1) (nm2, s2) (time_text t1) (time_text t2) pjunk) prov =
     Some ([FetchTime nonce (ucast s1), FetchTime nonce (ucast s2),
        P_data (nm2, s2) (p_freshness prov) (answer s1 t1) (p_key_locator prov),
        P_data (nm2, s2) (p_freshness prov) (answer s2 t2) (p_key_locator prov)], prov\<lparr>p_interestName := (nm2, s2)\<rparr>)"
    "length (answer s1 t1) \<le> 100" "length (answer s2 t2) \<le> 100"
proof -
  have len: "length (answer s t) \<le> 100" if "unat (ucast s :: u32) < 10 ^ 9" for s t
    using length_time_text [of t] length_decimal_le [OF that] by (simp add: answer_def answer_text_def time_text_printed)
  show "length (answer s1 t1) \<le> 100" "length (answer s2 t2) \<le> 100" using len assms(2,3) by simp_all
  have "provider_OnData (''/mixsim/real/time'', ucast (ucast s :: u32)) (time_text t) pjunk (prov\<lparr>p_interestName := (nm2, s2)\<rparr>) =
      Some (P_data (nm2, s2) (p_freshness prov) (answer s t) (p_key_locator prov))"
    if "unat (ucast s :: u32) < 10 ^ 9" for s t
  proof -
    have "ucast (ucast (ucast s :: u32) :: u64) = (ucast s :: u32)" by (rule ucast_up_ucast_id) (simp add: is_up)
    then show ?thesis
      using OnData_fits [of "(''/mixsim/real/time'', ucast (ucast s :: u32))" "time_text t" pjunk
          "prov\<lparr>p_interestName := (nm2, s2)\<rparr>"] len [OF that, of t]
      by (simp add: answer_def)
  qed
  then show "provider_run (two_requests nonce (nm1, s1) (nm2, s2) (time_text t1) (time_text t2) pjunk) prov =
     Some ([FetchTime nonce (ucast s1), FetchTime nonce (ucast s2),
        P_data (nm2, s2) (p_freshness prov) (answer s1 t1) (p_key_locator prov),
        P_data (nm2, s2) (p_freshness prov) (answer s2 t2) (p_key_locator prov)], prov\<lparr>p_interestName := (nm2, s2)\<rparr>)"
    using assms(1-3) by (simp add: provider_OnInterest_def)
qed

section \<open>Samples for the witnesses\<close>

text \<open>A network that delivers what fits and cuts the rest off.\<close>

definition sample_deliver :: "isockbuf \<Rightarrow> isockbuf \<Rightarrow> int \<times> isockbuf" where
  "sample_deliver p ib =
     (let (n, v) = if \<not> fits_in p ib then ([], [])
                   else if ib_type p = TYPE_DATA then ibuf_packet p else (fst (ibuf_packet p), [])
      in (1, ib\<lparr>ib_name := n, ib_nlen := word_of_nat (length n), ib_data := v, ib_dlen := word_of_nat (length v),
                ib_flags := ib_flags p\<rparr>))"

lemma sample_network: "nip_network sample_deliver"
proof -
  have u: "unat (word_of_nat n :: u16) = n" if "n \<le> unat (w :: u16)" for n w
    using that unsigned_less [of w, where 'a = nat] by (simp add: unsigned_of_nat take_bit_nat_eq_self)
  have v: "unat (word_of_nat n :: u64) = n" if "n \<le> 4096" for n
    using that by (simp add: unsigned_of_nat take_bit_nat_eq_self)
  have t: "take (min (length xs) n) xs = take n xs" for n and xs :: "char list"
    by (simp add: min_def)
  show ?thesis
    using u v by (auto simp: t nip_network_def sample_deliver_def received_ok_def ibuf_packet_def fits_in_def d_type_def split: prod.splits)
qed

lemma sample_allocs:
  assumes "n \<le> 1000"
  shows "allocs_fresh (init_nodes sample_init) (init_addrs sample_init) (map sample_alloc [0..<n])"
    "\<forall>k < n. c_node (sample_alloc k) \<noteq> NULL"
  using allocs_fresh_boot [OF assms] sample_alloc_addrs(4) assms by simp_all

definition sample_prov :: provider where
  "sample_prov = \<lparr>p_prefix = ''/Rpi-1/lab1038'', p_postfix = ''/'', p_virtualPayloadSize = 1024,
     p_active = True, p_freshness = 0, p_signature = 0, p_key_locator = [], p_interestName = ([], 0)\<rparr>"

end
