(* ===== verification/Scenario.thy ===== *)
theory Scenario
  imports App_Mixsim Provider "HOL-Library.Sublist"
begin

text \<open>
  How the simulation is put together: the attributes of the two applications with their defaults, as \<open>GetTypeId\<close> of each
  declares them, and the scenario \<open>ndn-simple.cpp\<close>, which creates three nodes and sets the attributes.

  In ns-3 an object is made by its constructor; then every attribute gets its default or the value set for it.  A value
  given as a string is converted to the type of the attribute.  Setting an attribute that does not exist, or one with
  a value of another type, ends the program: \<open>None\<close>.
\<close>

section \<open>Attributes\<close>

datatype attr_value =
    String_value "char list"
  | Integer_value int
  | Uinteger_value int
  | Time_value int
  | Name_value "char list"

type_synonym attribute = "char list \<times> attr_value"

definition AppMixSim_GetTypeId :: "attribute list" where
  "AppMixSim_GetTypeId =
     [(''Prefixes'', String_value ''/''),
      (''ILPort'', Integer_value 8787),
      (''IRPort'', Integer_value 8798),
      (''DLPort'', Integer_value 8788),
      (''DRPort'', Integer_value 8797),
      (''RAIP'', String_value ''127.0.0.1''),
      (''Signature'', Uinteger_value 0),
      (''KeyLocator'', Name_value [])]"

fun AppMixSim_accessor :: "attribute \<Rightarrow> app \<Rightarrow> app option" where
  "AppMixSim_accessor (n, String_value v) st =
     (if n = ''Prefixes'' then Some (st\<lparr>m_prefixes := v\<rparr>)
      else if n = ''RAIP'' then Some (st\<lparr>m_raip := v\<rparr>)
      else None)"
| "AppMixSim_accessor (n, Integer_value v) st =
     (if n = ''ILPort'' then Some (st\<lparr>m_interest_lport := v\<rparr>)
      else if n = ''IRPort'' then Some (st\<lparr>m_interest_rport := v\<rparr>)
      else if n = ''DLPort'' then Some (st\<lparr>m_data_lport := v\<rparr>)
      else if n = ''DRPort'' then Some (st\<lparr>m_data_rport := v\<rparr>)
      else None)"
| "AppMixSim_accessor (n, Uinteger_value v) st =
     (if n = ''Signature'' then Some (st\<lparr>m_signature := word_of_int v\<rparr>) else None)"
| "AppMixSim_accessor (n, Name_value v) st =
     (if n = ''KeyLocator'' then Some (st\<lparr>m_keyLocator := v\<rparr>) else None)"
| "AppMixSim_accessor (n, Time_value v) st = None"

definition ProducerVirtual_GetTypeId :: "attribute list" where
  "ProducerVirtual_GetTypeId =
     [(''Prefix'', String_value ''/''),
      (''Postfix'', String_value ''/''),
      (''PayloadSize'', Uinteger_value 1024),
      (''Freshness'', Time_value 0),
      (''Signature'', Uinteger_value 0),
      (''KeyLocator'', Name_value [])]"

text \<open>A time is in seconds here and in milliseconds in the state.\<close>

fun ProducerVirtual_accessor :: "attribute \<Rightarrow> provider \<Rightarrow> provider option" where
  "ProducerVirtual_accessor (n, String_value v) st =
     (if n = ''Prefix'' then Some (st\<lparr>p_prefix := v\<rparr>)
      else if n = ''Postfix'' then Some (st\<lparr>p_postfix := v\<rparr>)
      else if n = ''PayloadSize'' then Some (st\<lparr>p_virtualPayloadSize := word_of_int (atoi v)\<rparr>)
      else None)"
| "ProducerVirtual_accessor (n, Uinteger_value v) st =
     (if n = ''PayloadSize'' then Some (st\<lparr>p_virtualPayloadSize := word_of_int v\<rparr>)
      else if n = ''Signature'' then Some (st\<lparr>p_signature := word_of_int v\<rparr>)
      else None)"
| "ProducerVirtual_accessor (n, Time_value v) st =
     (if n = ''Freshness'' then Some (st\<lparr>p_freshness := v * 1000\<rparr>) else None)"
| "ProducerVirtual_accessor (n, Name_value v) st =
     (if n = ''KeyLocator'' then Some (st\<lparr>p_key_locator := v\<rparr>) else None)"
| "ProducerVirtual_accessor (n, Integer_value v) st = None"

fun set_attributes :: "(attribute \<Rightarrow> 's \<Rightarrow> 's option) \<Rightarrow> attribute list \<Rightarrow> 's \<Rightarrow> 's option" where
  "set_attributes acc [] st = Some st"
| "set_attributes acc (a # as) st = do { st \<leftarrow> acc a st; set_attributes acc as st }"

section \<open>The scenario\<close>

record scenario =
  channel_defaults :: "(char list \<times> char list) list"
  node_count :: nat
  links :: "(nat \<times> nat) list"
  strategies :: "(char list \<times> char list) list"
  mixsim_node :: nat
  mixsim :: app
  mixsim_stop :: int
  producer_node :: nat
  producer :: provider
  simulation_stop :: int

text \<open>
  What \<open>main\<close> builds before it runs the simulator; \<open>sock\<close> and \<open>getfl\<close> are what the constructor of the application
  asks the system for, \<open>st\<close> and \<open>pst\<close> the memory of the two objects before.
\<close>

definition ndn_simple ::
  "(nat \<Rightarrow> int) \<Rightarrow> (int \<Rightarrow> int) \<Rightarrow> app \<Rightarrow> provider \<Rightarrow> (exit_code + scenario) option" where
  "ndn_simple sock getfl st pst =
     (case AppMixSim sock getfl st of
        Inl x \<Rightarrow> Some (Inl x)
      | Inr (nb1, nb2, st) \<Rightarrow> do {
          st \<leftarrow> set_attributes AppMixSim_accessor AppMixSim_GetTypeId st;
          st \<leftarrow> set_attributes AppMixSim_accessor
                  [(''Prefixes'', String_value ''/mixsim$/demo$/nip/lab101''), (''ILPort'', Integer_value 8787),
                   (''DLPort'', Integer_value 8788), (''IRPort'', Integer_value 8798), (''DRPort'', Integer_value 8797),
                   (''RAIP'', String_value ''192.168.3.216'')] st;
          pst \<leftarrow> set_attributes ProducerVirtual_accessor ProducerVirtual_GetTypeId pst;
          pst \<leftarrow> set_attributes ProducerVirtual_accessor
                   [(''Prefix'', String_value ''/Rpi-1/lab1038''), (''PayloadSize'', String_value ''1024'')] pst;
          Some (Inr \<lparr>channel_defaults =
                       [(''ns3::PointToPointNetDevice::DataRate'', ''1Mbps''), (''ns3::PointToPointChannel::Delay'', ''10ms''),
                        (''ns3::DropTailQueue<Packet>::MaxSize'', ''20p'')],
                     node_count = 3, links = [(0, 1), (1, 2)],
                     strategies =
                       [(''/Rpi-1/lab1038'', ''/localhost/nfd/strategy/multicast''),
                        (''/mixsim/real'', ''/localhost/nfd/strategy/multicast'')],
                     mixsim_node = 0, mixsim = st, mixsim_stop = 150, producer_node = 2, producer = pst,
                     simulation_stop = 150\<rparr>)
        })"

section \<open>Facts\<close>

lemma ndn_simple_builds:
  assumes "0 \<le> sock 0" and "0 \<le> sock 1"
  shows "\<exists>sc. ndn_simple sock getfl st pst = Some (Inr sc)
     \<and> m_prefixes (mixsim sc) = ''/mixsim$/demo$/nip/lab101'' \<and> m_interest_lport (mixsim sc) = 8787
     \<and> m_data_lport (mixsim sc) = 8788 \<and> m_interest_rport (mixsim sc) = 8798 \<and> m_data_rport (mixsim sc) = 8797
     \<and> m_raip (mixsim sc) = ''192.168.3.216'' \<and> m_interest_udpfd (mixsim sc) = sock 0 \<and> m_data_udpfd (mixsim sc) = sock 1
     \<and> p_prefix (producer sc) = ''/Rpi-1/lab1038'' \<and> p_freshness (producer sc) = 0"
  using assms
  by (simp add: ndn_simple_def AppMixSim_def AppMixSim_GetTypeId_def ProducerVirtual_GetTypeId_def not_less)

end
