(* ===== verification/Isocket.thy ===== *)
theory Isocket
  imports Nsocket Buffers
begin

text \<open>
  The rest of the two socket headers: the wrappers of \<open>isockethdr.h\<close> around the named-data system calls, and the touch
  information of \<open>nsocket.h\<close> with the functions that read it.  The programs use \<open>isend\<close> and \<open>irecv\<close> only; elsewhere these two
  are arguments of the model, which stand for the calls below.
\<close>

section \<open>System calls\<close>

text \<open>The header knows two architectures; on others the numbers are not defined and it does not compile.\<close>

datatype arch = X86_64 | Arm

datatype nip_call =
    SYS_isend | SYS_irecv | SYS_touch | SYS_request | SYS_publish | SYS_unpublish
  | SYS_pump | SYS_unpump | SYS_cast | SYS_watch | SYS_unwatch | SYS_status

primrec x86_64_number :: "nip_call \<Rightarrow> int" where
  "x86_64_number SYS_isend = 333"
| "x86_64_number SYS_irecv = 334"
| "x86_64_number SYS_touch = 335"
| "x86_64_number SYS_request = 336"
| "x86_64_number SYS_publish = 337"
| "x86_64_number SYS_unpublish = 338"
| "x86_64_number SYS_pump = 339"
| "x86_64_number SYS_unpump = 340"
| "x86_64_number SYS_cast = 341"
| "x86_64_number SYS_watch = 342"
| "x86_64_number SYS_unwatch = 343"
| "x86_64_number SYS_status = 344"

primrec arm_number :: "nip_call \<Rightarrow> int" where
  "arm_number SYS_isend = 400"
| "arm_number SYS_irecv = 401"
| "arm_number SYS_touch = 402"
| "arm_number SYS_request = 403"
| "arm_number SYS_publish = 404"
| "arm_number SYS_unpublish = 405"
| "arm_number SYS_pump = 406"
| "arm_number SYS_unpump = 407"
| "arm_number SYS_cast = 408"
| "arm_number SYS_watch = 409"
| "arm_number SYS_unwatch = 410"
| "arm_number SYS_status = 411"

definition sys_number :: "arch \<Rightarrow> nip_call \<Rightarrow> int" where
  "sys_number ar c = (case ar of X86_64 \<Rightarrow> x86_64_number c | Arm \<Rightarrow> arm_number c)"

text \<open>
  An argument of \<open>syscall\<close> is a descriptor, a pointer, a size or an unsigned number.  \<open>syscall\<close> returns a \<open>long\<close>; the
  wrappers return its low 32 bits as an \<open>int\<close>.
\<close>

datatype sys_arg = Fd int | Ptr addr | Size u64 | Unsigned u32

type_synonym sys = "int \<Rightarrow> sys_arg list \<Rightarrow> int"

definition to_int :: "int \<Rightarrow> int" where
  "to_int r = sint (word_of_int r :: u32)"

definition isend :: "arch \<Rightarrow> sys \<Rightarrow> int \<Rightarrow> addr \<Rightarrow> u64 \<Rightarrow> u32 \<Rightarrow> int" where
  "isend ar sys fd ibuf len flags = to_int (sys (sys_number ar SYS_isend) [Fd fd, Ptr ibuf, Size len, Unsigned flags])"

definition irecv :: "arch \<Rightarrow> sys \<Rightarrow> int \<Rightarrow> addr \<Rightarrow> u64 \<Rightarrow> u32 \<Rightarrow> int" where
  "irecv ar sys fd ibuf len flags = to_int (sys (sys_number ar SYS_irecv) [Fd fd, Ptr ibuf, Size len, Unsigned flags])"

definition touch :: "arch \<Rightarrow> sys \<Rightarrow> int \<Rightarrow> addr \<Rightarrow> u64 \<Rightarrow> u32 \<Rightarrow> int" where
  "touch ar sys fd tbuf buf_size flags =
     to_int (sys (sys_number ar SYS_touch) [Fd fd, Ptr tbuf, Size buf_size, Unsigned flags])"

definition request :: "arch \<Rightarrow> sys \<Rightarrow> int \<Rightarrow> addr \<Rightarrow> u64 \<Rightarrow> int" where
  "request ar sys fd buf len = to_int (sys (sys_number ar SYS_request) [Fd fd, Ptr buf, Size len])"

definition publish :: "arch \<Rightarrow> sys \<Rightarrow> int \<Rightarrow> addr \<Rightarrow> u64 \<Rightarrow> int" where
  "publish ar sys fd buf len = to_int (sys (sys_number ar SYS_publish) [Fd fd, Ptr buf, Size len])"

definition unpublish :: "arch \<Rightarrow> sys \<Rightarrow> int \<Rightarrow> addr \<Rightarrow> u64 \<Rightarrow> int" where
  "unpublish ar sys fd name nlen = to_int (sys (sys_number ar SYS_unpublish) [Fd fd, Ptr name, Size nlen])"

definition pump :: "arch \<Rightarrow> sys \<Rightarrow> int \<Rightarrow> addr \<Rightarrow> u64 \<Rightarrow> u32 \<Rightarrow> u32 \<Rightarrow> int" where
  "pump ar sys fd buf len seg_limit flags =
     to_int (sys (sys_number ar SYS_pump) [Fd fd, Ptr buf, Size len, Unsigned seg_limit, Unsigned flags])"

definition unpump :: "arch \<Rightarrow> sys \<Rightarrow> int \<Rightarrow> addr \<Rightarrow> u64 \<Rightarrow> int" where
  "unpump ar sys fd name nlen = to_int (sys (sys_number ar SYS_unpump) [Fd fd, Ptr name, Size nlen])"

definition cast :: "arch \<Rightarrow> sys \<Rightarrow> int \<Rightarrow> addr \<Rightarrow> u64 \<Rightarrow> u32 \<Rightarrow> int" where
  "cast ar sys fd buf len life_time =
     to_int (sys (sys_number ar SYS_cast) [Fd fd, Ptr buf, Size len, Unsigned life_time])"

definition watch :: "arch \<Rightarrow> sys \<Rightarrow> int \<Rightarrow> addr \<Rightarrow> u64 \<Rightarrow> int" where
  "watch ar sys fd name nlen = to_int (sys (sys_number ar SYS_watch) [Fd fd, Ptr name, Size nlen])"

definition unwatch :: "arch \<Rightarrow> sys \<Rightarrow> int \<Rightarrow> addr \<Rightarrow> u64 \<Rightarrow> int" where
  "unwatch ar sys fd name nlen = to_int (sys (sys_number ar SYS_unwatch) [Fd fd, Ptr name, Size nlen])"

definition status_call :: "arch \<Rightarrow> sys \<Rightarrow> int \<Rightarrow> addr \<Rightarrow> u64 \<Rightarrow> u32 \<Rightarrow> int" where
  "status_call ar sys fd stat_buf buf_len flags =
     to_int (sys (sys_number ar SYS_status) [Fd fd, Ptr stat_buf, Size buf_len, Unsigned flags])"

text \<open>Different wrappers reach different system calls; results an \<open>int\<close> can hold are passed on.\<close>

lemma sys_number_inj: "sys_number ar c = sys_number ar d \<Longrightarrow> c = d"
  by (cases ar; cases c; cases d) (simp_all add: sys_number_def)

lemma to_int_id: "- (2 ^ 31) \<le> r \<Longrightarrow> r < 2 ^ 31 \<Longrightarrow> to_int r = r"
  by (simp add: to_int_def signed_of_int signed_take_bit_int_eq_self)

lemma to_int_wraps: "to_int (2 ^ 32) = 0" "to_int (2 ^ 31) = - (2 ^ 31)"
  by (simp_all add: to_int_def)

section \<open>Touch information\<close>

text \<open>
  The union in \<open>struct touch_info\<close> as its 20 bytes, in little-endian order.  \<open>cmn_tinfo\<close> has \<open>base_name_len\<close> at 0, \<open>pin\<close> at
  2, two bytes of padding, \<open>min_seg_num\<close> at 8, \<open>max_seg_num\<close> at 12, \<open>mtu\<close> at 16 and \<open>pkt_len\<close> at 18; \<open>gen_tinfo\<close> has
  \<open>tbuf_len\<close> at 0 and its data from 2 on; the data of \<open>nack_tinfo\<close> begins at 0.
\<close>

record touch_info =
  touchinfo_type :: u16
  ti_name :: "char list"
  ti_nlen :: u16
  ti_nack :: bool
  ti_nack_clen :: u16
  ti_realsize :: u32
  ti_union :: "char list"

definition bytes_u16 :: "char list \<Rightarrow> u16" where
  "bytes_u16 cs = word_of_nat (horner_sum of_char 256 cs)"

definition u16_bytes :: "u16 \<Rightarrow> char list" where
  "u16_bytes w = map (\<lambda>i. char_of (unat (drop_bit (8 * i) w))) [0, 1]"

definition field :: "nat \<Rightarrow> nat \<Rightarrow> touch_info \<Rightarrow> char list" where
  "field off n t = take n (drop off (ti_union t))"

definition cmn_tinfo_basenamelen :: "touch_info \<Rightarrow> u16" where
  "cmn_tinfo_basenamelen t = bytes_u16 (field 0 2 t)"

definition cmn_tinfo_pin :: "touch_info \<Rightarrow> char list" where
  "cmn_tinfo_pin t = drop 2 (ti_union t)"

definition cmn_tinfo_minsegnum :: "touch_info \<Rightarrow> u32" where
  "cmn_tinfo_minsegnum t = bytes_u32 (field 8 4 t)"

definition cmn_tinfo_maxsegnum :: "touch_info \<Rightarrow> u32" where
  "cmn_tinfo_maxsegnum t = bytes_u32 (field 12 4 t)"

definition cmn_tinfo_mtu :: "touch_info \<Rightarrow> u32" where
  "cmn_tinfo_mtu t = ucast (bytes_u16 (field 16 2 t))"

definition cmn_tinfo_pktlen :: "touch_info \<Rightarrow> u16" where
  "cmn_tinfo_pktlen t = bytes_u16 (field 18 2 t)"

definition gen_tinfo_len :: "touch_info \<Rightarrow> u16" where
  "gen_tinfo_len t = bytes_u16 (field 0 2 t)"

definition gen_tinfo_data :: "touch_info \<Rightarrow> char list" where
  "gen_tinfo_data t = drop 2 (ti_union t)"

definition nack_tinfo_data :: "touch_info \<Rightarrow> char list" where
  "nack_tinfo_data t = ti_union t"

text \<open>The members as they lie in memory.\<close>

definition cmn_tinfo_bytes :: "u16 \<Rightarrow> char list \<Rightarrow> char list \<Rightarrow> u32 \<Rightarrow> u32 \<Rightarrow> u16 \<Rightarrow> u16 \<Rightarrow> char list" where
  "cmn_tinfo_bytes base_name_len pin pad min_seg_num max_seg_num mtu pkt_len =
     u16_bytes base_name_len @ pin @ pad @ u32_bytes min_seg_num @ u32_bytes max_seg_num @ u16_bytes mtu @ u16_bytes pkt_len"

lemma length_u16_bytes [simp]: "length (u16_bytes w) = 2"
  by (simp add: u16_bytes_def)

lemma bytes_u16_bytes [simp]: "bytes_u16 (u16_bytes w) = w"
proof -
  have "unat w div 256 < 256"
    using unsigned_less [of w, where 'a = nat] by (simp add: less_mult_imp_div_less)
  then have "unat w mod 256 + 256 * (unat w div 256 mod 256) = unat w"
    by (simp add: mod_less)
  then have "horner_sum of_char 256 (u16_bytes w) = unat w"
    by (simp add: u16_bytes_def drop_bit_eq_div unat_div)
  then show ?thesis by (simp add: bytes_u16_def)
qed

text \<open>The functions read the members; those for general information read the same bytes as length and data.\<close>

lemma tinfo_members:
  assumes "ti_union t = cmn_tinfo_bytes bl pin pad mn mx mtu pl" "length pin = 4" "length pad = 2"
  shows "cmn_tinfo_basenamelen t = bl" "take 4 (cmn_tinfo_pin t) = pin" "cmn_tinfo_minsegnum t = mn"
    "cmn_tinfo_maxsegnum t = mx" "cmn_tinfo_mtu t = ucast mtu" "cmn_tinfo_pktlen t = pl"
    "gen_tinfo_len t = bl" "gen_tinfo_data t = cmn_tinfo_pin t" "nack_tinfo_data t = u16_bytes bl @ gen_tinfo_data t"
  using assms
  by (simp_all add: cmn_tinfo_bytes_def cmn_tinfo_basenamelen_def cmn_tinfo_pin_def cmn_tinfo_minsegnum_def
      cmn_tinfo_maxsegnum_def cmn_tinfo_mtu_def cmn_tinfo_pktlen_def gen_tinfo_len_def gen_tinfo_data_def
      nack_tinfo_data_def field_def)

section \<open>The length of a name\<close>

text \<open>\<open>_get_nlen\<close> with a bound inside the array: the position of the first newline before the bound, or the bound.\<close>

lemma get_nlen_loop_eq:
  assumes "b \<le> length nm" "i \<le> b" "CHR 0x0A \<notin> set (drop i (take b (take n nm)))" "n \<le> b" "i \<le> n"
    and "n = b \<or> nm ! n = CHR 0x0A"
  shows "get_nlen_loop nm (int b) (int i) = Some (int n)"
  using assms(2,3,5)
proof (induction "n - i" arbitrary: i)
  case 0
  then have "i = n" by simp
  then show ?case
    using assms(1,4,6) by (cases "n = b") (simp_all add: get_nlen_loop.simps aread_def)
next
  case (Suc d)
  then have lt: "i < n" by simp
  have "drop i (take b (take n nm)) = nm ! i # drop (Suc i) (take b (take n nm))"
    using lt assms(1,4) by (simp add: Cons_nth_drop_Suc [symmetric] min_def)
  then have ne: "nm ! i \<noteq> CHR 0x0A" and rest: "CHR 0x0A \<notin> set (drop (Suc i) (take b (take n nm)))"
    using Suc.prems(2) by auto
  have "get_nlen_loop nm (int b) (int (Suc i)) = Some (int n)"
    by (rule Suc.hyps(1)) (use Suc.hyps(2) lt rest assms(4) in simp_all)
  then show ?case
    using ne lt assms(1,4) by (subst get_nlen_loop.simps) (simp add: aread_def add.commute)
qed

lemma get_nlen_eq:
  assumes "b \<le> length nm"
  shows "get_nlen nm (int b) = Some (int (length (takeWhile (\<lambda>c. c \<noteq> CHR 0x0A) (take b nm))))"
proof -
  let ?w = "takeWhile (\<lambda>c. c \<noteq> CHR 0x0A) (take b nm)" and ?n = "length (takeWhile (\<lambda>c. c \<noteq> CHR 0x0A) (take b nm))"
  have n: "?n \<le> b" using length_takeWhile_le [of "\<lambda>c. c \<noteq> CHR 0x0A" "take b nm"] by simp
  have "take ?n nm = ?w" using takeWhile_eq_take [of "\<lambda>c. c \<noteq> CHR 0x0A" "take b nm"] n by (simp add: min_def)
  then have "CHR 0x0A \<notin> set (drop 0 (take b (take ?n nm)))"
    using set_takeWhileD [of _ "\<lambda>c. c \<noteq> CHR 0x0A" "take b nm"] n by (auto dest!: in_set_takeD)
  moreover have "?n = b \<or> nm ! ?n = CHR 0x0A"
    using nth_length_takeWhile [of "\<lambda>c. c \<noteq> CHR 0x0A" "take b nm"] assms n by (cases "?n = b") auto
  ultimately show ?thesis using get_nlen_loop_eq [of b nm 0 ?n] assms n by (simp add: get_nlen_def)
qed

end
