(* ===== verification/Progress.thy ===== *)
theory Progress
  imports Mixsim_Prelude "HOL-Library.Sublist"
begin

text \<open>
  Progress of a program that is resumed by a scheduler nobody knows: what its steps promise, stated as locales, and
  what then happens in every run in which some turns come often enough.  A turn is a step the scheduler has to
  take from time to time; a run is the list of the steps it takes.
\<close>

fun steps :: "('e \<Rightarrow> 's \<Rightarrow> 'o list \<times> 's) \<Rightarrow> 'e list \<Rightarrow> 's \<Rightarrow> 'o list \<times> 's" where
  "steps step [] s = ([], s)"
| "steps step (e # es) s =
     (let (out, s) = step e s; (outs, s) = steps step es s in (out @ outs, s))"

definition turns :: "('e \<Rightarrow> bool) \<Rightarrow> 'e list \<Rightarrow> nat" where
  "turns turn es = length (filter turn es)"

lemma turns_simps [simp]:
  "turns turn [] = 0" "turns turn (e # es) = (if turn e then 1 else 0) + turns turn es"
  by (simp_all add: turns_def)

section \<open>Channels\<close>

text \<open>
  A channel takes packets in at its end and emits them at its front: what it emits in a step and what is
  then left is what was pending and what it accepts.  What it emits is among the outputs of the step.  \<open>ok\<close> is what
  the channel needs of a step, \<open>inv\<close> what it keeps of the state.
\<close>

locale channel =
  fixes step :: "'e \<Rightarrow> 's \<Rightarrow> 'o list \<times> 's"
    and ok :: "'e \<Rightarrow> bool"
    and inv :: "'s \<Rightarrow> bool"
    and pending :: "'s \<Rightarrow> 'p list"
    and accepted :: "'e \<Rightarrow> 's \<Rightarrow> 'p list"
    and emitted :: "'e \<Rightarrow> 's \<Rightarrow> 'p list"
    and packets :: "'o list \<Rightarrow> 'p list"
  assumes inv_step: "inv s \<Longrightarrow> ok e \<Longrightarrow> inv (snd (step e s))"
    and conserve: "inv s \<Longrightarrow> ok e \<Longrightarrow> emitted e s @ pending (snd (step e s)) = pending s @ accepted e s"
    and visible: "inv s \<Longrightarrow> ok e \<Longrightarrow> subseq (emitted e s) (packets (fst (step e s)))"
    and packets_append: "packets (xs @ ys) = packets xs @ packets ys"
begin

fun emitted_run :: "'e list \<Rightarrow> 's \<Rightarrow> 'p list" where
  "emitted_run [] s = []"
| "emitted_run (e # es) s = emitted e s @ emitted_run es (snd (step e s))"

fun accepted_run :: "'e list \<Rightarrow> 's \<Rightarrow> 'p list" where
  "accepted_run [] s = []"
| "accepted_run (e # es) s = accepted e s @ accepted_run es (snd (step e s))"

lemma run_conserves:
  assumes "inv s" "list_all ok es"
  shows "emitted_run es s @ pending (snd (steps step es s)) = pending s @ accepted_run es s"
  using assms
proof (induction es arbitrary: s)
  case Nil
  then show ?case by simp
next
  case (Cons e es)
  then show ?case using Cons.IH [OF inv_step, of s e] conserve [of s e] by (simp add: split_beta)
qed

lemma run_visible:
  assumes "inv s" "list_all ok es"
  shows "subseq (emitted_run es s) (packets (fst (steps step es s)))"
  using assms
proof (induction es arbitrary: s)
  case Nil
  then show ?case by simp
next
  case (Cons e es)
  then have "subseq (emitted e s) (packets (fst (step e s)))"
      "subseq (emitted_run es (snd (step e s))) (packets (fst (steps step es (snd (step e s)))))"
    using inv_step visible by simp_all
  then show ?case by (simp add: split_beta packets_append list_emb_append_mono)
qed

end

text \<open>
  A channel that is served: \<open>work\<close> is how many turns come before the next packet is emitted, always less than
  \<open>bound\<close>.
\<close>

locale served_channel = channel step ok inv pending accepted emitted packets
  for step :: "'e \<Rightarrow> 's \<Rightarrow> 'o list \<times> 's"
    and ok :: "'e \<Rightarrow> bool"
    and inv :: "'s \<Rightarrow> bool"
    and pending :: "'s \<Rightarrow> 'p list"
    and accepted :: "'e \<Rightarrow> 's \<Rightarrow> 'p list"
    and emitted :: "'e \<Rightarrow> 's \<Rightarrow> 'p list"
    and packets :: "'o list \<Rightarrow> 'p list" +
  fixes turn :: "'e \<Rightarrow> bool"
    and work :: "'s \<Rightarrow> nat"
    and bound :: nat
  assumes progress: "inv s \<Longrightarrow> ok e \<Longrightarrow> pending s \<noteq> [] \<Longrightarrow> emitted e s = [] \<Longrightarrow>
      work (snd (step e s)) + (if turn e then 1 else 0) \<le> work s"
    and work_bound: "work s < bound"
begin

lemma emits_within:
  assumes "inv s" "list_all ok es" "n \<le> length (pending s)" "0 < n" "work s + 1 + bound * (n - 1) \<le> turns turn es"
  shows "n \<le> length (emitted_run es s)"
  using assms
proof (induction es arbitrary: s n)
  case Nil
  then show ?case by simp
next
  case (Cons e es)
  let ?s = "snd (step e s)" and ?m = "length (emitted e s)"
  have ok: "ok e" "list_all ok es" "inv ?s" using Cons.prems(1,2) inv_step by simp_all
  have len: "?m + length (pending ?s) = length (pending s) + length (accepted e s)"
    using arg_cong [OF conserve [OF Cons.prems(1) ok(1)], of length] by simp
  show ?case
  proof (cases "?m = 0")
    case True
    moreover have "pending s \<noteq> []" using Cons.prems(3,4) by auto
    ultimately have "work ?s + (if turn e then 1 else 0) \<le> work s" using progress [OF Cons.prems(1) ok(1)] by simp
    then have "work ?s + 1 + bound * (n - 1) \<le> turns turn es" using Cons.prems(5) by (auto split: if_splits)
    then show ?thesis using Cons.IH [OF ok(3,2), of n] len True Cons.prems(3,4) by simp
  next
    case False
    show ?thesis
    proof (cases "n \<le> ?m")
      case True
      then show ?thesis by simp
    next
      case more: False
      have "work ?s + 1 + bound * (n - ?m - 1) \<le> bound + bound * (n - ?m - 1)" using work_bound [of ?s] by simp
      also have "\<dots> = bound * (n - ?m)" using more by (cases "n - ?m") simp_all
      also have "\<dots> \<le> bound * (n - 1)" using False by (intro mult_le_mono diff_le_mono2 order_refl) linarith
      also have "\<dots> \<le> turns turn es" using Cons.prems(5) by (auto split: if_splits)
      finally have "n - ?m \<le> length (emitted_run es ?s)"
        using Cons.IH [OF ok(3,2), of "n - ?m"] len Cons.prems(3) more by linarith
      then show ?thesis by simp
    qed
  qed
qed

text \<open>The first \<open>n\<close> packets leave, in their order, when there are enough turns.\<close>

lemma emitted_first:
  assumes "inv s" "list_all ok es" "n \<le> length (pending s)" "bound * n \<le> turns turn es"
  shows "prefix (take n (pending s)) (emitted_run es s)"
proof -
  have "n \<le> length (emitted_run es s)"
  proof (cases n)
    case (Suc k)
    then have "work s + 1 + bound * (n - 1) \<le> turns turn es" using assms(4) work_bound [of s] by simp
    then show ?thesis using emits_within [OF assms(1-3)] Suc by blast
  qed simp
  then have "take n (pending s) = take n (emitted_run es s)"
    using arg_cong [OF run_conserves [OF assms(1,2)], of "take n"] assms(3) by simp
  then show ?thesis using take_is_prefix by metis
qed

lemma pending_leave:
  assumes "inv s" "list_all ok es" "n \<le> length (pending s)" "bound * n \<le> turns turn es"
  shows "subseq (take n (pending s)) (packets (fst (steps step es s)))"
  using prefix_imp_subseq [OF emitted_first [OF assms]] run_visible [OF assms(1,2)] by (rule subseq_order.trans)

end

section \<open>Answers\<close>

text \<open>
  Whenever something is \<open>due\<close>, a step either outputs it or leaves it due, and \<open>work\<close> turns at most come before.
\<close>

locale response =
  fixes step :: "'e \<Rightarrow> 's \<Rightarrow> 'o list \<times> 's"
    and inv :: "'s \<Rightarrow> bool"
    and due :: "'s \<Rightarrow> bool"
    and turn :: "'e \<Rightarrow> bool"
    and work :: "'s \<Rightarrow> nat"
    and goal :: "'o \<Rightarrow> bool"
  assumes inv_step: "inv s \<Longrightarrow> inv (snd (step e s))"
    and due_step: "inv s \<Longrightarrow> due s \<Longrightarrow> (\<exists>x \<in> set (fst (step e s)). goal x) \<or>
      due (snd (step e s)) \<and> work (snd (step e s)) + (if turn e then 1 else 0) \<le> work s"
begin

lemma inv_steps: "inv s \<Longrightarrow> inv (snd (steps step es s))"
  by (induction es arbitrary: s) (simp_all add: split_beta inv_step)

lemma answered:
  assumes "inv s" "due s" "work s < turns turn es"
  shows "\<exists>x \<in> set (fst (steps step es s)). goal x"
  using assms
proof (induction es arbitrary: s)
  case Nil
  then show ?case by simp
next
  case (Cons e es)
  let ?s = "snd (step e s)"
  consider (now) "\<exists>x \<in> set (fst (step e s)). goal x"
    | (later) "due ?s" "work ?s + (if turn e then 1 else 0) \<le> work s"
    using due_step [OF Cons.prems(1,2)] by blast
  then show ?case
  proof cases
    case now
    then show ?thesis by (auto simp: split_beta)
  next
    case later
    then have "work ?s < turns turn es" using Cons.prems(3) by (auto split: if_splits)
    then show ?thesis using Cons.IH [OF inv_step [OF Cons.prems(1)] later(1)] by (auto simp: split_beta)
  qed
qed

end

end
