(* ===== verification/Adaptor_Live.thy ===== *)
theory Adaptor_Live
  imports Progress Adaptor_Serving
begin

text \<open>
  The adaptor under a scheduler nobody knows: whatever else runs in between, a packet that has been queued leaves,
  and a client whose data has arrived gets it, once the coroutine in charge has been resumed often enough.
  Here for the relay, as interpretations of the contracts of \<open>Progress\<close>; the adaptor follows by its refinement.
\<close>

lemma relay_run_steps: "relay_run ina evs r = steps (relay_step ina) evs r"
  by (induction evs arbitrary: r) (simp_all add: split_beta)

section \<open>The queues that one coroutine empties\<close>

text \<open>The packets among the outputs that come out of a queue, and the steps that take from it.\<close>

fun carried :: "(char list \<Rightarrow> u32) \<Rightarrow> queue_id \<Rightarrow> relay_out \<Rightarrow> packet list" where
  "carried ina Realtosim_interest_queue (To_udp a p) = (if a = sim_addr ina then [p] else [])"
| "carried ina Simtoreal_interest_queue (To_nip t p) = (if t = TYPE_INTEREST then [p] else [])"
| "carried ina Simtoreal_data_queue (To_nip t p) = (if t = TYPE_DATA then [p] else [])"
| "carried ina _ _ = []"

definition packets_of :: "(char list \<Rightarrow> u32) \<Rightarrow> queue_id \<Rightarrow> relay_out list \<Rightarrow> packet list" where
  "packets_of ina i outs = concat (map (carried ina i) outs)"

lemma packets_of_simps [simp]:
  "packets_of ina i [] = []" "packets_of ina i (x # xs) = carried ina i x @ packets_of ina i xs"
  "packets_of ina i (xs @ ys) = packets_of ina i xs @ packets_of ina i ys"
  by (simp_all add: packets_of_def)

fun takes_from :: "queue_id \<Rightarrow> event \<Rightarrow> bool" where
  "takes_from Realtosim_interest_queue (Udp_interest_out al) = True"
| "takes_from Simtoreal_interest_queue (Nip_interest_out w al) = True"
| "takes_from Simtoreal_data_queue (Nip_data_out w al) = True"
| "takes_from Realtosim_data_queue (Udp_data_out al) = True"
| "takes_from _ _ = False"

text \<open>A turn of the coroutine; \<open>nip_data_out\<close> and \<open>nip_interest_out\<close> send when \<open>dyco_poll\<close> says the socket is ready.\<close>

fun turn_of :: "queue_id \<Rightarrow> event \<Rightarrow> bool" where
  "turn_of Realtosim_interest_queue (Udp_interest_out al) = True"
| "turn_of Simtoreal_interest_queue (Nip_interest_out w al) = (0 < w)"
| "turn_of Simtoreal_data_queue (Nip_data_out w al) = (0 < w)"
| "turn_of Realtosim_data_queue (Udp_data_out al) = True"
| "turn_of _ _ = False"

text \<open>An interest leaves without what its buffer holds behind the name.\<close>

definition stripped :: "packet \<Rightarrow> packet" where
  "stripped p = (fst p, [])"

fun pending_of :: "queue_id \<Rightarrow> relay \<Rightarrow> packet list" where
  "pending_of Simtoreal_interest_queue r =
     map stripped ((case to_nip_interest r of None \<Rightarrow> [] | Some p \<Rightarrow> [p]) @ chan r Simtoreal_interest_queue)"
| "pending_of Simtoreal_data_queue r =
     (case to_nip_data r of None \<Rightarrow> [] | Some p \<Rightarrow> [p]) @ chan r Simtoreal_data_queue"
| "pending_of i r = chan r i"

fun work_of :: "queue_id \<Rightarrow> relay \<Rightarrow> nat" where
  "work_of Simtoreal_interest_queue r = (case to_nip_interest r of None \<Rightarrow> 1 | Some p \<Rightarrow> 0)"
| "work_of Simtoreal_data_queue r = (case to_nip_data r of None \<Rightarrow> 1 | Some p \<Rightarrow> 0)"
| "work_of i r = (case to_sim r of None \<Rightarrow> 0 | Some p \<Rightarrow> 1)"

definition emitted_of :: "(char list \<Rightarrow> u32) \<Rightarrow> queue_id \<Rightarrow> event \<Rightarrow> relay \<Rightarrow> packet list" where
  "emitted_of ina i ev r = (if takes_from i ev then packets_of ina i (fst (relay_step ina ev r)) else [])"

text \<open>What a step appends to a queue.\<close>

definition appended_to :: "(char list \<Rightarrow> u32) \<Rightarrow> queue_id \<Rightarrow> event \<Rightarrow> relay \<Rightarrow> packet list" where
  "appended_to ina i ev r =
     (if takes_from i ev then []
      else map (if i = Simtoreal_interest_queue then stripped else id)
             (drop (length (chan r i)) (chan (snd (relay_step ina ev r)) i)))"

lemma push_sel [simp]:
  "to_sim (push i al p r) = to_sim r" "to_clients (push i al p r) = to_clients r"
  "to_nip_data (push i al p r) = to_nip_data r" "to_nip_interest (push i al p r) = to_nip_interest r"
  "waiting (push i al p r) = waiting r"
  "chan (push i al p r) j = chan r j @ (if j = i \<and> c_node al \<noteq> NULL then [p] else [])"
  by (auto simp: push_def)

lemmas channel_simps = emitted_of_def appended_to_def stripped_def TYPE_INTEREST_def TYPE_DATA_def Let_def

lemma emitted_visible: "subseq (emitted_of ina i ev r) (packets_of ina i (fst (relay_step ina ev r)))"
  by (simp add: emitted_of_def)

interpretation nip_interests: served_channel "relay_step ina" "\<lambda>_. True" "\<lambda>_. True" "pending_of Simtoreal_interest_queue"
  "appended_to ina Simtoreal_interest_queue" "emitted_of ina Simtoreal_interest_queue"
  "packets_of ina Simtoreal_interest_queue" "turn_of Simtoreal_interest_queue"
  "work_of Simtoreal_interest_queue" 2 for ina
proof (unfold_locales, goal_cases)
  case (2 r ev)
  show ?case by (cases ev) (auto simp: channel_simps split: option.splits list.splits prod.splits)
next
  case (5 r ev)
  then show ?case by (cases ev) (auto simp: channel_simps split: option.splits list.splits prod.splits if_splits)
qed (auto simp: emitted_visible split: option.splits)

interpretation nip_data: served_channel "relay_step ina" "\<lambda>_. True" "\<lambda>_. True" "pending_of Simtoreal_data_queue"
  "appended_to ina Simtoreal_data_queue" "emitted_of ina Simtoreal_data_queue"
  "packets_of ina Simtoreal_data_queue" "turn_of Simtoreal_data_queue" "work_of Simtoreal_data_queue" 2 for ina
proof (unfold_locales, goal_cases)
  case (2 r ev)
  show ?case by (cases ev) (auto simp: channel_simps split: option.splits list.splits prod.splits)
next
  case (5 r ev)
  then show ?case by (cases ev) (auto simp: channel_simps split: option.splits list.splits prod.splits if_splits)
qed (auto simp: emitted_visible split: option.splits)

interpretation sim_interests: served_channel "relay_step ina" "\<lambda>_. True" "\<lambda>_. True" "pending_of Realtosim_interest_queue"
  "appended_to ina Realtosim_interest_queue" "emitted_of ina Realtosim_interest_queue"
  "packets_of ina Realtosim_interest_queue" "turn_of Realtosim_interest_queue" "work_of Realtosim_interest_queue" 2 for ina
proof (unfold_locales, goal_cases)
  case (2 r ev)
  show ?case by (cases ev) (auto simp: channel_simps split: option.splits list.splits prod.splits)
next
  case (5 r ev)
  then show ?case by (cases ev) (auto simp: channel_simps split: option.splits list.splits prod.splits if_splits)
qed (auto simp: emitted_visible split: option.splits)

section \<open>The clients\<close>

text \<open>Nobody waits behind an empty list, nor more than eight for one name; what is being sent is for an entry.\<close>

definition relay_inv :: "relay \<Rightarrow> bool" where
  "relay_inv r \<longleftrightarrow> (\<forall>k as. waiting r k = Some as \<longrightarrow> as \<noteq> [] \<and> length as \<le> 8)
     \<and> (\<forall>s. to_clients r = Some s \<longrightarrow>
          s_key s = name_key (fst (s_packet s)) \<and> (\<exists>as. waiting r (s_key s) = Some as \<and> s_i s < length as))"

lemma register_waiters:
  assumes "w k' = Some as"
  shows "\<exists>bs. snd (register ep limit k a w) k' = Some (as @ bs)"
  using assms by (auto simp: register_def split: option.splits)

lemma register_inv:
  assumes "\<forall>k as. w k = Some as \<longrightarrow> as \<noteq> [] \<and> length as \<le> 8"
  shows "\<forall>k as. snd (register ep 8 k' a w) k = Some as \<longrightarrow> as \<noteq> [] \<and> length as \<le> 8"
proof (intro allI impI)
  fix k as assume "snd (register ep 8 k' a w) k = Some as"
  then show "as \<noteq> [] \<and> length as \<le> 8"
    using assms [rule_format, of k] assms [rule_format, of k']
    by (auto simp: register_def le_less split: option.splits if_splits)
qed

text \<open>A step other than \<open>udp_data_out\<close> adds to the queue and to those that wait.\<close>

lemma other_steps:
  assumes "\<not> turn_of Realtosim_data_queue ev"
  shows "to_clients (snd (relay_step ina ev r)) = to_clients r"
    "prefix (chan r Realtosim_data_queue) (chan (snd (relay_step ina ev r)) Realtosim_data_queue)"
    "waiting r k = Some as \<Longrightarrow> \<exists>bs. waiting (snd (relay_step ina ev r)) k = Some (as @ bs)"
proof -
  show "to_clients (snd (relay_step ina ev r)) = to_clients r"
    using assms by (cases ev) (auto simp: Let_def split: option.splits list.splits prod.splits)
  show "prefix (chan r Realtosim_data_queue) (chan (snd (relay_step ina ev r)) Realtosim_data_queue)"
    using assms by (cases ev) (auto simp: Let_def split: option.splits list.splits prod.splits)
  show "\<exists>bs. waiting (snd (relay_step ina ev r)) k = Some (as @ bs)" if "waiting r k = Some as"
  proof (cases ev)
    case (Udp_interest_in dg a al)
    let ?w = "snd (register endpoint 8 (name_key (fst (packet_of (nd_of_bytes dg)))) a (waiting r))"
    have "dg \<noteq> [] \<Longrightarrow> waiting (snd (relay_step ina ev r)) = ?w"
      using Udp_interest_in by (auto simp: Let_def split: prod.splits)
    then show ?thesis
      using Udp_interest_in that register_waiters [where w = "waiting r" and k' = k and ep = endpoint and limit = 8
          and k = "name_key (fst (packet_of (nd_of_bytes dg)))" and a = a, OF that]
      by (cases "dg = []") auto
  qed (use assms that in \<open>auto simp: Let_def split: option.splits list.splits prod.splits\<close>)
qed

lemma other_steps_waiting:
  assumes "\<not> turn_of Realtosim_data_queue ev" "\<forall>k as. waiting r k = Some as \<longrightarrow> as \<noteq> [] \<and> length as \<le> 8"
  shows "\<forall>k as. waiting (snd (relay_step ina ev r)) k = Some as \<longrightarrow> as \<noteq> [] \<and> length as \<le> 8"
proof (cases ev)
  case (Udp_interest_in dg a al)
  have "dg \<noteq> [] \<Longrightarrow> waiting (snd (relay_step ina ev r)) =
      snd (register endpoint 8 (name_key (fst (packet_of (nd_of_bytes dg)))) a (waiting r))"
    using Udp_interest_in by (auto simp: Let_def split: prod.splits)
  moreover note register_inv [OF assms(2), of endpoint "name_key (fst (packet_of (nd_of_bytes dg)))" a]
  ultimately show ?thesis using assms(2) Udp_interest_in by (cases "dg = []") simp_all
qed (use assms in \<open>auto simp: Let_def split: option.splits list.splits prod.splits\<close>)

lemma turn_step: "turn_of Realtosim_data_queue ev \<Longrightarrow> \<exists>al. ev = Udp_data_out al"
  by (cases ev) auto

lemma relay_inv_step:
  assumes "relay_inv r"
  shows "relay_inv (snd (relay_step ina ev r))"
proof (cases "turn_of Realtosim_data_queue ev")
  case True
  then obtain al where "ev = Udp_data_out al" using turn_step by blast
  then show ?thesis
    using assms by (auto simp: relay_inv_def Let_def split: option.splits list.splits)
next
  case False
  let ?r = "snd (relay_step ina ev r)"
  note o = other_steps [OF False, where ina = ina and r = r]
  have "\<forall>k as. waiting ?r k = Some as \<longrightarrow> as \<noteq> [] \<and> length as \<le> 8"
    by (rule other_steps_waiting [OF False]) (use assms in \<open>auto simp: relay_inv_def\<close>)
  moreover have "s_key s = name_key (fst (s_packet s)) \<and> (\<exists>as. waiting ?r (s_key s) = Some as \<and> s_i s < length as)"
    if sending: "to_clients ?r = Some s" for s
  proof -
    obtain as where "s_key s = name_key (fst (s_packet s))" "waiting r (s_key s) = Some as" "s_i s < length as"
      using assms sending unfolding o(1) relay_inv_def by blast
    with o(3) [of "s_key s" as] show ?thesis by auto
  qed
  ultimately show ?thesis by (simp only: relay_inv_def) blast
qed

text \<open>The names whose data is on its way to the clients, and how many come before \<open>k\<close>.\<close>

definition keys_of :: "relay \<Rightarrow> char list list" where
  "keys_of r = (case to_clients r of None \<Rightarrow> [] | Some s \<Rightarrow> [s_key s])
     @ map (\<lambda>p. name_key (fst p)) (chan r Realtosim_data_queue)"

definition ahead :: "char list \<Rightarrow> relay \<Rightarrow> nat" where
  "ahead k r = length (takeWhile (\<lambda>k'. k' \<noteq> k) (keys_of r))"

definition due_to :: "char list \<Rightarrow> sockaddr_in \<Rightarrow> relay \<Rightarrow> bool" where
  "due_to k a r \<longleftrightarrow> k \<in> set (keys_of r) \<and>
     (\<exists>as j. waiting r k = Some as \<and> j < length as \<and> as ! j = a
        \<and> (\<forall>s. to_clients r = Some s \<longrightarrow> s_key s = k \<longrightarrow> s_i s < j))"

definition client_work :: "char list \<Rightarrow> relay \<Rightarrow> nat" where
  "client_work k r = 9 * ahead k r + (case to_clients r of None \<Rightarrow> 8 | Some s \<Rightarrow> 7 - s_i s)"

fun reaches :: "char list \<Rightarrow> sockaddr_in \<Rightarrow> relay_out \<Rightarrow> bool" where
  "reaches k a (To_udp a' p) \<longleftrightarrow> a' = a \<and> name_key (fst p) = k"
| "reaches k a (To_nip t p) \<longleftrightarrow> False"

lemma ahead_less: "k \<in> set (keys_of r) \<Longrightarrow> ahead k r < length (keys_of r)"
  by (auto simp: ahead_def takeWhile_append dest!: split_list_first)

lemma ahead_prefix: "prefix (keys_of r) (keys_of r') \<Longrightarrow> k \<in> set (keys_of r) \<Longrightarrow> ahead k r' = ahead k r"
  by (auto simp: ahead_def prefix_def takeWhile_append1)

lemma due_other_step:
  assumes "due_to k a r" "\<not> turn_of Realtosim_data_queue ev"
  shows "due_to k a (snd (relay_step ina ev r))" "client_work k (snd (relay_step ina ev r)) = client_work k r"
proof -
  let ?r = "snd (relay_step ina ev r)"
  obtain as j where j: "waiting r k = Some as" "j < length as" "as ! j = a"
      "\<forall>s. to_clients r = Some s \<longrightarrow> s_key s = k \<longrightarrow> s_i s < j" and k: "k \<in> set (keys_of r)"
    using assms(1) by (auto simp: due_to_def)
  note o = other_steps [OF assms(2), where ina = ina and r = r]
  have pre: "prefix (keys_of r) (keys_of ?r)" using o(1,2) by (auto simp: keys_of_def prefix_def split: option.splits)
  obtain bs where "waiting ?r k = Some (as @ bs)" using o(3) [OF j(1)] by blast
  then show "due_to k a ?r"
    using j k o(1) set_mono_prefix [OF pre] unfolding due_to_def
    by (intro conjI exI [of _ "as @ bs"] exI [of _ j]) (auto simp: nth_append)
  show "client_work k ?r = client_work k r" using ahead_prefix [OF pre k] o(1) by (simp add: client_work_def)
qed

lemma due_turn:
  assumes "relay_inv r" "due_to k a r"
  shows "(\<exists>x \<in> set (fst (relay_step ina (Udp_data_out al) r)). reaches k a x) \<or>
    due_to k a (snd (relay_step ina (Udp_data_out al) r)) \<and>
    client_work k (snd (relay_step ina (Udp_data_out al) r)) + 1 \<le> client_work k r"
proof -
  obtain as j where j: "waiting r k = Some as" "j < length as" "as ! j = a"
      "\<forall>s. to_clients r = Some s \<longrightarrow> s_key s = k \<longrightarrow> s_i s < j" and k: "k \<in> set (keys_of r)"
    using assms(2) by (auto simp: due_to_def)
  have as: "as \<noteq> []" "length as \<le> 8" using assms(1) j(1) by (auto simp: relay_inv_def)
  show ?thesis
  proof (cases "to_clients r")
    case None
    then obtain p ps where q: "chan r Realtosim_data_queue = p # ps"
      using k by (cases "chan r Realtosim_data_queue") (auto simp: keys_of_def)
    show ?thesis
    proof (cases "waiting r (name_key (fst p))")
      case w: None
      then have "name_key (fst p) \<noteq> k" using j(1) by auto
      then show ?thesis
        using None q w j k by (auto simp: due_to_def keys_of_def client_work_def ahead_def)
    next
      case (Some as')
      show ?thesis
        using None q Some j k as by (cases j) (auto simp: due_to_def keys_of_def client_work_def ahead_def hd_conv_nth)
    qed
  next
    case (Some s)
    then obtain bs where s: "s_key s = name_key (fst (s_packet s))" "waiting r (s_key s) = Some bs" "s_i s < length bs"
        "length bs \<le> 8" using assms(1) by (auto simp: relay_inv_def)
    show ?thesis
    proof (cases "s_key s = k")
      case True
      then have "s_i s < j" "bs = as" using j(1,4) Some s(2) by auto
      then show ?thesis
        using Some s True j k as by (cases "Suc (s_i s) = j") (auto simp: due_to_def keys_of_def client_work_def ahead_def Let_def)
    next
      case False
      then show ?thesis
        using Some s j k as by (auto simp: due_to_def keys_of_def client_work_def ahead_def Let_def)
    qed
  qed
qed

interpretation clients: response "relay_step ina" relay_inv "due_to k a" "turn_of Realtosim_data_queue"
  "client_work k" "reaches k a" for ina k a
proof unfold_locales
  show "relay_inv (snd (relay_step ina e s))" if "relay_inv s" for s e by (rule relay_inv_step [OF that])
  show "(\<exists>x \<in> set (fst (relay_step ina e s)). reaches k a x) \<or> due_to k a (snd (relay_step ina e s)) \<and>
      client_work k (snd (relay_step ina e s)) + (if turn_of Realtosim_data_queue e then 1 else 0) \<le> client_work k s"
    if "relay_inv s" "due_to k a s" for s e
    using due_turn [OF that] due_other_step [OF that(2), of e ina] turn_step [of e]
    by (cases "turn_of Realtosim_data_queue e") auto
qed

end
