(* ===== verification/Adaptor_Live_Props.thy ===== *)
theory Adaptor_Live_Props
  imports Adaptor_Live Adaptor_Props
begin

text \<open>
  Liveness of the adaptor: what has been queued leaves and who waits for data that has arrived gets it, in every run
  in which the coroutine in charge is resumed often enough, whatever the other coroutines do in between, as long as the
  environment keeps to its part, \<open>run_evs\<close>: packets are well-formed, and while \<open>udp_data_out\<close> is sending, interests
  arrive only when fewer than 32 names are waited for (\<open>table_growth_breaks_sending\<close> shows why).
\<close>

lemma boot_runs_on:
  assumes "init_ok ia" "boot st0" "init_adaptor ia st0 = Some st"
    "allocs_fresh (init_nodes ia) (init_addrs ia) (map ev_allocs (evs @ evs'))"
    "run_evs ina mal 0 (evs @ evs') (boot_relay st0)"
  obtains out st1 c out' st2 where "adaptor_run ina mal evs st = Some (out, st1)"
    "refines c st1 (snd (relay_run ina evs (boot_relay st0)))" "adaptor_run ina mal evs' st1 = Some (out', st2)"
    "map seen out' = fst (steps (relay_step ina) evs' (snd (relay_run ina evs (boot_relay st0))))"
proof -
  let ?A = "init_nodes ia" and ?B = "init_addrs ia" and ?r = "snd (relay_run ina evs (boot_relay st0))"
  have fresh: "allocs_fresh ?A ?B (map ev_allocs evs)"
      "allocs_fresh (c_node ` set (map ev_allocs evs) \<union> ?A) (m_buf ` set (map ev_allocs evs) \<union> ?B) (map ev_allocs evs')"
    using assms(4) by (simp_all only: map_append allocs_fresh_append)
  have evs: "run_evs ina mal 0 evs (boot_relay st0)" "run_evs ina mal (0 + length evs) evs' ?r"
    using assms(5) by (simp_all only: run_evs_append)
  obtain out st1 where 1: "adaptor_run ina mal evs st = Some (out, st1)"
      "serving (c_node ` set (map ev_allocs evs) \<union> ?A) (m_buf ` set (map ev_allocs evs) \<union> ?B) (0 + length evs) ?r st1"
    using serving_run [OF serving_boot [OF assms(1-3)] fresh(1) evs(1)] by blast
  obtain out' st2 where 2: "adaptor_run ina mal evs' st1 = Some (out', st2)" "map seen out' = fst (relay_run ina evs' ?r)"
    using serving_run [OF 1(2) fresh(2) evs(2)] by blast
  from 1(2) obtain c where "refines c st1 ?r" by (auto simp: serving_def)
  from that [OF 1(1) this 2(1)] 2(2) show ?thesis by (simp add: relay_run_steps)
qed

lemma queue_view:
  assumes "refines c st r" "lfq_rep (queues st i) ps" "NULL \<notin> set ps" "i \<noteq> Freebuf_list"
  shows "chan r i = map (packet_at st) ps"
proof -
  have "adaptor_ok c st" using assms(1) by (simp add: refines_def)
  then have "lfq_rep (queues st i) (c i)" "NULL \<notin> set (c i)"
    using adaptor_okD(1,3,9) [of c st] in_owned_queue [of NULL c i] by fastforce+
  then have "c i = ps" using lfq_rep_unique [OF _ assms(2) _ assms(3)] by blast
  then show ?thesis using assms(1,4) by (simp add: refines_def relay_of_def view_def)
qed

section \<open>Queued packets leave\<close>

definition packet_sent :: "queue_id \<Rightarrow> packet \<Rightarrow> packet" where
  "packet_sent i p = (if i = Simtoreal_interest_queue then stripped p else p)"

lemma packet_sent_simps [simp]:
  "packet_sent Simtoreal_interest_queue = stripped" "packet_sent Simtoreal_data_queue = id"
  "packet_sent Realtosim_interest_queue = id"
  by (simp_all add: packet_sent_def fun_eq_iff)

lemma relay_pending_leave:
  assumes "i = Simtoreal_interest_queue \<or> i = Simtoreal_data_queue \<or> i = Realtosim_interest_queue"
    and "2 * Suc (length (chan r i)) \<le> turns (turn_of i) evs"
  shows "subseq (map (packet_sent i) (chan r i)) (packets_of ina i (fst (steps (relay_step ina) evs r)))"
proof -
  let ?n = "length (pending_of i r)"
  have n: "2 * ?n \<le> turns (turn_of i) evs" using assms by (auto split: option.splits)
  have "subseq (take ?n (pending_of i r)) (packets_of ina i (fst (steps (relay_step ina) evs r)))"
    using assms(1) n nip_interests.pending_leave [where s = r and n = ?n] nip_data.pending_leave [where s = r and n = ?n]
      sim_interests.pending_leave [where s = r and n = ?n] by (auto simp: list_all_iff simp del: pending_of.simps)
  moreover have "suffix (map (packet_sent i) (chan r i)) (pending_of i r)"
    using assms(1) by (auto simp: suffix_def split: option.splits)
  ultimately show ?thesis by (metis order_refl subseq_order.trans suffix_imp_subseq take_all)
qed

text \<open>
  C9. Whatever is in \<open>simtoreal_interest_queue\<close>, \<open>simtoreal_data_queue\<close> or \<open>realtosim_interest_queue\<close>, at any moment of
  any run, leaves in its order: in every continuation in which the coroutine that empties the queue gets two turns for
  each packet in it and two more (a turn of \<open>nip_data_out\<close> or \<open>nip_interest_out\<close> is one with the socket ready), in any
  interleaving with the other coroutines that keeps to \<open>run_evs\<close>.  (\<open>realtosim_data_queue\<close> is not among them: data
  nobody waits for does not leave.)
\<close>

theorem queued_packets_leave:
  assumes "init_ok ia" and "boot st0" and "init_adaptor ia st0 = Some st"
    and "allocs_fresh (init_nodes ia) (init_addrs ia) (map ev_allocs (evs @ evs'))"
    and "run_evs ina mal 0 (evs @ evs') (boot_relay st0)" and "adaptor_run ina mal evs st = Some (out, st1)"
    and "i = Simtoreal_interest_queue \<or> i = Simtoreal_data_queue \<or> i = Realtosim_interest_queue"
    and "lfq_rep (queues st1 i) ps" and "NULL \<notin> set ps" and "2 * Suc (length ps) \<le> turns (turn_of i) evs'"
  shows "\<exists>out' st2. adaptor_run ina mal evs' st1 = Some (out', st2)
     \<and> subseq (map (\<lambda>p. packet_sent i (packet_at st1 p)) ps) (packets_of ina i (map seen out'))"
proof -
  let ?r = "snd (relay_run ina evs (boot_relay st0))"
  obtain c out' st2 where r: "refines c st1 ?r" "adaptor_run ina mal evs' st1 = Some (out', st2)"
      "map seen out' = fst (steps (relay_step ina) evs' ?r)"
    by (rule boot_runs_on [OF assms(1-5)]) (use assms(6) in auto)
  have q: "chan ?r i = map (packet_at st1) ps" by (rule queue_view [OF r(1) assms(8,9)]) (use assms(7) in auto)
  then have "subseq (map (packet_sent i) (chan ?r i)) (packets_of ina i (map seen out'))"
    unfolding r(3) by (intro relay_pending_leave [OF assms(7)]) (use assms(10) in simp)
  then show ?thesis using r(2) q by (simp add: comp_def)
qed

text \<open>An interest in the queue, and four turns of the coroutine that sends it.\<close>

abbreviation one_interest :: "event list" where
  "one_interest \<equiv> interest_events ''/a/1'' [(sample_port 1, sample_alloc 0)]"

lemma one_interest_relay:
  "relay_run ina one_interest (idle_relay ib ib') =
     ([], (idle_relay ib ib')\<lparr>chan := (\<lambda>_. [])(Simtoreal_interest_queue := [(''/a/1'', [])]),
        waiting := [''/a/1'' \<mapsto> [sample_port 1]]\<rparr>)"
  using dgram_facts(1,2) [of "''/a/1''" "[]"] sample_alloc_addrs(4) [of 0]
  by (simp add: interest_events_def register_def push_def name_key_def idle_relay_def)

lemma run_evs_free:
  assumes "\<forall>ev \<in> set evs. \<forall>n r. ev_env mal n r ev" "k + length evs \<le> 2 ^ 30"
  shows "run_evs ina mal k evs r"
  using assms by (induction evs arbitrary: k r) auto

lemma queue_contents:
  assumes "refines c st r"
  obtains ps where "lfq_rep (queues st i) ps" "NULL \<notin> set ps" "i \<noteq> Freebuf_list \<longrightarrow> map (packet_at st) ps = chan r i"
proof -
  have "adaptor_ok c st" using assms by (simp add: refines_def)
  then have "lfq_rep (queues st i) (c i)" "NULL \<notin> set (c i)"
    using adaptor_okD(1,3,9) [of c st] in_owned_queue [of NULL c i] by fastforce+
  then show ?thesis using assms by (intro that [of "c i"]) (auto simp: refines_def relay_of_def view_def)
qed

theorem queued_packets_leave_witness:
  "\<exists>st st1 out' st2. init_adaptor sample_init sample_boot = Some st
     \<and> adaptor_run (\<lambda>_. 0) sample_malloc one_interest st = Some ([], st1)
     \<and> adaptor_run (\<lambda>_. 0) sample_malloc (map (\<lambda>k. Nip_interest_out 1 (sample_alloc k)) [1, 2, 3, 4]) st1 = Some (out', st2)
     \<and> subseq [(''/a/1'', [])] (packets_of (\<lambda>_. 0) Simtoreal_interest_queue (map seen out'))"
proof -
  obtain st where st: "init_adaptor sample_init sample_boot = Some st"
    by (rule sample_start [of "\<lambda>_. 0" sample_malloc])
  let ?evs = "map (\<lambda>k. Nip_interest_out 1 (sample_alloc k)) [1, 2, 3, 4]" and ?i = Simtoreal_interest_queue
  have boot: "boot_relay sample_boot = idle_relay zero_ibuf zero_ibuf" by (simp add: boot_relay_def sample_boot_def)
  have fresh: "allocs_fresh (init_nodes sample_init) (init_addrs sample_init) (map ev_allocs (one_interest @ ?evs))"
    using allocs_fresh_boot [of 5] by (simp add: interest_events_def upt_rec eval_nat_numeral)
  have "run_evs (\<lambda>_. 0) sample_malloc 0 one_interest (boot_relay sample_boot)"
    by (rule run_evs_interests) (simp_all add: sample_malloc_good boot idle_relay_def)
  moreover have "run_evs (\<lambda>_. 0) sample_malloc k ?evs r" if "k \<le> 1" for k r
    by (rule run_evs_free) (use that in simp_all)
  ultimately have run: "run_evs (\<lambda>_. 0) sample_malloc 0 (one_interest @ ?evs) (boot_relay sample_boot)"
    unfolding run_evs_append by (simp add: interest_events_def)
  obtain out st1 c where r: "adaptor_run (\<lambda>_. 0) sample_malloc one_interest st = Some (out, st1)"
      "refines c st1 (snd (relay_run (\<lambda>_. 0) one_interest (boot_relay sample_boot)))"
    by (rule boot_runs_on [OF sample_init_ok sample_boot st fresh run])
  have "out = []" using r(1) by (auto simp: interest_events_def udp_interest_in_def Let_def bind_eq_Some_conv split: if_splits prod.splits)
  obtain ps where ps: "lfq_rep (queues st1 ?i) ps" "NULL \<notin> set ps" "map (packet_at st1) ps = [(''/a/1'', [])]"
    by (rule queue_contents [OF r(2), of ?i]) (simp add: boot one_interest_relay)
  have "length ps = 1" using arg_cong [OF ps(3), of length] by simp
  then have "2 * Suc (length ps) \<le> turns (turn_of ?i) ?evs" by simp
  from queued_packets_leave [OF sample_init_ok sample_boot st fresh run r(1) _ ps(1,2) this] ps(3) r(1) st \<open>out = []\<close>
  show ?thesis by (auto simp: stripped_def map_eq_Cons_conv)
qed

section \<open>Data reaches who waits for it\<close>

text \<open>
  C8. A client that waits for a name whose data has arrived gets it: at any moment of any run, if the client is in the name
  table and data of that name is in the queue, and the coroutine is not already sending data of that name,
  then every continuation with nine turns of \<open>udp_data_out\<close> for each packet in the queue and nine more sends the
  client a packet of that name, in any interleaving with the other coroutines that keeps to \<open>run_evs\<close>: while
  \<open>udp_data_out\<close> is sending, interests come only when fewer than 32 names are waited for.
\<close>

theorem arrived_data_reaches_client:
  assumes "init_ok ia" and "boot st0" and "init_adaptor ia st0 = Some st"
    and "allocs_fresh (init_nodes ia) (init_addrs ia) (map ev_allocs (evs @ evs'))"
    and "run_evs ina mal 0 (evs @ evs') (boot_relay st0)" and "adaptor_run ina mal evs st = Some (out, st1)"
    and "lfq_rep (queues st1 Realtosim_data_queue) ps" and "NULL \<notin> set ps"
    and "p \<in> set ps" and "name_key (fst (packet_at st1 p)) = k"
    and "nut_abs (nut_table st1) k = Some as" and "a \<in> set as"
    and "\<forall>sd. at_udp_data_out st1 = Some sd \<longrightarrow> e_key (sd_nut_entry sd st1) \<noteq> k"
    and "9 * Suc (length ps) \<le> turns (turn_of Realtosim_data_queue) evs'"
  shows "\<exists>out' st2 bs. adaptor_run ina mal evs' st1 = Some (out', st2) \<and> Udp_out a bs \<in> set out'
     \<and> name_key (fst (packet_of (nd_of_bytes bs))) = k"
proof -
  let ?r = "snd (relay_run ina evs (boot_relay st0))"
  obtain c out' st2 where r: "refines c st1 ?r" "adaptor_run ina mal evs' st1 = Some (out', st2)"
      "map seen out' = fst (steps (relay_step ina) evs' ?r)"
    by (rule boot_runs_on [OF assms(1-5)]) (use assms(6) in auto)
  have q: "chan ?r Realtosim_data_queue = map (packet_at st1) ps" by (rule queue_view [OF r(1) assms(7,8)]) simp
  have sel: "waiting ?r = nut_abs (nut_table st1)" "to_clients ?r = map_option (sending_of st1) (at_udp_data_out st1)"
    using r(1) by (simp_all add: refines_def relay_of_def)
  have k: "k \<in> set (keys_of ?r)" using assms(9,10) q by (auto simp: keys_of_def)
  obtain j where "j < length as" "as ! j = a" using assms(12) by (auto simp: in_set_conv_nth)
  then have due: "due_to k a ?r" using k sel assms(11,13) by (auto simp: due_to_def sending_of_def)
  have "relay_inv (boot_relay st0)" by (simp add: relay_inv_def boot_relay_def idle_relay_def)
  then have inv: "relay_inv ?r" unfolding relay_run_steps by (rule clients.inv_steps)
  have "ahead k ?r < length (keys_of ?r)" using ahead_less [OF k] .
  also have "\<dots> \<le> Suc (length ps)" using q by (simp add: keys_of_def split: option.split)
  finally have "client_work k ?r < 9 * Suc (length ps)" by (auto simp: client_work_def split: option.split)
  then obtain x where x: "x \<in> set (map seen out')" "reaches k a x"
    using clients.answered [OF inv due, of evs' ina] assms(14) r(3) by auto
  from x(1) obtain sent where "sent \<in> set out'" "x = seen sent" unfolding set_map by blast
  with x(2) r(2) show ?thesis by (cases sent) auto
qed

text \<open>A client asks, and the data arrives; \<open>udp_data_out\<close> has eighteen turns.\<close>

abbreviation asked_and_arrived :: "event list" where
  "asked_and_arrived \<equiv> one_interest @ [Nip_data_in 1 (\<lambda>_. (1, sample_answer)) (sample_alloc 1)]"

abbreviation eighteen_turns :: "event list" where
  "eighteen_turns \<equiv> map (\<lambda>k. Udp_data_out (sample_alloc k)) [2..<20]"

theorem arrived_data_reaches_client_witness:
  "\<exists>st st1 out out' st2 bs. init_adaptor sample_init sample_boot = Some st
     \<and> adaptor_run (\<lambda>_. 0) sample_malloc asked_and_arrived st = Some (out, st1)
     \<and> adaptor_run (\<lambda>_. 0) sample_malloc eighteen_turns st1 = Some (out', st2)
     \<and> Udp_out (sample_port 1) bs \<in> set out' \<and> name_key (fst (packet_of (nd_of_bytes bs))) = ''/a/1''"
proof -
  obtain st where st: "init_adaptor sample_init sample_boot = Some st"
    by (rule sample_start [of "\<lambda>_. 0" sample_malloc])
  let ?i = Realtosim_data_queue
  have boot: "boot_relay sample_boot = idle_relay zero_ibuf zero_ibuf" by (simp add: boot_relay_def sample_boot_def)
  have ans: "ibuf_name_ok sample_answer" "ibuf_data_ok sample_answer" "d_type sample_answer \<noteq> D_NACK"
      "ibuf_packet sample_answer = (''/a/1'', ''data'')"
    by (simp_all add: sample_answer_def ibuf_name_ok_def ibuf_data_ok_def d_type_def D_BLOB_def D_NACK_def ibuf_packet_def)
  have fresh: "allocs_fresh (init_nodes sample_init) (init_addrs sample_init) (map ev_allocs (asked_and_arrived @ eighteen_turns))"
  proof -
    have "[0..<20] = 0 # 1 # [2..<20]" by code_simp
    then have "map ev_allocs (asked_and_arrived @ eighteen_turns) = map sample_alloc [0..<20]"
      by (simp add: interest_events_def comp_def del: upt_rec_numeral)
    then show ?thesis using allocs_fresh_boot [of 20] by simp
  qed
  have "run_evs (\<lambda>_. 0) sample_malloc 0 one_interest (boot_relay sample_boot)"
    by (rule run_evs_interests) (simp_all add: sample_malloc_good boot idle_relay_def)
  moreover have "run_evs (\<lambda>_. 0) sample_malloc k eighteen_turns r" if "k \<le> 2" for k r
    by (rule run_evs_free) (use that in auto)
  ultimately have run: "run_evs (\<lambda>_. 0) sample_malloc 0 (asked_and_arrived @ eighteen_turns) (boot_relay sample_boot)"
    unfolding run_evs_append using ans by (simp add: interest_events_def del: upt_Suc upt_rec_numeral)
  obtain out st1 c where r: "adaptor_run (\<lambda>_. 0) sample_malloc asked_and_arrived st = Some (out, st1)"
      "refines c st1 (snd (relay_run (\<lambda>_. 0) asked_and_arrived (boot_relay sample_boot)))"
    by (rule boot_runs_on [OF sample_init_ok sample_boot st fresh run])
  let ?r = "snd (relay_run (\<lambda>_. 0) asked_and_arrived (boot_relay sample_boot))"
  have rel: "chan ?r ?i = [(''/a/1'', ''data'')]" "waiting ?r = [''/a/1'' \<mapsto> [sample_port 1]]" "to_clients ?r = None"
    using ans sample_alloc_addrs(4) [of 1] by (simp_all add: boot relay_run_append one_interest_relay)
  obtain ps where ps: "lfq_rep (queues st1 ?i) ps" "NULL \<notin> set ps" "map (packet_at st1) ps = [(''/a/1'', ''data'')]"
    by (rule queue_contents [OF r(2), of ?i]) (simp only: rel, simp)
  then obtain p where p: "ps = [p]" "packet_at st1 p = (''/a/1'', ''data'')" by auto
  have "nut_abs (nut_table st1) ''/a/1'' = Some [sample_port 1]" "at_udp_data_out st1 = None"
    using r(2) rel by (simp_all add: refines_def relay_of_def)
  moreover have "9 * Suc (length ps) \<le> turns (turn_of ?i) eighteen_turns" by (simp add: p upt_rec)
  ultimately have "\<exists>out' st2 bs. adaptor_run (\<lambda>_. 0) sample_malloc eighteen_turns st1 = Some (out', st2)
      \<and> Udp_out (sample_port 1) bs \<in> set out' \<and> name_key (fst (packet_of (nd_of_bytes bs))) = ''/a/1''"
    using p by (intro arrived_data_reaches_client [OF sample_init_ok sample_boot st fresh run r(1) ps(1,2), where p = p and as = "[sample_port 1]"])
      (auto simp: name_key_def)
  with st r(1) show ?thesis by blast
qed

end
