(* ===== verification/App_Sockets.thy ===== *)
theory App_Sockets
  imports Progress End_To_End
begin

text \<open>
  The application between its two sockets and the simulator: datagrams arrive and wait in the sockets in their order, and
  ticks take them out, at most one of each socket.  Every packet that arrives is handed to the simulator once, in its
  order, by the tick whose turn it is.
\<close>

record app_world =
  w_app :: app
  w_vtime :: int
  w_interests :: "char list list"
  w_data :: "char list list"

text \<open>A tick comes with what its buffer holds before, the nonce and the real time.\<close>

datatype world_event = Interest_dgram "char list" | Data_dgram "char list" | Tick "char list" u32 int int

definition next_dgram :: "char list list \<Rightarrow> char list" where
  "next_dgram q = (case q of [] \<Rightarrow> [] | dg # _ \<Rightarrow> dg)"

fun world_step :: "world_event \<Rightarrow> app_world \<Rightarrow> (app_out list \<times> app_world) option" where
  "world_step (Interest_dgram dg) w = Some ([], w\<lparr>w_interests := w_interests w @ [dg]\<rparr>)"
| "world_step (Data_dgram dg) w = Some ([], w\<lparr>w_data := w_data w @ [dg]\<rparr>)"
| "world_step (Tick buf nonce sec usec) w = do {
     (out, delay, st) \<leftarrow> ScheduleNextTick buf (next_dgram (w_interests w)) (next_dgram (w_data w)) nonce (w_vtime w) sec usec (w_app w);
     Some (out, \<lparr>w_app = st, w_vtime = w_vtime w + delay, w_interests = tl (w_interests w), w_data = tl (w_data w)\<rparr>)
   }"

fun world_run :: "world_event list \<Rightarrow> app_world \<Rightarrow> (app_out list \<times> app_world) option" where
  "world_run [] w = Some ([], w)"
| "world_run (e # es) w = do {
     (out, w) \<leftarrow> world_step e w;
     (outs, w) \<leftarrow> world_run es w;
     Some (out @ outs, w)
   }"

text \<open>A datagram of the adaptor with a name the application can take apart.\<close>

definition readable :: "char list \<Rightarrow> bool" where
  "readable dg \<longleftrightarrow> length dg = 2048 \<and> nd_ok (nd_of_bytes dg) \<and> packet_wf (nd_of_bytes dg) \<and>
     (\<exists>nm seq. fst (packet_of (nd_of_bytes dg)) = uri nm seq \<and> CHR 0x00 \<notin> set nm \<and> unat seq < 10 ^ 9)"

text \<open>What is handed to the simulator, as the packets of the datagrams.\<close>

fun handed_interest :: "app_out \<Rightarrow> char list list" where
  "handed_interest (Ndn_interest nm seq nonce f life) = [uri nm seq]"
| "handed_interest _ = []"

fun handed_data :: "app_out \<Rightarrow> packet list" where
  "handed_data (Ndn_data nm seq fresh content loc) = [(uri nm seq, content)]"
| "handed_data _ = []"

definition handed_interests :: "app_out list \<Rightarrow> char list list" where
  "handed_interests outs = concat (map handed_interest outs)"

definition handed_packets :: "app_out list \<Rightarrow> packet list" where
  "handed_packets outs = concat (map handed_data outs)"

lemma handed_append:
  "handed_interests (xs @ ys) = handed_interests xs @ handed_interests ys"
  "handed_packets (xs @ ys) = handed_packets xs @ handed_packets ys"
  by (simp_all add: handed_interests_def handed_packets_def)

lemma map_head_tail: "map f (take 1 xs) @ map f (tl xs) = map f xs"
  by (cases xs) simp_all

section \<open>A tick\<close>

lemma readable_reads:
  assumes "readable dg"
  shows "\<exists>nm seq. SendNDNInterest nonce (nd_of_bytes dg) = Some (Ndn_interest nm seq nonce False 2000)
      \<and> fst (packet_of (nd_of_bytes dg)) = uri nm seq"
    "\<exists>nm seq v. SendNDNData (nd_of_bytes dg) = Some (Ndn_data nm seq 1000 v False)
      \<and> packet_of (nd_of_bytes dg) = (uri nm seq, v)"
proof -
  obtain nm seq where n: "nd_ok (nd_of_bytes dg)" "packet_wf (nd_of_bytes dg)"
      "fst (packet_of (nd_of_bytes dg)) = uri nm seq" "CHR 0x00 \<notin> set nm" "unat seq < 10 ^ 9"
    using assms by (auto simp: readable_def)
  then have "packet_of (nd_of_bytes dg) = (uri nm seq, snd (packet_of (nd_of_bytes dg)))" by (metis prod.collapse)
  with app_reads [OF n(1,2) this n(4,5)] show
    "\<exists>nm seq. SendNDNInterest nonce (nd_of_bytes dg) = Some (Ndn_interest nm seq nonce False 2000)
      \<and> fst (packet_of (nd_of_bytes dg)) = uri nm seq"
    "\<exists>nm seq v. SendNDNData (nd_of_bytes dg) = Some (Ndn_data nm seq 1000 v False)
      \<and> packet_of (nd_of_bytes dg) = (uri nm seq, v)" by (metis fst_conv)+
qed

lemma recv_into_full: "length dg = 2048 \<Longrightarrow> length buf = 2048 \<Longrightarrow> recv_into dg buf = dg" "recv_into [] buf = buf"
  by (simp_all add: recv_into_def)

text \<open>The first datagram of each socket, if there is one, becomes a packet.\<close>

lemma tick_hands_over:
  assumes "list_all readable qi" "list_all readable qd" "length buf = 2048" "times_ok vtime sec usec st"
  shows "\<exists>out delay st'. ScheduleNextTick buf (next_dgram qi) (next_dgram qd) nonce vtime sec usec st = Some (out, delay, st')
    \<and> handed_interests out = map (\<lambda>dg. fst (packet_of (nd_of_bytes dg))) (take 1 qi)
    \<and> handed_packets out = map (\<lambda>dg. packet_of (nd_of_bytes dg)) (take 1 qd)"
proof -
  let ?buf = "recv_into (next_dgram qi) buf"
  have ne: "dg \<noteq> [] \<and> length dg = 2048" if "readable dg" for dg using that by (auto simp: readable_def)
  have buf: "length ?buf = 2048" using assms(1,3) ne by (cases qi) (auto simp: next_dgram_def recv_into_full)
  have i: "\<exists>out1. (if next_dgram qi \<noteq> [] then map_option (\<lambda>p. [p]) (SendNDNInterest nonce (nd_of_bytes ?buf)) else Some []) = Some out1
      \<and> handed_interests out1 = map (\<lambda>dg. fst (packet_of (nd_of_bytes dg))) (take 1 qi) \<and> handed_packets out1 = []"
  proof (cases qi)
    case Nil
    then show ?thesis by (simp add: next_dgram_def handed_interests_def handed_packets_def)
  next
    case (Cons dg q)
    then show ?thesis
      using assms(1,3) ne readable_reads(1) [of dg nonce]
      by (auto simp: next_dgram_def handed_interests_def handed_packets_def recv_into_full)
  qed
  have d: "\<exists>out2. (if next_dgram qd \<noteq> []
        then map_option (\<lambda>p. [p]) (SendNDNData (nd_of_bytes (recv_into (next_dgram qd) ?buf))) else Some []) = Some out2
      \<and> handed_packets out2 = map (\<lambda>dg. packet_of (nd_of_bytes dg)) (take 1 qd) \<and> handed_interests out2 = []"
  proof (cases qd)
    case Nil
    then show ?thesis by (simp add: next_dgram_def handed_interests_def handed_packets_def)
  next
    case (Cons dg q)
    then show ?thesis
      using assms(2) buf ne readable_reads(2) [of dg]
      by (auto simp: next_dgram_def handed_interests_def handed_packets_def recv_into_full)
  qed
  obtain out1 out2 where o: "(if next_dgram qi \<noteq> [] then map_option (\<lambda>p. [p]) (SendNDNInterest nonce (nd_of_bytes ?buf)) else Some []) = Some out1"
      "(if next_dgram qd \<noteq> [] then map_option (\<lambda>p. [p]) (SendNDNData (nd_of_bytes (recv_into (next_dgram qd) ?buf))) else Some []) = Some out2"
      "handed_interests out1 = map (\<lambda>dg. fst (packet_of (nd_of_bytes dg))) (take 1 qi)" "handed_packets out1 = []"
      "handed_packets out2 = map (\<lambda>dg. packet_of (nd_of_bytes dg)) (take 1 qd)" "handed_interests out2 = []"
    using i d by blast
  moreover have "\<exists>delay st'. ScheduleNextTick buf (next_dgram qi) (next_dgram qd) nonce vtime sec usec st = Some (out1 @ out2, delay, st')"
    unfolding ScheduleNextTick_def Let_def o(1,2) bind.simps
    using AnalyzeTimeDiff_ok [of vtime sec usec "st\<lparr>m_totalticks := m_totalticks st + 1\<rparr>"] assms(4)
    by (simp split: if_split)
  ultimately show ?thesis using handed_append by auto
qed

section \<open>The sockets as channels\<close>

text \<open>The step as a total function; no step fails while all datagrams are readable and the times have their places.\<close>

definition world_total :: "world_event \<Rightarrow> app_world \<Rightarrow> app_out list \<times> app_world" where
  "world_total e w = (case world_step e w of None \<Rightarrow> ([], w) | Some r \<Rightarrow> r)"

definition world_inv :: "app_world \<Rightarrow> bool" where
  "world_inv w \<longleftrightarrow> list_all readable (w_interests w) \<and> list_all readable (w_data w)
     \<and> started_ok (w_app w) \<and> \<bar>w_vtime w\<bar> \<le> 2 ^ 62"

fun event_ok :: "world_event \<Rightarrow> bool" where
  "event_ok (Interest_dgram dg) = readable dg"
| "event_ok (Data_dgram dg) = readable dg"
| "event_ok (Tick buf nonce sec usec) = (length buf = 2048 \<and> clock_ok sec usec)"

fun is_tick :: "world_event \<Rightarrow> bool" where
  "is_tick (Tick buf nonce sec usec) = True"
| "is_tick _ = False"

abbreviation dgram_name :: "char list \<Rightarrow> char list" where
  "dgram_name dg \<equiv> fst (packet_of (nd_of_bytes dg))"

abbreviation dgram_packet_of :: "char list \<Rightarrow> packet" where
  "dgram_packet_of dg \<equiv> packet_of (nd_of_bytes dg)"

fun new_interests :: "world_event \<Rightarrow> char list list" where
  "new_interests (Interest_dgram dg) = [dgram_name dg]"
| "new_interests _ = []"

fun new_data :: "world_event \<Rightarrow> packet list" where
  "new_data (Data_dgram dg) = [dgram_packet_of dg]"
| "new_data _ = []"

lemma world_step_ok:
  assumes "world_inv w" "event_ok e"
  shows "\<exists>out w'. world_step e w = Some (out, w') \<and> world_inv w'
    \<and> handed_interests out @ map dgram_name (w_interests w') = map dgram_name (w_interests w) @ new_interests e
    \<and> handed_packets out @ map dgram_packet_of (w_data w') = map dgram_packet_of (w_data w) @ new_data e
    \<and> (is_tick e \<longrightarrow> (w_interests w \<noteq> [] \<longrightarrow> handed_interests out \<noteq> []) \<and> (w_data w \<noteq> [] \<longrightarrow> handed_packets out \<noteq> []))
    \<and> length (handed_interests out) \<le> (if is_tick e then 1 else 0)
    \<and> length (handed_packets out) \<le> (if is_tick e then 1 else 0)"
proof (cases e)
  case (Tick buf nonce sec usec)
  have q: "list_all readable (w_interests w)" "list_all readable (w_data w)" "length buf = 2048"
      "times_ok (w_vtime w) sec usec (w_app w)"
    using assms Tick by (simp_all add: world_inv_def times_ok_def)
  obtain out delay st' where t: "ScheduleNextTick buf (next_dgram (w_interests w)) (next_dgram (w_data w)) nonce (w_vtime w) sec usec
        (w_app w) = Some (out, delay, st')" "handed_interests out = map dgram_name (take 1 (w_interests w))"
      "handed_packets out = map dgram_packet_of (take 1 (w_data w))"
    using tick_hands_over [OF q] by blast
  note times = tick_keeps_times [OF t(1) q(4)]
  have "list_all readable (tl xs)" if "list_all readable xs" for xs using that by (cases xs) simp_all
  with Tick t q times show ?thesis using map_head_tail [of dgram_name] map_head_tail [of dgram_packet_of]
    by (simp add: world_inv_def)
qed (use assms in \<open>auto simp: world_inv_def handed_interests_def handed_packets_def\<close>)

lemma world_total_ok:
  assumes "world_inv w" "event_ok e"
  shows "world_step e w = Some (world_total e w)" "world_inv (snd (world_total e w))"
    "handed_interests (fst (world_total e w)) @ map dgram_name (w_interests (snd (world_total e w)))
       = map dgram_name (w_interests w) @ new_interests e"
    "handed_packets (fst (world_total e w)) @ map dgram_packet_of (w_data (snd (world_total e w)))
       = map dgram_packet_of (w_data w) @ new_data e"
    "is_tick e \<Longrightarrow> w_interests w \<noteq> [] \<Longrightarrow> handed_interests (fst (world_total e w)) \<noteq> []"
    "is_tick e \<Longrightarrow> w_data w \<noteq> [] \<Longrightarrow> handed_packets (fst (world_total e w)) \<noteq> []"
    "length (handed_interests (fst (world_total e w))) \<le> (if is_tick e then 1 else 0)"
    "length (handed_packets (fst (world_total e w))) \<le> (if is_tick e then 1 else 0)"
  using world_step_ok [OF assms] by (auto simp: world_total_def)

lemma world_run_steps:
  assumes "world_inv w" "list_all event_ok es"
  shows "world_run es w = Some (steps world_total es w)"
  using assms
proof (induction es arbitrary: w)
  case (Cons e es)
  then have "world_run es (snd (world_total e w)) = Some (steps world_total es (snd (world_total e w)))"
    using world_total_ok(2) by simp
  then show ?case using world_total_ok(1) [of w e] Cons.prems by (cases "world_total e w") (auto simp: split_beta)
qed simp

text \<open>No run hands over more than one packet of each kind per tick.\<close>

lemma world_run_pace:
  assumes "world_inv w" "list_all event_ok es"
  shows "length (handed_interests (fst (steps world_total es w))) \<le> turns is_tick es
     \<and> length (handed_packets (fst (steps world_total es w))) \<le> turns is_tick es"
  using assms
proof (induction es arbitrary: w)
  case Nil
  then show ?case by (simp add: handed_interests_def handed_packets_def)
next
  case (Cons e es)
  have e: "world_inv w" "event_ok e" "list_all event_ok es" using Cons.prems by simp_all
  note step = world_total_ok(2,7,8) [OF e(1,2)]
  show ?case
    using step(2,3) Cons.IH [OF step(1) e(3)] by (simp add: split_beta handed_append split: if_splits)
qed

interpretation interest_socket: served_channel world_total event_ok world_inv "\<lambda>w. map dgram_name (w_interests w)" "\<lambda>e w. new_interests e"
  "\<lambda>e w. handed_interests (fst (world_total e w))" handed_interests is_tick "\<lambda>w. 0" 1
  by unfold_locales (use world_total_ok(2,3,5) in \<open>auto simp: handed_append\<close>)

interpretation data_socket: served_channel world_total event_ok world_inv "\<lambda>w. map dgram_packet_of (w_data w)" "\<lambda>e w. new_data e"
  "\<lambda>e w. handed_packets (fst (world_total e w))" handed_packets is_tick "\<lambda>w. 0" 1
  by unfold_locales (use world_total_ok(2,4,6) in \<open>auto simp: handed_append\<close>)

lemma socket_runs:
  "interest_socket.accepted_run es w = concat (map new_interests es)" "data_socket.accepted_run es w = concat (map new_data es)"
  "interest_socket.emitted_run es w = handed_interests (fst (steps world_total es w))"
  "data_socket.emitted_run es w = handed_packets (fst (steps world_total es w))"
proof -
  have nil: "handed_interests [] = []" "handed_packets [] = []" by (simp_all add: handed_interests_def handed_packets_def)
  show "interest_socket.accepted_run es w = concat (map new_interests es)" "data_socket.accepted_run es w = concat (map new_data es)"
    "interest_socket.emitted_run es w = handed_interests (fst (steps world_total es w))"
    "data_socket.emitted_run es w = handed_packets (fst (steps world_total es w))"
    by (induction es arbitrary: w) (simp_all add: nil split_beta handed_append)
qed

section \<open>The property\<close>

text \<open>
  C17. The application hands every packet that arrives in its two sockets as a readable datagram (2048 bytes, well-formed,
  with a name that ends in a number below 10^9) to the simulator, once and in the order of the datagrams: whatever such
  datagrams arrive between the ticks, no tick fails, what has been handed over and what still waits is together what was
  there and what came; ticks hand over at most one packet of each socket each (of any run, a single tick included), and as
  many ticks as datagrams that waited hand all of those over.
\<close>

theorem arrivals_are_handed_over:
  assumes "world_inv w" and "list_all event_ok es"
  shows "\<exists>outs w'. world_run es w = Some (outs, w')
     \<and> handed_interests outs @ map dgram_name (w_interests w') = map dgram_name (w_interests w) @ concat (map new_interests es)
     \<and> handed_packets outs @ map dgram_packet_of (w_data w') = map dgram_packet_of (w_data w) @ concat (map new_data es)
     \<and> length (handed_interests outs) \<le> turns is_tick es \<and> length (handed_packets outs) \<le> turns is_tick es
     \<and> prefix (take (turns is_tick es) (map dgram_name (w_interests w))) (handed_interests outs)
     \<and> prefix (take (turns is_tick es) (map dgram_packet_of (w_data w))) (handed_packets outs)"
proof -
  let ?r = "steps world_total es w" and ?t = "turns is_tick es"
  let ?i = "map dgram_name (w_interests w)" and ?d = "map dgram_packet_of (w_data w)"
  have "prefix (take (min ?t (length ?i)) ?i) (handed_interests (fst ?r))"
    by (rule interest_socket.emitted_first [OF assms, unfolded socket_runs]) simp_all
  moreover have "prefix (take (min ?t (length ?d)) ?d) (handed_packets (fst ?r))"
    by (rule data_socket.emitted_first [OF assms, unfolded socket_runs]) simp_all
  moreover have "take (min ?t (length xs)) xs = take ?t xs" for xs :: "'b list" by (simp add: min_def)
  ultimately show ?thesis
    using world_run_steps [OF assms] world_run_pace [OF assms] interest_socket.run_conserves [OF assms] data_socket.run_conserves [OF assms]
    unfolding socket_runs by (intro exI [of _ "fst ?r"] exI [of _ "snd ?r"]) (simp add: min_def split: if_splits)
qed

text \<open>An interest and a data packet in the sockets, and one tick.\<close>

definition sample_dgram :: "char list" where
  "sample_dgram = nd_bytes \<lparr>nd_nlen = 5, nd_dlen = 4, nd_buf = ''/a/42data'' @ replicate 2031 CHR 0x00\<rparr>"

definition sample_world :: app_world where
  "sample_world = \<lparr>w_app = sample_app, w_vtime = 0, w_interests = [sample_dgram], w_data = [sample_dgram]\<rparr>"

lemma sample_dgram: "readable sample_dgram" "dgram_packet_of sample_dgram = (''/a/42'', ''data'')"
proof -
  let ?d = "\<lparr>nd_nlen = 5, nd_dlen = 4, nd_buf = ''/a/42data'' @ replicate 2031 CHR 0x00\<rparr>"
  have d: "nd_of_bytes sample_dgram = ?d" by (simp add: sample_dgram_def)
  have ok: "nd_ok ?d" "packet_wf ?d" by (simp_all add: nd_ok_def packet_wf_def)
  have uri: "uri ''/a'' 42 = ''/a/42''" by (simp add: decimal.simps char_of_eq_iff)
  show p: "dgram_packet_of sample_dgram = (''/a/42'', ''data'')" by (simp add: d packet_of_def)
  have len: "length sample_dgram = 2048" unfolding sample_dgram_def by (rule length_nd_bytes [OF ok(1)])
  have "fst (''/a/42'', ''data'') = uri ''/a'' 42 \<and> CHR 0x00 \<notin> set ''/a'' \<and> unat (42 :: u32) < 10 ^ 9"
    unfolding uri by simp
  with len ok show "readable sample_dgram" unfolding readable_def d p [unfolded d] by blast
qed

theorem arrivals_are_handed_over_witness:
  "\<exists>outs w'. world_run [Tick (replicate 2048 CHR 0x00) 7 100 0] sample_world = Some (outs, w')
     \<and> handed_interests outs = [''/a/42''] \<and> handed_packets outs = [(''/a/42'', ''data'')]"
proof -
  have "world_inv sample_world"
    using sample_dgram(1) by (simp add: world_inv_def sample_world_def started_ok_def sample_app_def)
  moreover have "list_all event_ok [Tick (replicate 2048 CHR 0x00) 7 100 0]" by (simp add: clock_ok_def)
  ultimately show ?thesis
    using arrivals_are_handed_over [of sample_world "[Tick (replicate 2048 CHR 0x00) 7 100 0]"] sample_dgram(2)
    by (auto simp: sample_world_def prefix_def)
qed

end
