(* ===== verification/Layout.thy ===== *)
theory Layout
  imports Buffers Isocket Lfq Nut
begin

text \<open>
  How the structures of the C and C++ code lie in memory.  A type is described by its members as the source lists them;
  \<open>layout\<close> computes alignment, size and offsets by the rules of the x86-64 and 64-bit ARM ABIs: members in their order,
  each at the next multiple of its alignment, the size rounded up to the alignment of the whole.  The packet
  structure is shared by two programs on either side of a socket, and the other theories write offsets and sizes
  down as numbers; here they are those of the declarations.
\<close>

section \<open>Types and their layout\<close>

text \<open>A scalar of \<open>n\<close> bytes, an array, a structure, a union, a type with \<open>alignas(n)\<close>.  An anonymous member has the name \<open>''''\<close>.\<close>

datatype ctype =
    Scalar nat
  | Array ctype nat
  | Struct "(char list \<times> ctype) list"
  | Union "(char list \<times> ctype) list"
  | Aligned nat ctype

abbreviation c_char :: ctype where "c_char \<equiv> Scalar 1"
abbreviation c_u16 :: ctype where "c_u16 \<equiv> Scalar 2"
abbreviation c_u32 :: ctype where "c_u32 \<equiv> Scalar 4"
abbreviation c_u64 :: ctype where "c_u64 \<equiv> Scalar 8"
abbreviation c_ptr :: ctype where "c_ptr \<equiv> Scalar 8"

text \<open>Alignment, size, and the members with their offsets and sizes.\<close>

type_synonym member = "char list \<times> nat \<times> nat"
type_synonym layout = "nat \<times> nat \<times> member list"

definition round_up :: "nat \<Rightarrow> nat \<Rightarrow> nat" where
  "round_up a n = (n + a - 1) div a * a"

fun place :: "nat \<Rightarrow> (char list \<times> layout) list \<Rightarrow> (nat \<times> char list \<times> layout) list" where
  "place n [] = []"
| "place n ((m, a, s, ms) # fs) = (round_up a n, m, a, s, ms) # place (round_up a n + s) fs"

text \<open>The members of an anonymous structure or union are members of the one around it.\<close>

definition shown :: "nat \<times> char list \<times> layout \<Rightarrow> member list" where
  "shown = (\<lambda>(p, m, a, s, ms). if m = [] then map (\<lambda>(m', q, s'). (m', p + q, s')) ms else [(m, p, s)])"

definition max_align :: "(char list \<times> layout) list \<Rightarrow> nat" where
  "max_align fs = foldr max (map (\<lambda>(m, a, s, ms). a) fs) 1"

definition struct_layout :: "(char list \<times> layout) list \<Rightarrow> layout" where
  "struct_layout fs =
     (let ps = place 0 fs; a = max_align fs
      in (a, round_up a (foldl (\<lambda>e (p, m, a, s, ms). p + s) 0 ps), concat (map shown ps)))"

definition union_layout :: "(char list \<times> layout) list \<Rightarrow> layout" where
  "union_layout fs =
     (let a = max_align fs
      in (a, round_up a (foldr max (map (\<lambda>(m, a, s, ms). s) fs) 0), concat (map (\<lambda>f. shown (0, f)) fs)))"

lemma size_member [termination_simp]: "(m, t) \<in> set fs \<Longrightarrow> size t < Suc (size_list (size_prod (\<lambda>_. 0) size) fs)"
  by (induction fs) auto

fun layout :: "ctype \<Rightarrow> layout" where
  "layout (Scalar n) = (n, n, [])"
| "layout (Array t k) = (case layout t of (a, s, ms) \<Rightarrow> (a, k * s, []))"
| "layout (Struct fs) = struct_layout (map (\<lambda>(m, t). (m, layout t)) fs)"
| "layout (Union fs) = union_layout (map (\<lambda>(m, t). (m, layout t)) fs)"
| "layout (Aligned n t) = (case layout t of (a, s, ms) \<Rightarrow> (max n a, s, ms))"

definition size_of :: "ctype \<Rightarrow> nat" where
  "size_of t = fst (snd (layout t))"

definition offset_of :: "char list \<Rightarrow> ctype \<Rightarrow> nat option" where
  "offset_of m t = map_option fst (map_of (snd (snd (layout t))) m)"

section \<open>The structures\<close>

text \<open>\<open>nsocket.h\<close>\<close>

definition c_nsockaddr :: ctype where
  "c_nsockaddr = Struct
    [(''family'', c_u16), (''enable_mask'', c_u16), (''prefix'', c_ptr), (''plen'', c_u64), (''face_id'', c_u16)]"

definition c_cmn_tinfo :: ctype where
  "c_cmn_tinfo = Struct
    [(''base_name_len'', c_u16), (''pin'', Array c_char 4), (''min_seg_num'', c_u32), (''max_seg_num'', c_u32),
     (''mtu'', c_u16), (''pkt_len'', c_u16)]"

definition c_gen_tinfo :: ctype where
  "c_gen_tinfo = Struct
    [(''tbuf_len'', c_u16), (''__first'', c_char)]"

definition c_nack_tinfo :: ctype where
  "c_nack_tinfo = Struct
    [(''__first'', c_char)]"

definition c_touch_info :: ctype where
  "c_touch_info = Struct
    [(''touchinfo_type'', c_u16), (''name'', c_ptr), (''nlen'', c_u16), (''nack'', c_char), (''nack_clen'', c_u16),
     (''__realsize'', c_u32),
     ('''', Union [(''cmn_tinfo'', c_cmn_tinfo), (''gen_tinfo'', c_gen_tinfo), (''nack_tinfo'', c_nack_tinfo)])]"

definition c_status_info :: ctype where
  "c_status_info = Struct
    [(''watch_id'', c_u32), (''satisfied'', c_char), (''nlen'', c_u64), (''name_buf'', c_ptr)]"

definition c_stat_info :: ctype where
  "c_stat_info = Struct
    [(''watch_id'', c_u32), (''satisfied'', c_char), (''nlen'', c_u64), (''msg_p'', c_ptr)]"

definition c_isockbuf :: ctype where
  "c_isockbuf = Struct
    [(''type'', c_u32), (''name'', c_ptr), (''nlen'', c_u16), (''data'', c_ptr), (''dlen'', c_u64),
     ('''', Union
        [('''', Struct [(''i_flags'', c_char), (''i_life_time'', c_u32), (''exp_data_digest'', c_u64), (''app_params_len'', c_u32),
           (''app_params'', c_ptr)]),
         ('''', Struct [(''d_type'', c_char), (''fresh_period'', c_u32), (''sig_len'', c_u32), (''sig'', c_ptr)])])]"

definition c_isockbuf_k :: ctype where
  "c_isockbuf_k = Struct
    [(''type'', c_u32), (''nmsg_p'', c_ptr), (''nlen'', c_u16), (''dmsg_p'', c_ptr), (''dlen'', c_u64),
     ('''', Union
        [('''', Struct [(''i_flags'', c_char), (''i_life_time'', c_u32), (''exp_data_digest'', c_u64), (''app_params_len'', c_u32),
           (''app_msg_p'', c_ptr)]),
         ('''', Struct [(''d_type'', c_char), (''fresh_period'', c_u32), (''sig_len'', c_u32), (''sig_msg_p'', c_ptr)])])]"

definition c_isockbuf_k_u :: ctype where
  "c_isockbuf_k_u = Struct
    [(''isk_buf'', c_ptr), (''u_name'', c_ptr), (''u_data'', c_ptr), ('''', Union [(''u_app'', c_ptr), (''u_sig'', c_ptr)])]"

definition c_fib_entry_in :: ctype where
  "c_fib_entry_in = Struct
    [(''prefix'', c_ptr), (''len'', c_u16), (''face_id'', c_char)]"

text \<open>\<open>adaptor.h\<close> and, in the simulator, \<open>ndn-app-mixsim.hpp\<close>\<close>

definition adaptor_packet :: ctype where
  "adaptor_packet = Struct [(''nlen'', c_u32), (''dlen'', c_u32), (''buf'', Array c_char 2040)]"

definition mixsim_packet :: ctype where
  "mixsim_packet = Struct [(''nlen'', c_u32), (''dlen'', c_u32), (''buf'', Array c_char 2040)]"

text \<open>\<open>name_udp_table.h\<close>; \<open>struct sockaddr_in\<close> of the system has 16 bytes aligned to four.\<close>

definition c_sockaddr_in :: ctype where
  "c_sockaddr_in = Struct [(''sin_family'', c_u16), (''sin_port'', c_u16), (''sin_addr'', c_u32), (''sin_zero'', Array c_char 8)]"

definition c_nut_entry :: ctype where
  "c_nut_entry = Struct
    [(''name_len'', c_u16), (''addr_num'', c_u16), (''deleted'', c_u16), (''canstop'', c_u16),
     (''name'', Array c_char 1024), (''addr'', Array c_sockaddr_in 8)]"

definition c_nut :: ctype where
  "c_nut = Struct [(''table_cap'', c_u32), (''entry_num'', c_u32), (''entries'', c_ptr)]"

text \<open>\<open>lfq.h\<close>\<close>

definition c_lfq_node :: ctype where
  "c_lfq_node = Struct
    [(''data'', c_ptr), ('''', Union [(''next'', c_ptr), (''free_next'', c_ptr)]), (''can_free'', c_u32)]"

definition c_lfq_ctx :: ctype where
  "c_lfq_ctx = Struct
    [(''head'', Aligned 64 c_ptr), (''count'', c_u32), (''HP'', c_ptr), (''tid_map'', c_ptr), (''is_freeing'', c_u32),
     (''fph'', c_ptr), (''fpt'', c_ptr), (''MAXHPSIZE'', c_u32), (''tail'', Aligned 64 c_ptr)]"

section \<open>Members do not overlap\<close>

lemma round_up_facts:
  assumes "0 < a"
  shows "n \<le> round_up a n" "a dvd round_up a n" "round_up a n < n + a"
proof -
  have e: "round_up a n + (n + a - 1) mod a = n + a - 1" by (simp add: round_up_def)
  moreover have "(n + a - 1) mod a < a" using assms by simp
  ultimately show "n \<le> round_up a n" using assms by linarith
  show "round_up a n < n + a" using e assms by linarith
qed (simp add: round_up_def)

lemma place_from:
  assumes "\<forall>f \<in> set fs. 0 < fst (snd f)" "(p, m, a, s, ms) \<in> set (place n fs)"
  shows "n \<le> p \<and> a dvd p"
  using assms
proof (induction n fs rule: place.induct)
  case (2 n m' a' s' ms' fs)
  note r = round_up_facts [of a' n]
  have a': "0 < a'" "\<forall>f \<in> set fs. 0 < fst (snd f)" using 2 by auto
  show ?case
  proof (cases "(p, m, a, s, ms) \<in> set (place (round_up a' n + s') fs)")
    case True
    from 2 have "round_up a' n + s' \<le> p \<and> a dvd p" using True a'(2) by blast
    then show ?thesis using r a'(1) by simp
  next
    case False
    with 2 have "p = round_up a' n" "a = a'" by auto
    then show ?thesis using r a'(1) by simp
  qed
qed simp

lemma place_disjoint:
  assumes "\<forall>f \<in> set fs. 0 < fst (snd f)"
  shows "sorted_wrt (\<lambda>(p, m, a, s, ms) (p', m', a', s', ms'). p + s \<le> p') (place n fs)"
  using assms
proof (induction n fs rule: place.induct)
  case (2 n m a s ms fs)
  then have fs: "\<forall>f \<in> set fs. 0 < fst (snd f)" by simp
  have "q \<le> p'" if "(p', f) \<in> set (place q fs)" for p' f q
    using place_from [OF fs, of p' "fst f" "fst (snd f)" "fst (snd (snd f))" "snd (snd (snd f))" q] that by simp
  with 2 fs show ?case by auto
qed simp

text \<open>In a structure every member lies behind the one before and at a multiple of its alignment.\<close>

lemma struct_members:
  assumes "\<forall>f \<in> set fs. 0 < fst (snd f)"
  shows "sorted_wrt (\<lambda>(p, m, a, s, ms) (p', m', a', s', ms'). p + s \<le> p') (place 0 fs)"
    "\<forall>(p, m, a, s, ms) \<in> set (place 0 fs). a dvd p"
  using place_disjoint [OF assms] place_from [OF assms] by auto

section \<open>The numbers of the other theories\<close>

lemma node_layout:
  "size_of c_lfq_node = sizeof_lfq_node" "offset_of ''next'' c_lfq_node = offset_of ''free_next'' c_lfq_node"
  by code_simp+

text \<open>As the comment in \<open>lfq.h\<close> says, head and tail are in different cache lines of 64 bytes.\<close>

lemma ctx_layout:
  "offset_of ''head'' c_lfq_ctx = Some 0" "offset_of ''tail'' c_lfq_ctx = Some 64" "size_of c_lfq_ctx = 128"
  by code_simp+

lemma isockbuf_layout:
  "offset_of ''i_flags'' c_isockbuf = Some 40" "offset_of ''d_type'' c_isockbuf = Some 40"
  "offset_of ''i_life_time'' c_isockbuf = Some 44" "offset_of ''fresh_period'' c_isockbuf = Some 44"
  "size_of c_isockbuf = 72" "size_of c_isockbuf_k = size_of c_isockbuf"
  by code_simp+

lemma tinfo_layout:
  "size_of c_cmn_tinfo = 20" "offset_of ''base_name_len'' c_cmn_tinfo = Some 0" "offset_of ''pin'' c_cmn_tinfo = Some 2"
  "offset_of ''min_seg_num'' c_cmn_tinfo = Some 8" "offset_of ''max_seg_num'' c_cmn_tinfo = Some 12"
  "offset_of ''mtu'' c_cmn_tinfo = Some 16" "offset_of ''pkt_len'' c_cmn_tinfo = Some 18"
  "offset_of ''tbuf_len'' c_gen_tinfo = Some 0" "offset_of ''__first'' c_gen_tinfo = Some 2"
  "offset_of ''__first'' c_nack_tinfo = Some 0" "offset_of ''cmn_tinfo'' c_touch_info = offset_of ''gen_tinfo'' c_touch_info"
  "offset_of ''nack_tinfo'' c_touch_info = offset_of ''gen_tinfo'' c_touch_info"
  by code_simp+

text \<open>The note above \<open>struct nsockaddr\<close> that its size is at most 128 is right.\<close>

lemma nsockaddr_layout: "size_of c_nsockaddr = 32" by code_simp

lemma table_layout: "size_of c_nut_entry = 1160" "offset_of ''addr'' c_nut_entry = Some 1032" "size_of c_nut = 16"
  by code_simp+

section \<open>The packet between the two programs\<close>

text \<open>
  The adaptor and the simulator's application declare the structure they exchange each for itself, one in C and one in
  C++, and send it as a block of memory: both declarations have the same layout, and it is the one the
  datagrams are made and read with, 2048 bytes in which \<open>nlen\<close>, \<open>dlen\<close> and \<open>buf\<close> lie at the offsets of the members.
\<close>

lemma packet_layouts_agree:
  assumes "nd_ok d"
  shows "layout mixsim_packet = layout adaptor_packet \<and> length (nd_bytes d) = size_of adaptor_packet
     \<and> sizeof_simple_name_data = size_of adaptor_packet
     \<and> (\<exists>i j k. offset_of ''nlen'' adaptor_packet = Some i \<and> take 4 (drop i (nd_bytes d)) = u32_bytes (nd_nlen d)
          \<and> offset_of ''dlen'' adaptor_packet = Some j \<and> take 4 (drop j (nd_bytes d)) = u32_bytes (nd_dlen d)
          \<and> offset_of ''buf'' adaptor_packet = Some k \<and> drop k (nd_bytes d) = nd_buf d)"
proof -
  have "layout mixsim_packet = layout adaptor_packet" by (simp add: mixsim_packet_def adaptor_packet_def)
  moreover have "size_of adaptor_packet = 2048" by code_simp
  moreover have "offset_of ''nlen'' adaptor_packet = Some 0" "offset_of ''dlen'' adaptor_packet = Some 4"
    "offset_of ''buf'' adaptor_packet = Some 8" by code_simp+
  moreover have "take 4 (drop 0 (nd_bytes d)) = u32_bytes (nd_nlen d)" "take 4 (drop 4 (nd_bytes d)) = u32_bytes (nd_dlen d)"
    "drop 8 (nd_bytes d) = nd_buf d" by (simp_all add: nd_bytes_def)
  ultimately show ?thesis using length_nd_bytes [OF assms] by (auto simp: sizeof_simple_name_data_def)
qed

lemma packet_layouts_agree_witness:
  "size_of adaptor_packet = 2048 \<and> layout mixsim_packet = layout adaptor_packet"
proof -
  let ?d = "\<lparr>nd_nlen = 6, nd_dlen = 0, nd_buf = replicate 2040 CHR ''a''\<rparr>"
  have "nd_ok ?d" by (simp add: nd_ok_def)
  from packet_layouts_agree [OF this] show ?thesis by (simp add: sizeof_simple_name_data_def)
qed

end
