(* ===== verification/Demo_Headers.thy ===== *)
theory Demo_Headers
  imports Layout
begin

text \<open>
  The headers \<open>nsocket.h\<close> and \<open>isockethdr.h\<close> under \<open>src/demo/mix-request/\<close>, which \<open>consumer.c\<close> and \<open>time_server.c\<close>
  include in place of the adaptor's.  They are copies kept by hand; all programs talk to the same kernel with them.
  Each is translated for itself, and the last section shows that the copies agree in every structure, number and function.
\<close>

section \<open>\<open>nsocket.h\<close>\<close>

definition demo_nsockaddr :: ctype where
  "demo_nsockaddr = Struct
    [(''family'', c_u16), (''enable_mask'', c_u16), (''prefix'', c_ptr), (''plen'', c_u64), (''face_id'', c_u16)]"

definition demo_cmn_tinfo :: ctype where
  "demo_cmn_tinfo = Struct
    [(''base_name_len'', c_u16), (''pin'', Array c_char 4), (''min_seg_num'', c_u32), (''max_seg_num'', c_u32),
     (''mtu'', c_u16), (''pkt_len'', c_u16)]"

definition demo_gen_tinfo :: ctype where
  "demo_gen_tinfo = Struct
    [(''tbuf_len'', c_u16), (''__first'', c_char)]"

definition demo_nack_tinfo :: ctype where
  "demo_nack_tinfo = Struct
    [(''__first'', c_char)]"

definition demo_touch_info :: ctype where
  "demo_touch_info = Struct
    [(''touchinfo_type'', c_u16), (''name'', c_ptr), (''nlen'', c_u16), (''nack'', c_char), (''nack_clen'', c_u16),
     (''__realsize'', c_u32),
     ('''', Union [(''cmn_tinfo'', demo_cmn_tinfo), (''gen_tinfo'', demo_gen_tinfo), (''nack_tinfo'', demo_nack_tinfo)])]"

definition demo_status_info :: ctype where
  "demo_status_info = Struct
    [(''watch_id'', c_u32), (''satisfied'', c_char), (''nlen'', c_u64), (''name_buf'', c_ptr)]"

definition demo_stat_info :: ctype where
  "demo_stat_info = Struct
    [(''watch_id'', c_u32), (''satisfied'', c_char), (''nlen'', c_u64), (''msg_p'', c_ptr)]"

definition demo_isockbuf :: ctype where
  "demo_isockbuf = Struct
    [(''type'', c_u32), (''name'', c_ptr), (''nlen'', c_u16), (''data'', c_ptr), (''dlen'', c_u64),
     ('''', Union
        [('''', Struct [(''i_flags'', c_char), (''i_life_time'', c_u32), (''exp_data_digest'', c_u64), (''app_params_len'', c_u32),
           (''app_params'', c_ptr)]),
         ('''', Struct [(''d_type'', c_char), (''fresh_period'', c_u32), (''sig_len'', c_u32), (''sig'', c_ptr)])])]"

definition demo_isockbuf_k :: ctype where
  "demo_isockbuf_k = Struct
    [(''type'', c_u32), (''nmsg_p'', c_ptr), (''nlen'', c_u16), (''dmsg_p'', c_ptr), (''dlen'', c_u64),
     ('''', Union
        [('''', Struct [(''i_flags'', c_char), (''i_life_time'', c_u32), (''exp_data_digest'', c_u64), (''app_params_len'', c_u32),
           (''app_msg_p'', c_ptr)]),
         ('''', Struct [(''d_type'', c_char), (''fresh_period'', c_u32), (''sig_len'', c_u32), (''sig_msg_p'', c_ptr)])])]"

definition demo_isockbuf_k_u :: ctype where
  "demo_isockbuf_k_u = Struct
    [(''isk_buf'', c_ptr), (''u_name'', c_ptr), (''u_data'', c_ptr), ('''', Union [(''u_app'', c_ptr), (''u_sig'', c_ptr)])]"

definition demo_fib_entry_in :: ctype where
  "demo_fib_entry_in = Struct
    [(''prefix'', c_ptr), (''len'', c_u16), (''face_id'', c_char)]"

text \<open>\<open>TYPE_INTEREST\<close>, \<open>TYPE_DATA\<close>, the flags of an interest and the types of data\<close>

definition demo_packet_types :: "u32 list" where "demo_packet_types = [0x05, 0x06]"
definition demo_interest_flags :: "u8 list" where "demo_interest_flags = [0x01, 0x02, 0x04]"
definition demo_data_types :: "u8 list" where "demo_data_types = [0x00, 0x01, 0x02, 0x04]"

text \<open>The readers of touch information\<close>

definition demo_cmn_tinfo_basenamelen :: "touch_info \<Rightarrow> u16" where
  "demo_cmn_tinfo_basenamelen t = bytes_u16 (field 0 2 t)"

definition demo_cmn_tinfo_pin :: "touch_info \<Rightarrow> char list" where
  "demo_cmn_tinfo_pin t = drop 2 (ti_union t)"

definition demo_cmn_tinfo_minsegnum :: "touch_info \<Rightarrow> u32" where
  "demo_cmn_tinfo_minsegnum t = bytes_u32 (field 8 4 t)"

definition demo_cmn_tinfo_maxsegnum :: "touch_info \<Rightarrow> u32" where
  "demo_cmn_tinfo_maxsegnum t = bytes_u32 (field 12 4 t)"

definition demo_cmn_tinfo_mtu :: "touch_info \<Rightarrow> u32" where
  "demo_cmn_tinfo_mtu t = ucast (bytes_u16 (field 16 2 t))"

definition demo_cmn_tinfo_pktlen :: "touch_info \<Rightarrow> u16" where
  "demo_cmn_tinfo_pktlen t = bytes_u16 (field 18 2 t)"

definition demo_gen_tinfo_len :: "touch_info \<Rightarrow> u16" where
  "demo_gen_tinfo_len t = bytes_u16 (field 0 2 t)"

definition demo_gen_tinfo_data :: "touch_info \<Rightarrow> char list" where
  "demo_gen_tinfo_data t = drop 2 (ti_union t)"

definition demo_nack_tinfo_data :: "touch_info \<Rightarrow> char list" where
  "demo_nack_tinfo_data t = ti_union t"

section \<open>\<open>isockethdr.h\<close>\<close>

primrec demo_x86_64_number :: "nip_call \<Rightarrow> int" where
  "demo_x86_64_number SYS_isend = 333"
| "demo_x86_64_number SYS_irecv = 334"
| "demo_x86_64_number SYS_touch = 335"
| "demo_x86_64_number SYS_request = 336"
| "demo_x86_64_number SYS_publish = 337"
| "demo_x86_64_number SYS_unpublish = 338"
| "demo_x86_64_number SYS_pump = 339"
| "demo_x86_64_number SYS_unpump = 340"
| "demo_x86_64_number SYS_cast = 341"
| "demo_x86_64_number SYS_watch = 342"
| "demo_x86_64_number SYS_unwatch = 343"
| "demo_x86_64_number SYS_status = 344"

primrec demo_arm_number :: "nip_call \<Rightarrow> int" where
  "demo_arm_number SYS_isend = 400"
| "demo_arm_number SYS_irecv = 401"
| "demo_arm_number SYS_touch = 402"
| "demo_arm_number SYS_request = 403"
| "demo_arm_number SYS_publish = 404"
| "demo_arm_number SYS_unpublish = 405"
| "demo_arm_number SYS_pump = 406"
| "demo_arm_number SYS_unpump = 407"
| "demo_arm_number SYS_cast = 408"
| "demo_arm_number SYS_watch = 409"
| "demo_arm_number SYS_unwatch = 410"
| "demo_arm_number SYS_status = 411"

definition demo_sys_number :: "arch \<Rightarrow> nip_call \<Rightarrow> int" where
  "demo_sys_number ar c = (case ar of X86_64 \<Rightarrow> demo_x86_64_number c | Arm \<Rightarrow> demo_arm_number c)"

function demo_get_nlen_loop :: "char list \<Rightarrow> int \<Rightarrow> int \<Rightarrow> int option" where
  "demo_get_nlen_loop nm bound i =
     (if i < bound
      then do { c \<leftarrow> aread nm i; if c = CHR 0x0A then Some i else demo_get_nlen_loop nm bound (i + 1) }
      else Some i)"
  by pat_completeness auto
termination
  by (relation "measure (\<lambda>(nm, bound, i). nat (bound - i))") auto

declare demo_get_nlen_loop.simps [simp del]

definition demo_get_nlen :: "char list \<Rightarrow> int \<Rightarrow> int option" where
  "demo_get_nlen nm bound = demo_get_nlen_loop nm bound 0"

definition demo_isend :: "arch \<Rightarrow> sys \<Rightarrow> int \<Rightarrow> addr \<Rightarrow> u64 \<Rightarrow> u32 \<Rightarrow> int" where
  "demo_isend ar sys fd ibuf len flags = to_int (sys (demo_sys_number ar SYS_isend) [Fd fd, Ptr ibuf, Size len, Unsigned flags])"

definition demo_irecv :: "arch \<Rightarrow> sys \<Rightarrow> int \<Rightarrow> addr \<Rightarrow> u64 \<Rightarrow> u32 \<Rightarrow> int" where
  "demo_irecv ar sys fd ibuf len flags = to_int (sys (demo_sys_number ar SYS_irecv) [Fd fd, Ptr ibuf, Size len, Unsigned flags])"

definition demo_touch :: "arch \<Rightarrow> sys \<Rightarrow> int \<Rightarrow> addr \<Rightarrow> u64 \<Rightarrow> u32 \<Rightarrow> int" where
  "demo_touch ar sys fd tbuf buf_size flags =
     to_int (sys (demo_sys_number ar SYS_touch) [Fd fd, Ptr tbuf, Size buf_size, Unsigned flags])"

definition demo_request :: "arch \<Rightarrow> sys \<Rightarrow> int \<Rightarrow> addr \<Rightarrow> u64 \<Rightarrow> int" where
  "demo_request ar sys fd buf len = to_int (sys (demo_sys_number ar SYS_request) [Fd fd, Ptr buf, Size len])"

definition demo_publish :: "arch \<Rightarrow> sys \<Rightarrow> int \<Rightarrow> addr \<Rightarrow> u64 \<Rightarrow> int" where
  "demo_publish ar sys fd buf len = to_int (sys (demo_sys_number ar SYS_publish) [Fd fd, Ptr buf, Size len])"

definition demo_unpublish :: "arch \<Rightarrow> sys \<Rightarrow> int \<Rightarrow> addr \<Rightarrow> u64 \<Rightarrow> int" where
  "demo_unpublish ar sys fd name nlen = to_int (sys (demo_sys_number ar SYS_unpublish) [Fd fd, Ptr name, Size nlen])"

definition demo_pump :: "arch \<Rightarrow> sys \<Rightarrow> int \<Rightarrow> addr \<Rightarrow> u64 \<Rightarrow> u32 \<Rightarrow> u32 \<Rightarrow> int" where
  "demo_pump ar sys fd buf len seg_limit flags =
     to_int (sys (demo_sys_number ar SYS_pump) [Fd fd, Ptr buf, Size len, Unsigned seg_limit, Unsigned flags])"

definition demo_unpump :: "arch \<Rightarrow> sys \<Rightarrow> int \<Rightarrow> addr \<Rightarrow> u64 \<Rightarrow> int" where
  "demo_unpump ar sys fd name nlen = to_int (sys (demo_sys_number ar SYS_unpump) [Fd fd, Ptr name, Size nlen])"

definition demo_cast :: "arch \<Rightarrow> sys \<Rightarrow> int \<Rightarrow> addr \<Rightarrow> u64 \<Rightarrow> u32 \<Rightarrow> int" where
  "demo_cast ar sys fd buf len life_time =
     to_int (sys (demo_sys_number ar SYS_cast) [Fd fd, Ptr buf, Size len, Unsigned life_time])"

definition demo_watch :: "arch \<Rightarrow> sys \<Rightarrow> int \<Rightarrow> addr \<Rightarrow> u64 \<Rightarrow> int" where
  "demo_watch ar sys fd name nlen = to_int (sys (demo_sys_number ar SYS_watch) [Fd fd, Ptr name, Size nlen])"

definition demo_unwatch :: "arch \<Rightarrow> sys \<Rightarrow> int \<Rightarrow> addr \<Rightarrow> u64 \<Rightarrow> int" where
  "demo_unwatch ar sys fd name nlen = to_int (sys (demo_sys_number ar SYS_unwatch) [Fd fd, Ptr name, Size nlen])"

definition demo_status_call :: "arch \<Rightarrow> sys \<Rightarrow> int \<Rightarrow> addr \<Rightarrow> u64 \<Rightarrow> u32 \<Rightarrow> int" where
  "demo_status_call ar sys fd stat_buf buf_len flags =
     to_int (sys (demo_sys_number ar SYS_status) [Fd fd, Ptr stat_buf, Size buf_len, Unsigned flags])"

section \<open>The copies agree\<close>

lemmas demo_struct_defs =
  c_nsockaddr_def demo_nsockaddr_def
  c_cmn_tinfo_def demo_cmn_tinfo_def
  c_gen_tinfo_def demo_gen_tinfo_def
  c_nack_tinfo_def demo_nack_tinfo_def
  c_touch_info_def demo_touch_info_def
  c_status_info_def demo_status_info_def
  c_stat_info_def demo_stat_info_def
  c_isockbuf_def demo_isockbuf_def
  c_isockbuf_k_def demo_isockbuf_k_def
  c_isockbuf_k_u_def demo_isockbuf_k_u_def
  c_fib_entry_in_def demo_fib_entry_in_def

lemma demo_structs:
  "demo_nsockaddr = c_nsockaddr"
  "demo_cmn_tinfo = c_cmn_tinfo"
  "demo_gen_tinfo = c_gen_tinfo"
  "demo_nack_tinfo = c_nack_tinfo"
  "demo_touch_info = c_touch_info"
  "demo_status_info = c_status_info"
  "demo_stat_info = c_stat_info"
  "demo_isockbuf = c_isockbuf"
  "demo_isockbuf_k = c_isockbuf_k"
  "demo_isockbuf_k_u = c_isockbuf_k_u"
  "demo_fib_entry_in = c_fib_entry_in"
  by (simp_all add: demo_struct_defs)

lemma demo_constants:
  "demo_packet_types = [TYPE_INTEREST, TYPE_DATA]" "demo_interest_flags ! 1 = I_CANBEPREFIX" "demo_interest_flags ! 2 = I_MUSTBEFRESH"
  "demo_data_types ! 0 = D_BLOB" "demo_data_types ! 1 = D_NACK"
  by (simp_all add: demo_packet_types_def demo_interest_flags_def demo_data_types_def TYPE_INTEREST_def TYPE_DATA_def
      I_CANBEPREFIX_def I_MUSTBEFRESH_def D_BLOB_def D_NACK_def)

lemma demo_readers:
  "demo_cmn_tinfo_basenamelen = cmn_tinfo_basenamelen"
  "demo_cmn_tinfo_pin = cmn_tinfo_pin"
  "demo_cmn_tinfo_minsegnum = cmn_tinfo_minsegnum"
  "demo_cmn_tinfo_maxsegnum = cmn_tinfo_maxsegnum"
  "demo_cmn_tinfo_mtu = cmn_tinfo_mtu"
  "demo_cmn_tinfo_pktlen = cmn_tinfo_pktlen"
  "demo_gen_tinfo_len = gen_tinfo_len"
  "demo_gen_tinfo_data = gen_tinfo_data"
  "demo_nack_tinfo_data = nack_tinfo_data"
  by (simp_all add: fun_eq_iff
    cmn_tinfo_basenamelen_def demo_cmn_tinfo_basenamelen_def
    cmn_tinfo_pin_def demo_cmn_tinfo_pin_def
    cmn_tinfo_minsegnum_def demo_cmn_tinfo_minsegnum_def
    cmn_tinfo_maxsegnum_def demo_cmn_tinfo_maxsegnum_def
    cmn_tinfo_mtu_def demo_cmn_tinfo_mtu_def
    cmn_tinfo_pktlen_def demo_cmn_tinfo_pktlen_def
    gen_tinfo_len_def demo_gen_tinfo_len_def
    gen_tinfo_data_def demo_gen_tinfo_data_def
    nack_tinfo_data_def demo_nack_tinfo_data_def)

lemma demo_sys_number: "demo_sys_number = sys_number"
proof (intro ext)
  show "demo_sys_number ar c = sys_number ar c" for ar c
    by (cases ar; cases c) (simp_all add: demo_sys_number_def sys_number_def)
qed

lemma demo_wrappers:
  "demo_isend = isend"
  "demo_irecv = irecv"
  "demo_touch = touch"
  "demo_request = request"
  "demo_publish = publish"
  "demo_unpublish = unpublish"
  "demo_pump = pump"
  "demo_unpump = unpump"
  "demo_cast = cast"
  "demo_watch = watch"
  "demo_unwatch = unwatch"
  "demo_status_call = status_call"
  by (simp_all add: fun_eq_iff demo_sys_number
    isend_def demo_isend_def
    irecv_def demo_irecv_def
    touch_def demo_touch_def
    request_def demo_request_def
    publish_def demo_publish_def
    unpublish_def demo_unpublish_def
    pump_def demo_pump_def
    unpump_def demo_unpump_def
    cast_def demo_cast_def
    watch_def demo_watch_def
    unwatch_def demo_unwatch_def
    status_call_def demo_status_call_def)

lemma demo_get_nlen_loop: "demo_get_nlen_loop nm b i = get_nlen_loop nm b i"
proof (induction nm b i rule: demo_get_nlen_loop.induct)
  case (1 nm b i)
  show ?case
  proof (cases "aread nm i")
    case (Some c)
    then show ?thesis using 1 by (simp add: demo_get_nlen_loop.simps [of nm] get_nlen_loop.simps [of nm])
  qed (simp add: demo_get_nlen_loop.simps [of nm] get_nlen_loop.simps [of nm])
qed

lemma demo_get_nlen: "demo_get_nlen = get_nlen"
  by (simp add: fun_eq_iff demo_get_nlen_def get_nlen_def demo_get_nlen_loop)

end
