(* ===== verification/Spec2Isabelle.thy ===== *)
theory Spec2Isabelle
  imports Lfq_Props Lfq_Threads_Props Nut_Props Adaptor_Props App_Props Demo_Props End_To_End Scenario Isocket
    Adaptor_Live_Props App_Sockets Demo_Headers
begin

text \<open>
  mixsim lets a simulated named-data network (ndnSIM) exchange packets with a real one.

  The program's parts and how they interact.  Inside the simulator the application \<open>AppMixSim\<close>
  (\<open>src/ndnSIM/apps/ndn-app-mixsim.cpp\<close>) turns packets into UDP datagrams for the adaptor and back.  The
  adaptor (\<open>src/adaptor/\<close>) is one process with eight coroutines on one thread: four talk to UDP sockets
  (\<open>udp_adaptor.c\<close>), four to named-data sockets (\<open>nip_adaptor.c\<close>).  They hand packets over in buffers
  through four queues, take buffers from and return them to a fifth queue (\<open>lfq.c\<close>), and keep in a
  table (\<open>name_udp_table.c\<close>) which UDP endpoints wait for the data of a name.  On the real network
  \<open>time_server.c\<close>, \<open>testprovider.c\<close> and \<open>consumer.c\<close> serve and ask; inside the simulator
  \<open>ndn-provider-virtual.cpp\<close> is a provider that asks the time server.

  Conventions (\<open>Mixsim_Prelude\<close>).  Integers are words of their width, addresses 64-bit words.  Undefined
  behaviour, an access outside an array or to memory that is not allocated, is \<open>None\<close>; so is a loop that
  does not end.  A theorem that an operation gives \<open>Some\<close> therefore says that it ends and is memory safe.
  Code that is not in the repository is an argument: dyco's answers, the socket calls, the allocators, the
  TLV decoder, ndnSIM.

  The theories, in the order of the code's layers:

  \<^item> \<open>Atomics\<close>, \<open>Lfq\<close>: \<open>cross-platform.h\<close> and \<open>lfq.c\<close>, every operation over a store of nodes, run by one
    thread to its end.  \<open>Fifo\<close> is the queue's contract as a locale.  \<open>Lfq_Seq\<close> has the invariant (a list
    of cells for the queue, one for the pool of nodes to be freed), the effect of every operation and the
    interpretations of the contract; \<open>Lfq_Frame\<close> what the operations do to the store from any state.
    \<open>Lfq_Props\<close>: the queue is a FIFO list, owns two nodes more than it has elements, when nodes are freed and
    why not earlier, initialisation and cleaning with their failures.

  \<^item> \<open>Lfq_Threads\<close>: \<open>lfq_enqueue\<close> and \<open>lfq_dequeue\<close> again, as any number of threads run them on one queue, one access
    to shared memory per step; memory is sequentially consistent.  \<open>Lfq_Resources\<close> says which nodes, array
    elements and locks a thread holds at each place of the code, \<open>Lfq_Threads_Inv\<close> is the invariant and what
    a thread knows at each place, \<open>Lfq_Threads_Steps\<close> shows that every step keeps both, its own and those of
    the others.  \<open>Lfq_Threads_Refine\<close> has the atomic FIFO queue, simulation as a locale and its interpretation
    for the two.  \<open>Lfq_Alone\<close> is a thread that is not interrupted: how many steps it takes, and that they are
    the operation of \<open>Lfq\<close>.  \<open>Lfq_Schedules\<close> has two runs the atomic queue has not.  \<open>Lfq_Threads_Props\<close>: no
    interleaving touches freed memory, the queue is an atomic FIFO queue but for two ways to miss an element, it
    is whole again when the threads are out, nobody waits for anybody, and the two models of a call agree.

  \<^item> \<open>Nut\<close>: \<open>name_udp_table.c\<close>.  \<open>Name_Map\<close> is the table's contract, a map from names to at most eight
    endpoints.  \<open>Nut_Proofs\<close> has the invariant, the abstraction to the map and the interpretation.
    \<open>Nut_Props\<close>: registering, looking up, growing, reuse of deleted entries, names that do not
    fit, and the test program \<open>nut_test.c\<close>, which \<open>Nut_Test\<close> models.

  \<^item> \<open>Buffers\<close> and \<open>Nsocket\<close>: the packet buffer with its memory layout, the structures of the sockets.
    \<open>Adaptor\<close>: the state of the adaptor and one function per coroutine that resumes it from where it is
    suspended to the next call of dyco, and \<open>init_adaptor\<close>.  \<open>Adaptor_Inv\<close> says who owns which buffer and
    has the step of each coroutine from each place it can be resumed at.  \<open>Relay\<close> is the abstract
    specification, four channels and a map; \<open>Adaptor_Refine\<close> shows that every coroutine takes its step.
    \<open>Adaptor_Init\<close> has the initial state, the reachable states and the environments that hand out fresh
    memory, \<open>Adaptor_Leaks\<close> which buffers are lost, \<open>Adaptor_Run\<close> runs from the start.  \<open>Adaptor_Props\<close>:
    no memory error while the environment keeps to its part, the reads of \<open>isend\<close> included, no buffer in two
    places, the refinement of the relay, all who wait are answered, how many buffers are lost, and the inputs the
    adaptor does not check: datagrams that are too long, headers that announce more than a buffer holds, content
    that does not fit behind its name, and an interest that makes the table grow while data is being sent.

  \<^item> \<open>Progress\<close>: what a channel and a request promise step by step, as locales, and what follows for every run in which
    some steps come often enough.  \<open>Adaptor_Live\<close> interprets them for the relay, \<open>Adaptor_Live_Props\<close> has the liveness of
    the adaptor: queued packets leave in their order and data that has arrived reaches who waits for it, in whatever
    order the scheduler resumes the coroutines while the environment keeps to its part.

  \<^item> \<open>C_Strings\<close>, \<open>App_Mixsim\<close>: the simulator's application.  \<open>App_Props\<close>: packets survive the
    datagrams, numbers of ten digits overflow a buffer, the prefixes are split at dollar signs, the
    simulated clock follows the real one.  \<open>App_Sockets\<close>: the application as the server of its two sockets, by the
    contracts of \<open>Progress\<close> again: all that arrives is handed over, at most one packet of each socket per tick.

  \<^item> \<open>Provider\<close>, \<open>Demo_Servers\<close>, \<open>Nip_Pkt\<close>: the provider in the simulator, the programs on the real network, the
    packet tools, and in \<open>Demo_Props\<close> their properties.

  \<^item> \<open>Adaptor_Serving\<close>, \<open>End_To_End\<close>: runs of the adaptor one after the other, what the network between \<open>isend\<close> and
    \<open>irecv\<close> promises, and the exchanges between the parts.  The properties of this theory: a consumer in the
    simulator gets the time from the server on the real network, and a consumer on the real network gets the
    answer of the provider in the simulator, through every part of the program, unless another consumer overtakes it;
    the content is empty when the byte the server leaves uninitialised makes the adaptor take its data for a NACK.

  \<^item> \<open>Scenario\<close>: the attribute tables of the two applications and the scenario \<open>ndn-simple.cpp\<close>; the last property of
    this theory says that its ports and prefixes are those of the adaptor and the servers.  \<open>Isocket\<close>: the
    system-call wrappers of \<open>isockethdr.h\<close> and the touch information of \<open>nsocket.h\<close>, which the programs do not use
    beyond \<open>isend\<close> and \<open>irecv\<close>.  \<open>Layout\<close>: how structures lie in memory, all structures of the headers, and that
    the offsets and sizes the other theories use are theirs.  \<open>Demo_Headers\<close>: the copies of the two socket headers under
    \<open>src/demo/\<close>, and that they agree with the adaptor's.

  Uninitialised memory.  The descriptors \<open>nip_data_out\<close>, \<open>nip_interest_out\<close>, the servers and the consumer declare on the
  stack are set in part; the other members, \<open>d_type\<close> among them, are what an argument of the step says the stack holds
  (\<open>s_junk\<close>, \<open>d_junk\<close>, \<open>junk\<close>).  No theorem assumes anything about them.

  What the adaptor's environment must keep to (\<open>ev_ok\<close> for a state, \<open>run_evs\<close> for a run): the allocator hands out fresh
  memory, datagrams fit a buffer and their header announces no more than it holds, \<open>irecv\<close> leaves true lengths, and while
  \<open>udp_data_out\<close> is sending, an interest comes only when the name table has a slot for another name, in a run while fewer
  than 32 names, the first size of the table, are waited for.  \<open>Adaptor_Props\<close> shows what happens when a datagram, an answer of \<open>irecv\<close> or an interest does not.

  Bounds.  Loops of the code are recursive functions with a proof that they end, or partial functions that
  are shown to have a result where a property needs one; no fuel is used.  The name table is taken to
  have fewer than 2^30 entries, the runs from the initial state fewer than 2^30 events: beyond that its
  32-bit capacity overflows.  The signed 64-bit arithmetic of \<open>AnalyzeTimeDiff\<close> is undefined outside its range; \<open>times_ok\<close>
  bounds the clocks so that it is not.  A datagram has at most 2048 bytes except where a property about longer ones says otherwise.

  What a step of the adaptor may be: a coroutine is resumed at any time; where the code goes round its loop
  without suspending, the model may suspend, so it has the runs of the code and some more.

  Not modelled: \<open>lfq_init\<close> and \<open>lfq_clean\<close> beside other threads (one run shows that \<open>lfq_clean\<close> must not be), and weaker memory than sequentially consistent; what
  ndnSIM and ndn-cxx do with the packets and the topology, and the wire encoding of signatures; the stacks and
  the scheduler of dyco, of which the liveness properties assume only how often it resumes a coroutine; log output except
  what \<open>StopApplication\<close> prints.  Of the Windows branch of \<open>cross-platform.h\<close> the atomic operations are modelled, not
  its threads.
\<close>

section \<open>From end to end\<close>

text \<open>
  C5. A consumer in the simulator gets the time from the server on the real network.  When the application is given the
  interest \<open>nm/seqno\<close>, its datagram makes the adaptor send an interest to the network; when the network delivers it
  to \<open>time_server\<close> and the server's answer to the adaptor, then the adaptor's datagram makes the application hand
  data to the simulator with the name and number asked for and the server's time as its content, unless the adaptor
  takes the answer for a NACK: the server never sets \<open>d_type\<close> of its descriptor, so that byte is whatever its stack holds,
  \<open>stack\<close>, and when that is \<open>D_NACK\<close> the content arrives empty (\<open>left_of\<close>).
\<close>

theorem simulated_consumer_gets_the_time:
  assumes "init_ok ia" and "boot st0" and "init_adaptor ia st0 = Some st" and "malloc_good mal"
    and "allocs_fresh (init_nodes ia) (init_addrs ia) (map al [0..<6])" and "\<forall>k < 6. c_node (al k) \<noteq> NULL"
    and "nip_network deliver" and "0 \<le> sock" and "\<forall>x. 0 \<le> bind_sock sock x" and "length content = 1024"
    and "CHR 0x00 \<notin> set nm" and "unat (ucast seqno :: u32) < 10 ^ 9" and "length nm \<le> 1013"
    and "nd_ok junk" and "length recv_buf = 2048" and "times_ok vtime sec usec app"
  shows "\<exists>dg interest received ans dg' st1 st2 delay app'.
     OnInterest nm seqno junk app = Udp_send (m_data_udpfd app) (m_interest_raddr app) dg
   \<and> adaptor_run ina mal [Udp_interest_in dg a (al 0), Nip_interest_out w (al 1), Nip_interest_out 1 (al 2)] st
       = Some ([Nip_out interest], st1)
   \<and> time_server sock bind_sock [time_env deliver interest t stack] content ibuf = Some (Inr ([(received, ans)], 1))
   \<and> adaptor_run ina mal [Nip_data_in 1 (deliver ans) (al 3), Udp_data_out (al 4), Udp_data_out (al 5)] st1
       = Some ([Udp_out a dg'], st2)
   \<and> ScheduleNextTick recv_buf [] dg' nonce vtime sec usec app
       = Some ([Ndn_data nm (ucast seqno) 1000 (if d_type stack = D_NACK then [] else time_text t) False], delay, app')"
proof -
  let ?A = "init_nodes ia" and ?B = "init_addrs ia"
  have fresh: "allocs_fresh ?A ?B [al 0, al 1, al 2]"
      "allocs_fresh (nodes_given [al 0, al 1, al 2] ?A) (bufs_given [al 0, al 1, al 2] ?B) [al 3, al 4, al 5]"
    using assms(5) allocs_fresh_3 [of ?A ?B "al 0" "al 1" "al 2" "[al 3, al 4, al 5]"] by (simp_all add: upt_rec eval_nat_numeral)
  have nodes: "c_node (al 0) \<noteq> NULL" "c_node (al 3) \<noteq> NULL" using assms(6) by simp_all
  note boot = serving_boot [OF assms(1-3), unfolded boot_relay_def]
  show ?thesis
    by (rule time_exchange [where bind_sock = bind_sock and app = app and ina = ina and a = a and w = w and t = t and ibuf = ibuf
          and nonce = nonce and vtime = vtime and sec = sec and usec = usec and stack = stack, OF boot fresh _ assms(4) nodes assms(7-16), unfolded left_of_def])
       (simp, blast)
qed


theorem simulated_consumer_gets_the_time_witness:
  "\<exists>st dg interest received ans dg' st1 st2 delay app'.
     init_adaptor sample_init sample_boot = Some st
   \<and> OnInterest ''/mixsim/real/time'' 42 sample_junk sample_app = Udp_send 4 (m_interest_raddr sample_app) dg
   \<and> adaptor_run (\<lambda>_. 0) sample_malloc [Udp_interest_in dg (sample_port 1) (sample_alloc 0),
       Nip_interest_out 0 (sample_alloc 1), Nip_interest_out 1 (sample_alloc 2)] st = Some ([Nip_out interest], st1)
   \<and> time_server 3 (\<lambda>_ _. 0) [time_env sample_deliver interest 77 sample_ibuf] (replicate 1024 CHR 0x00) sample_ibuf
       = Some (Inr ([(received, ans)], 1))
   \<and> adaptor_run (\<lambda>_. 0) sample_malloc [Nip_data_in 1 (sample_deliver ans) (sample_alloc 3),
       Udp_data_out (sample_alloc 4), Udp_data_out (sample_alloc 5)] st1 = Some ([Udp_out (sample_port 1) dg'], st2)
   \<and> ScheduleNextTick (replicate 2048 CHR 0x00) [] dg' 7 0 100 600000 sample_app
       = Some ([Ndn_data ''/mixsim/real/time'' 42 1000 (time_text 77) False], delay, app')"
proof -
  obtain st where st: "init_adaptor sample_init sample_boot = Some st"
    by (rule sample_start [of "\<lambda>_. 0" sample_malloc])
  have app: "CHR 0x00 \<notin> set ''/mixsim/real/time''" "unat (ucast (42 :: u64) :: u32) < 10 ^ 9"
      "length ''/mixsim/real/time'' \<le> 1013" "m_data_udpfd sample_app = 4" by (simp_all add: sample_app_def)
  have srv: "(0 :: int) \<le> 3" "\<forall>x :: nsockaddr. (0 :: int) \<le> (\<lambda>_ _. 0) (3 :: int) x"
      "length (replicate 1024 CHR 0x00) = 1024" "length (replicate 2048 CHR 0x00) = 2048" by simp_all
  have clock: "times_ok 0 100 600000 sample_app" "d_type sample_ibuf \<noteq> D_NACK"
    by (simp_all add: times_ok_def started_ok_def clock_ok_def sample_app_def d_type_def sample_ibuf_def D_NACK_def)
  have al: "allocs_fresh (init_nodes sample_init) (init_addrs sample_init) (map sample_alloc [0..<6])"
      "\<forall>k < 6. c_node (sample_alloc k) \<noteq> NULL"
    by (rule sample_allocs; simp)+
  from simulated_consumer_gets_the_time [where bind_sock = "\<lambda>_ _. 0" and app = sample_app and a = "sample_port 1" and w = 0
      and t = 77 and nonce = 7 and vtime = 0 and sec = 100 and usec = 600000 and ina = "\<lambda>_. 0" and ibuf = sample_ibuf and stack = sample_ibuf,
      OF sample_init_ok sample_boot st sample_malloc_good al sample_network srv(1-3) app(1-3) sample_junk_ok srv(4) clock(1)]
  show ?thesis using st clock(2) by (simp add: app(4) del: adaptor_run.simps)
qed


text \<open>
  C2. The consumer on the real network gets the answer of the provider in the simulator, and everything takes part: the
  interest of \<open>consumer.c\<close> goes through the adaptor and the application to \<open>ProducerVirtual\<close>, whose own interest for the
  time goes back through the application and the adaptor to \<open>time_server\<close>; the server's data comes back to the
  provider, whose answer with what it got goes through the application and the adaptor to the consumer, which
  prints it under the name it asked for.  What it got is the server's time, unless the byte \<open>d_type\<close> the server leaves
  uninitialised, \<open>stack\<close>, happens to be \<open>D_NACK\<close>: then it is empty, and the consumer's answer has nothing between the brackets.
\<close>

theorem real_consumer_gets_the_answer:
  assumes "init_ok ia" and "boot st0" and "init_adaptor ia st0 = Some st" and "malloc_good mal"
    and "allocs_fresh (init_nodes ia) (init_addrs ia) (map al [0..<12])" and "\<forall>k < 12. c_node (al k) \<noteq> NULL"
    and "nip_network deliver" and "0 \<le> sock" and "\<forall>x. 0 \<le> bind_sock sock x" and "length content = 1024"
    and "p_active prov" and "nd_ok junk" and "length recv_buf = 2048"
    and "times_ok vtime sec usec app" and "v = (if d_type stack = D_NACK then [] else time_text t)"
  shows "\<exists>asked interest received time ans dbuf dg1 dg2 dg3 dg4 st1 st2 st3 st4 d1 d2 app1 app2 prov1.
     adaptor_run ina mal [Nip_interest_in 1 (deliver asked) (al 0), Udp_interest_out (al 1), Udp_interest_out (al 2)] st
       = Some ([Udp_out (sim_addr ina) dg1], st1)
   \<and> ScheduleNextTick recv_buf dg1 [] nonce vtime sec usec app
       = Some ([Ndn_interest asked_path 3333 nonce False 2000], d1, app1)
   \<and> provider_step (Interest_arrives nonce (asked_path, 3333)) prov
       = Some ([P_interest (''/mixsim/real/time'', 3333) nonce False 1000], prov1)
   \<and> OnInterest ''/mixsim/real/time'' 3333 junk app1 = Udp_send (m_data_udpfd app1) (m_interest_raddr app1) dg2
   \<and> adaptor_run ina mal [Udp_interest_in dg2 a (al 3), Nip_interest_out w (al 4), Nip_interest_out 1 (al 5)] st1
       = Some ([Nip_out interest], st2)
   \<and> time_server sock bind_sock [time_env deliver interest t stack] content ibuf = Some (Inr ([(received, time)], 1))
   \<and> adaptor_run ina mal [Nip_data_in 1 (deliver time) (al 6), Udp_data_out (al 7), Udp_data_out (al 8)] st2
       = Some ([Udp_out a dg3], st3)
   \<and> ScheduleNextTick recv_buf [] dg3 nonce vtime sec usec app1
       = Some ([Ndn_data ''/mixsim/real/time'' 3333 1000 v False], d2, app2)
   \<and> provider_step (Data_arrives (''/mixsim/real/time'', 3333) v pjunk) prov1
       = Some ([P_data (asked_path, 3333) (p_freshness prov) (provider_text v) (p_key_locator prov)], prov1)
   \<and> OnData asked_path 3333 (provider_text v) junk app2
       = Some (Udp_send (m_interest_udpfd app2) (m_data_raddr app2) dg4)
   \<and> adaptor_run ina mal [Udp_data_in dg4 (al 9), Nip_data_out w (al 10), Nip_data_out 1 (al 11)] st3
       = Some ([Nip_out ans], st4)
   \<and> consumer sock (\<lambda>ib. if ib = asked then 0 else -1) (deliver ans) cjunk djunk = Some (Inr dbuf)
   \<and> ibuf_packet dbuf = (asked_path @ ''/3333'', provider_text v)"
proof -
  have v: "v = left_of stack (time_text t)" using assms(15) by (simp add: left_of_def)
  have small_v: "length v \<le> 26"
    unfolding v by (rule order_trans [OF left_of_le length_time_text])
  let ?A = "init_nodes ia" and ?B = "init_addrs ia" and ?rt = "''/mixsim/real/time''"
  have "allocs_fresh ?A ?B [al 0, al 1, al 2, al 3, al 4, al 5, al 6, al 7, al 8, al 9, al 10, al 11]"
    using assms(5) by (simp add: upt_rec eval_nat_numeral)
  note all_fresh = this [unfolded allocs_fresh_3 [where als = "_ # _"]]
  note fresh = conjunct1 [OF all_fresh] conjunct1 [OF conjunct2 [OF all_fresh]]
    conjunct1 [OF conjunct2 [OF conjunct2 [OF all_fresh]]] conjunct2 [OF conjunct2 [OF conjunct2 [OF all_fresh]]]
  have nodes: "c_node (al 0) \<noteq> NULL" "c_node (al 3) \<noteq> NULL" "c_node (al 6) \<noteq> NULL" "c_node (al 9) \<noteq> NULL"
    using assms(6) by simp_all
  have nums: "unat (ucast (3333 :: u64) :: u32) < 10 ^ 9" "unat (3333 :: u32) < 10 ^ 9" "ucast (3333 :: u64) = (3333 :: u32)"
    "CHR 0x00 \<notin> set asked_path" "CHR 0x00 \<notin> set ?rt" "length asked_path \<le> 1013" "length ?rt \<le> 1013" by simp_all
  have fits: "length asked_path + length (provider_text v) \<le> 2030" "length (provider_text v) \<le> 4096" "length v \<le> 1000"
    using small_v by simp_all
  obtain asked where asked: "ib_type asked = TYPE_INTEREST" "fst (ibuf_packet asked) = uri asked_path 3333"
    and got: "\<forall>ans v. ib_type ans = TYPE_DATA \<longrightarrow> ibuf_packet ans = (uri asked_path 3333, v) \<longrightarrow> length v \<le> 4096 \<longrightarrow>
       (\<exists>dbuf. consumer sock (\<lambda>ib. if ib = asked then 0 else -1) (deliver ans) cjunk djunk = Some (Inr dbuf)
            \<and> ibuf_packet dbuf = (uri asked_path 3333, v))"
    unfolding asked_uri by (rule consumer_answered [OF assms(7,8), of cjunk djunk])
  let ?ib = "(ibuf_nip_interest_in st0)\<lparr>ib_type := TYPE_INTEREST, ib_nlen := MAX_NAME_LEN, ib_dlen := MAX_DATA_LEN\<rparr>"
  have small: "(0 :: nat) \<le> 1000" "(0 + 3 :: nat) \<le> 900" "(0 + 3 + 3 + 3 :: nat) \<le> 1000" by simp_all
  have asks: "fits_in asked ?ib" "fst (ibuf_packet asked) = uri asked_path 3333"
    using asked unfolding asked_uri
    by (simp_all add: fits_in_def MAX_NAME_LEN_def MAX_DATA_LEN_def TYPE_INTEREST_def TYPE_DATA_def)
  obtain dg1 ib1 st1 d1 app1 where i:
    "adaptor_run ina mal (ask_inside_evs (deliver asked) (al 0) (al 1) (al 2)) st = Some ([Udp_out (sim_addr ina) dg1], st1)"
    "ScheduleNextTick recv_buf dg1 [] nonce vtime sec usec app
      = Some ([Ndn_interest asked_path 3333 nonce False 2000], d1, app1)"
    "serving (nodes_given [al 0, al 1, al 2] ?A) (bufs_given [al 0, al 1, al 2] ?B) (0 + 3)
       (idle_relay ib1 (ibuf_nip_data_in st0)) st1"
    by (rule ask_inside_app [OF serving_boot [OF assms(1-3), unfolded boot_relay_def] fresh(1) small(1) assms(7) asks
          nodes(1) nums(4,2) assms(13,14)])
  have clock: "times_ok vtime sec usec app1"
    using assms(14) tick_keeps_times(1) [OF i(2) assms(14)] by (simp add: times_ok_def)
  obtain dg2 interest received time dg3 st2 st3 d2 app2 ib2 where e:
    "OnInterest ?rt 3333 junk app1 = Udp_send (m_data_udpfd app1) (m_interest_raddr app1) dg2"
    "adaptor_run ina mal (ask_evs dg2 a w (al 3) (al 4) (al 5)) st1 = Some ([Nip_out interest], st2)"
    "time_server sock bind_sock [time_env deliver interest t stack] content ibuf = Some (Inr ([(received, time)], 1))"
    "adaptor_run ina mal (answer_evs (deliver time) (al 6) (al 7) (al 8)) st2 = Some ([Udp_out a dg3], st3)"
    "ScheduleNextTick recv_buf [] dg3 nonce vtime sec usec app1 = Some ([Ndn_data ?rt (ucast (3333 :: u64)) 1000 v False], d2, app2)"
    "serving (nodes_given [al 6, al 7, al 8] (nodes_given [al 3, al 4, al 5] (nodes_given [al 0, al 1, al 2] ?A)))
       (bufs_given [al 6, al 7, al 8] (bufs_given [al 3, al 4, al 5] (bufs_given [al 0, al 1, al 2] ?B)))
       (0 + 3 + 3 + 3) (idle_relay ib1 ib2) st3"
    by (rule time_exchange [where bind_sock = bind_sock, OF i(3) fresh(2,3) small(2) assms(4) nodes(2,3) assms(7-10) nums(5,1,7)
          assms(12,13) clock, where stack = stack and t = t, folded v])
  obtain prov1 where prov: "provider_step (Interest_arrives nonce (asked_path, 3333)) prov =
       Some ([P_interest (?rt, 3333) nonce False 1000], prov1)"
    "provider_step (Data_arrives (?rt, 3333) v pjunk) prov1 =
       Some ([P_data (asked_path, 3333) (p_freshness prov) (provider_text v) (p_key_locator prov)], prov1)"
    by (rule provider_answers [OF assms(11) left_printed [of stack t, folded v] fits(3)])
  obtain dg4 ans st4 where o:
    "OnData asked_path 3333 (provider_text v) junk app2 = Some (Udp_send (m_interest_udpfd app2) (m_data_raddr app2) dg4)"
    "adaptor_run ina mal (answer_inside_evs dg4 w (al 9) (al 10) (al 11)) st3 = Some ([Nip_out ans], st4)"
    "ib_type ans = TYPE_DATA" "ibuf_packet ans = (uri asked_path (ucast (3333 :: u64)), provider_text v)"
    by (rule answer_inside_app [OF e(6) fresh(4) small(3) nodes(4) nums(4,1,6) assms(12) fits(1)])
  obtain dbuf where "consumer sock (\<lambda>ib. if ib = asked then 0 else -1) (deliver ans) cjunk djunk = Some (Inr dbuf)"
    "ibuf_packet dbuf = (uri asked_path 3333, provider_text v)"
    using got o(3,4) fits(2) unfolding nums(3) by blast
  with i(1,2) e(1-5) prov o(1,2) show ?thesis unfolding asked_uri nums(3) by (intro exI conjI)
qed


theorem real_consumer_gets_the_answer_witness:
  "\<exists>asked ans dbuf. ibuf_packet dbuf = (asked_path @ ''/3333'', provider_text (time_text 77))
     \<and> consumer 3 (\<lambda>ib. if ib = asked then 0 else -1) (sample_deliver ans) sample_answer zero_ibuf = Some (Inr dbuf)"
proof -
  obtain st where st: "init_adaptor sample_init sample_boot = Some st"
    by (rule sample_start [of "\<lambda>_. 0" sample_malloc])
  have srv: "(0 :: int) \<le> 3" "\<forall>x :: nsockaddr. (0 :: int) \<le> (\<lambda>_ _. 0) (3 :: int) x" "p_active sample_prov"
      "length (replicate 1024 CHR 0x00) = 1024" "length (replicate 2048 CHR 0x00) = 2048"
    by (simp_all add: sample_prov_def)
  have clock: "times_ok 0 100 600000 sample_app" "time_text 77 = (if d_type sample_ibuf = D_NACK then [] else time_text 77)"
    by (simp_all add: times_ok_def started_ok_def clock_ok_def sample_app_def d_type_def sample_ibuf_def D_NACK_def)
  have al: "allocs_fresh (init_nodes sample_init) (init_addrs sample_init) (map sample_alloc [0..<12])"
      "\<forall>k < 12. c_node (sample_alloc k) \<noteq> NULL"
    by (rule sample_allocs; simp)+
  from real_consumer_gets_the_answer [where bind_sock = "\<lambda>_ _. 0" and app = sample_app and a = "sample_port 1" and w = 0
      and t = 77 and nonce = 7 and vtime = 0 and sec = 100 and usec = 600000 and ina = "\<lambda>_. 0" and ibuf = sample_ibuf
      and pjunk = "[]" and cjunk = sample_answer and djunk = zero_ibuf,
      OF sample_init_ok sample_boot st sample_malloc_good al sample_network srv(1,2,4,3) sample_junk_ok srv(5) clock]
  show ?thesis by blast
qed

text \<open>
  C10. The provider keeps the name of one interest only, and a consumer pays for it: when the interest of a second consumer
  reaches it before the time for the first has come back, then both its answers, through the application and the
  adaptor, are sent to the network under the second name, the first with the time fetched for the first
  consumer, and none under the name the first consumer asked for.
\<close>

theorem overtaken_consumer_gets_nothing:
  assumes "init_ok ia" and "boot st0" and "init_adaptor ia st0 = Some st"
    and "allocs_fresh (init_nodes ia) (init_addrs ia) (map al [0..<6])" and "\<forall>k < 6. c_node (al k) \<noteq> NULL"
    and "p_active prov" and "CHR 0x00 \<notin> set nm2" and "length nm2 \<le> 1013" and "nd_ok junk"
    and "unat (ucast s1 :: u32) < 10 ^ 9" and "unat (ucast s2 :: u32) < 10 ^ 9"
    and "uri nm1 (ucast s1) \<noteq> uri nm2 (ucast s2)"
  shows "\<exists>v1 v2 dg1 dg2 p1 p2 st1 st2.
     provider_run (two_requests nonce (nm1, s1) (nm2, s2) (time_text t1) (time_text t2) pjunk) prov
       = Some ([FetchTime nonce (ucast s1), FetchTime nonce (ucast s2),
           P_data (nm2, s2) (p_freshness prov) v1 (p_key_locator prov),
           P_data (nm2, s2) (p_freshness prov) v2 (p_key_locator prov)], prov\<lparr>p_interestName := (nm2, s2)\<rparr>)
   \<and> v1 = answer_text (ucast s1) (time_text t1)
   \<and> OnData nm2 s2 v1 junk app = Some (Udp_send (m_interest_udpfd app) (m_data_raddr app) dg1)
   \<and> OnData nm2 s2 v2 junk app = Some (Udp_send (m_interest_udpfd app) (m_data_raddr app) dg2)
   \<and> adaptor_run ina mal [Udp_data_in dg1 (al 0), Nip_data_out w (al 1), Nip_data_out 1 (al 2)] st
       = Some ([Nip_out p1], st1)
   \<and> adaptor_run ina mal [Udp_data_in dg2 (al 3), Nip_data_out w (al 4), Nip_data_out 1 (al 5)] st1
       = Some ([Nip_out p2], st2)
   \<and> ibuf_packet p1 = (uri nm2 (ucast s2), v1) \<and> ibuf_packet p2 = (uri nm2 (ucast s2), v2)
   \<and> uri nm1 (ucast s1) \<notin> {fst (ibuf_packet p1), fst (ibuf_packet p2)}"
proof -
  let ?A = "init_nodes ia" and ?B = "init_addrs ia"
  let ?v1 = "answer_text (ucast s1) (time_text t1)" and ?v2 = "answer_text (ucast s2) (time_text t2)"
  have fresh: "allocs_fresh ?A ?B [al 0, al 1, al 2]"
      "allocs_fresh (nodes_given [al 0, al 1, al 2] ?A) (bufs_given [al 0, al 1, al 2] ?B) [al 3, al 4, al 5]"
    using assms(4) allocs_fresh_3 [of ?A ?B "al 0" "al 1" "al 2" "[al 3, al 4, al 5]"] by (simp_all add: upt_rec eval_nat_numeral)
  have nodes: "c_node (al 0) \<noteq> NULL" "c_node (al 3) \<noteq> NULL" using assms(5) by simp_all
  note prov = provider_overtaken(1) [where nonce = nonce and ?nm1.0 = nm1 and ?nm2.0 = nm2 and ?t1.0 = t1 and ?t2.0 = t2
      and pjunk = pjunk, OF assms(6,10,11)] provider_overtaken(2) [OF assms(6,10,11), of t1]
    provider_overtaken(3) [OF assms(6,10,11), of t2]
  have fits: "length nm2 + length ?v1 \<le> 2030" "length nm2 + length ?v2 \<le> 2030" using prov(2,3) assms(8) by simp_all
  obtain dg1 where dg1: "OnData nm2 s2 ?v1 junk app = Some (Udp_send (m_interest_udpfd app) (m_data_raddr app) dg1)"
      "dgram_wf dg1" "packet_of (nd_of_bytes dg1) = (uri nm2 (ucast s2), ?v1)"
    by (rule app_answers [OF assms(7,11,8,9) fits(1)])
  obtain dg2 where dg2: "OnData nm2 s2 ?v2 junk app = Some (Udp_send (m_interest_udpfd app) (m_data_raddr app) dg2)"
      "dgram_wf dg2" "packet_of (nd_of_bytes dg2) = (uri nm2 (ucast s2), ?v2)"
    by (rule app_answers [OF assms(7,11,8,9) fits(2)])
  have small: "(0 :: nat) \<le> 1000" "(0 + 3 :: nat) \<le> 1000" by simp_all
  obtain p1 st1 where r1: "adaptor_run ina mal (answer_inside_evs dg1 w (al 0) (al 1) (al 2)) st = Some ([Nip_out p1], st1)"
      "ibuf_packet p1 = (uri nm2 (ucast s2), ?v1)"
      "serving (nodes_given [al 0, al 1, al 2] ?A) (bufs_given [al 0, al 1, al 2] ?B) (0 + 3)
         (idle_relay (ibuf_nip_interest_in st0) (ibuf_nip_data_in st0)) st1"
    by (rule answer_inside_adaptor [OF serving_boot [OF assms(1-3), unfolded boot_relay_def] fresh(1) small(1) dg1(2,3) nodes(1)])
  obtain p2 st2 where r2: "adaptor_run ina mal (answer_inside_evs dg2 w (al 3) (al 4) (al 5)) st1 = Some ([Nip_out p2], st2)"
      "ibuf_packet p2 = (uri nm2 (ucast s2), ?v2)"
    by (rule answer_inside_adaptor [OF r1(3) fresh(2) small(2) dg2(2,3) nodes(2)])
  show ?thesis
    by (rule exI [of _ ?v1], rule exI [of _ ?v2], rule exI [of _ dg1], rule exI [of _ dg2], rule exI [of _ p1],
        rule exI [of _ p2], rule exI [of _ st1], rule exI [of _ st2])
      (use prov(1) dg1(1) dg2(1) r1(1,2) r2(1,2) assms(12) in \<open>simp del: adaptor_run.simps provider_run.simps\<close>)
qed

theorem overtaken_consumer_gets_nothing_witness:
  "\<exists>st p1 p2 st1 st2 dg1 dg2. init_adaptor sample_init sample_boot = Some st
   \<and> adaptor_run (\<lambda>_. 0) sample_malloc [Udp_data_in dg1 (sample_alloc 0), Nip_data_out 1 (sample_alloc 1), Nip_data_out 1 (sample_alloc 2)] st
       = Some ([Nip_out p1], st1)
   \<and> adaptor_run (\<lambda>_. 0) sample_malloc [Udp_data_in dg2 (sample_alloc 3), Nip_data_out 1 (sample_alloc 4), Nip_data_out 1 (sample_alloc 5)] st1
       = Some ([Nip_out p2], st2)
   \<and> fst (ibuf_packet p1) = uri asked_path 2 \<and> fst (ibuf_packet p2) = uri asked_path 2"
proof -
  obtain st where st: "init_adaptor sample_init sample_boot = Some st"
    by (rule sample_start [of "\<lambda>_. 0" sample_malloc])
  have al: "allocs_fresh (init_nodes sample_init) (init_addrs sample_init) (map sample_alloc [0..<6])"
      "\<forall>k < 6. c_node (sample_alloc k) \<noteq> NULL"
    by (rule sample_allocs; simp)+
  have nm: "p_active sample_prov" "CHR 0x00 \<notin> set asked_path" "length asked_path \<le> 1013"
      "unat (ucast (1 :: u64) :: u32) < 10 ^ 9" "unat (ucast (2 :: u64) :: u32) < 10 ^ 9"
      "uri asked_path (ucast (1 :: u64)) \<noteq> uri asked_path (ucast (2 :: u64))"
    by (simp_all add: sample_prov_def decimal.simps char_of_eq_iff)
  from overtaken_consumer_gets_nothing [where ina = "\<lambda>_. 0" and mal = sample_malloc and nonce = 7 and ?t1.0 = 77 and ?t2.0 = 78
      and pjunk = "[]" and app = sample_app and w = 1, OF sample_init_ok sample_boot st al nm(1-3) sample_junk_ok nm(4-6)]
  obtain p1 p2 dg1 dg2 st1 st2 where
    "adaptor_run (\<lambda>_. 0) sample_malloc [Udp_data_in dg1 (sample_alloc 0), Nip_data_out 1 (sample_alloc 1), Nip_data_out 1 (sample_alloc 2)] st
       = Some ([Nip_out p1], st1)"
    "adaptor_run (\<lambda>_. 0) sample_malloc [Udp_data_in dg2 (sample_alloc 3), Nip_data_out 1 (sample_alloc 4), Nip_data_out 1 (sample_alloc 5)] st1
       = Some ([Nip_out p2], st2)"
    "fst (ibuf_packet p1) = uri asked_path 2" "fst (ibuf_packet p2) = uri asked_path 2"
    by (auto simp del: adaptor_run.simps)
  with st show ?thesis by blast
qed

section \<open>The configuration\<close>

text \<open>
  C34. The scenario of \<open>ndn-simple.cpp\<close>, the adaptor and the server are set up for each other.  The application's two
  sockets are bound to the port the adaptor sends interests to and to the one its own interests come from; its datagrams
  go to the two ports the adaptor's coroutines listen on; the route it registers for \<open>/mixsim\<close> covers the name the
  provider asks for, which is the prefix the time server binds; and the prefix the adaptor binds on the network is the
  provider's, of which the consumer asks for a name.  Each is shown with a \<open>bind\<close> that refuses anything else.
\<close>

theorem scenario_fits_adaptor:
  assumes "0 < sock 0" and "0 < sock 1" and "sock 0 \<noteq> sock 1"
    and "0 < fd 0" and "0 < fd 1" and "fd 0 \<noteq> fd 1" and "0 < fd 2" and "0 < fd 3"
  shows "\<exists>sc routes app. ndn_simple sock getfl st pst = Some (Inr sc)
   \<and> StartApplication ina
       (\<lambda>s a. if sin_port a = (if s = sock 0 then sin_port (sim_addr ina) else htons 8788) then 0 else -1) sec usec (mixsim sc)
       = Inr (routes, app)
   \<and> m_interest_udpfd app = sock 0 \<and> m_data_udpfd app = sock 1
   \<and> init_coroutines ina fd
       (\<lambda>s a. if sin_port a = sin_port (if s = fd 0 then m_data_raddr app else m_interest_raddr app) then 0 else -1)
       (\<lambda>s a. if ns_prefix a = provider_start (producer sc) then 0 else -1)
       = [(Co_udp_interest_out, fd 0), (Co_udp_interest_in, fd 1), (Co_udp_data_out, fd 1), (Co_udp_data_in, fd 0),
          (Co_nip_interest_out, fd 2), (Co_nip_interest_in, fd 3), (Co_nip_data_out, fd 3), (Co_nip_data_in, fd 2)]
   \<and> (\<exists>r \<in> set routes. prefix (r @ ''/'') ''/mixsim/real/time'')
   \<and> FetchTime nonce seq = P_interest (''/mixsim/real/time'', ucast seq) nonce False 1000
   \<and> time_server 3 (\<lambda>s a. if ns_prefix a = ''/mixsim/real/time'' then 0 else -1) [] content junk = Some (Inr ([], 0))
   \<and> prefix (provider_start (producer sc) @ ''/'') asked_path"
proof -
  have nonneg: "0 \<le> sock 0" "0 \<le> sock 1" using assms(1,2) by simp_all
  obtain sc where sc: "ndn_simple sock getfl st pst = Some (Inr sc)"
    "m_prefixes (mixsim sc) = ''/mixsim$/demo$/nip/lab101''" "m_interest_lport (mixsim sc) = 8787"
    "m_data_lport (mixsim sc) = 8788" "m_interest_rport (mixsim sc) = 8798" "m_data_rport (mixsim sc) = 8797"
    "m_interest_udpfd (mixsim sc) = sock 0" "m_data_udpfd (mixsim sc) = sock 1"
    "p_prefix (producer sc) = ''/Rpi-1/lab1038''"
    using ndn_simple_builds [OF nonneg, of getfl st pst] by blast
  have routes: "registerFib st = [''/mixsim'', ''/demo'', ''/nip/lab101'']"
    if "m_prefixes st = ''/mixsim$/demo$/nip/lab101''" for st
    using that by (simp add: registerFib_def registerFib_loop.simps)
  have names: "prefix ''/mixsim/'' ''/mixsim/real/time''" "prefix ''/Rpi-1/lab1038/'' asked_path" by code_simp+
  show ?thesis
    using sc assms names
    by (auto simp: StartApplication_def routes Let_def init_coroutines_def init_udpsock_def init_simtoreal_nipsock_def
        init_realtosim_nipsock_def sim_addr_def provider_start_def FetchTime_def time_server_def server_main_def)
qed

theorem scenario_fits_adaptor_witness:
  "\<exists>sc. ndn_simple (\<lambda>k. 3 + int k) (\<lambda>_. 0) sample_app sample_prov = Some (Inr sc)
     \<and> prefix (provider_start (producer sc) @ ''/'') asked_path"
  using scenario_fits_adaptor [where sock = "\<lambda>k. 3 + int k" and fd = "\<lambda>k. 5 + int k" and getfl = "\<lambda>_. 0"
      and st = sample_app and pst = sample_prov and ina = "\<lambda>_. 0" and sec = 0 and usec = 0 and nonce = 0 and seq = 0
      and content = "[]" and junk = sample_ibuf]
  by auto

end
